(* ===== verification/Amethyst_Prelude.thy ===== *)
theory Amethyst_Prelude
  imports "HOL-Library.Word" "HOL-Library.List_Lexorder" "HOL-Library.Log_Nat"
    "HOL-Library.Multiset" "HOL-Library.AList"
begin

text \<open>
  Shared vocabulary of the development: Go's machine integers, strings and slices, the
  big-endian codecs of \<^verbatim>\<open>encoding/binary\<close>, \<^verbatim>\<open>sort.Search\<close>, \<^verbatim>\<open>copy\<close>, and the two points
  where the Go runtime is free to choose (the order in which a map is ranged over and the
  order in which \<^verbatim>\<open>sort.Slice\<close> leaves equivalent elements), together with the lemmas on
  them that every component uses.
\<close>

unbundle bit_operations_syntax

named_theorems go_simps \<open>unfoldings of the small definitions that model Go's own operations\<close>
named_theorems codec_simps \<open>lengths and round trips of the byte codecs\<close>

section \<open>Strings, slices and integers\<close>

text \<open>
  A Go string is an immutable sequence of bytes compared bytewise, so it is a list of
  bytes under the lexicographic order of \<^verbatim>\<open>List_Lexorder\<close>. A \<^verbatim>\<open>[]byte\<close> can be nil, which
  the program distinguishes from the empty slice in some places: \<open>None\<close> is nil.
\<close>

type_synonym byte = "8 word"
type_synonym gostring = "byte list"
type_synonym slice = "byte list option"

definition slice_bytes :: "slice \<Rightarrow> byte list" where
  "slice_bytes v = (case v of None \<Rightarrow> [] | Some bs \<Rightarrow> bs)"

lemma slice_bytes_simps [simp]: "slice_bytes None = []" "slice_bytes (Some bs) = bs"
  by (simp_all add: slice_bytes_def)

text \<open>A signed 64-bit value is an \<^typ>\<open>int\<close>; every addition goes through \<open>i64\<close>, which wraps.\<close>

definition i64 :: "int \<Rightarrow> int" where
  "i64 x = signed_take_bit 63 x"

definition i32 :: "int \<Rightarrow> int" where
  "i32 x = signed_take_bit 31 x"

lemma i32_id: "- (2 ^ 31) \<le> x \<Longrightarrow> x < 2 ^ 31 \<Longrightarrow> i32 x = x"
  by (simp add: i32_def signed_take_bit_int_eq_self)

definition in_i64 :: "int \<Rightarrow> bool" where
  "in_i64 x \<longleftrightarrow> - (2 ^ 63) \<le> x \<and> x < 2 ^ 63"

lemma i64_id: "- (2 ^ 63) \<le> x \<Longrightarrow> x < 2 ^ 63 \<Longrightarrow> i64 x = x"
  by (simp add: i64_def signed_take_bit_int_eq_self)

lemma in_i64_i64: "in_i64 (i64 x)"
proof -
  have "- (2 ^ 63) \<le> signed_take_bit 63 x" "signed_take_bit 63 x < (2 ^ 63 :: int)"
    by (rule signed_take_bit_int_greater_eq_minus_exp, rule signed_take_bit_int_less_exp)
  then show ?thesis
    by (simp add: in_i64_def i64_def)
qed

lemma i64_wraps: "i64 (2 ^ 63 - 1 + 1) = - (2 ^ 63)"
  by (simp add: i64_def signed_take_bit_eq_if_positive signed_take_bit_eq_if_negative)

section \<open>Big-endian codecs\<close>

text \<open>\<^verbatim>\<open>binary.BigEndian.PutUint32\<close>, \<^verbatim>\<open>PutUint64\<close> and \<^verbatim>\<open>Uint32\<close>, shift by shift.\<close>

definition put_u32 :: "32 word \<Rightarrow> byte list" where
  "put_u32 v = [ucast (drop_bit 24 v), ucast (drop_bit 16 v), ucast (drop_bit 8 v), ucast v]"

definition put_u64 :: "64 word \<Rightarrow> byte list" where
  "put_u64 v =
     [ucast (drop_bit 56 v), ucast (drop_bit 48 v), ucast (drop_bit 40 v), ucast (drop_bit 32 v),
      ucast (drop_bit 24 v), ucast (drop_bit 16 v), ucast (drop_bit 8 v), ucast v]"

definition get_u32 :: "byte list \<Rightarrow> 32 word" where
  "get_u32 b = ucast (b ! 3) OR push_bit 8 (ucast (b ! 2)) OR push_bit 16 (ucast (b ! 1))
     OR push_bit 24 (ucast (b ! 0))"

text \<open>\<^verbatim>\<open>uint32(len(x))\<close> keeps the low 32 bits of the length.\<close>

definition u32_len :: "'a list \<Rightarrow> 32 word" where
  "u32_len xs = of_nat (length xs)"

lemma put_u32_length [simp, codec_simps]: "length (put_u32 v) = 4"
  by (simp add: put_u32_def)

lemma put_u64_length [simp, codec_simps]: "length (put_u64 v) = 8"
  by (simp add: put_u64_def)

lemma nat_32_cases:
  "(n::nat) < 32 \<Longrightarrow>
     n < 8 \<or> (\<exists>m<8. n = 8 + m) \<or> (\<exists>m<8. n = 16 + m) \<or> (\<exists>m<8. n = 24 + m)"
  by presburger

lemma get_put_u32 [simp, codec_simps]: "get_u32 (put_u32 v) = v"
proof (rule bit_word_eqI)
  fix n assume "n < LENGTH(32)"
  then have "n < 32" by simp
  then consider "n < 8" | m where "m < 8" "n = 8 + m" | m where "m < 8" "n = 16 + m"
    | m where "m < 8" "n = 24 + m"
    using nat_32_cases by blast
  then show "bit (get_u32 (put_u32 v)) n = bit v n"
    by cases (simp_all add: get_u32_def put_u32_def bit_simps add.commute)
qed

lemma unat_u32_len [codec_simps]: "length xs < 2 ^ 32 \<Longrightarrow> unat (u32_len xs) = length xs"
  by (simp add: u32_len_def unat_of_nat)

lemma unat_u32_len_mod: "unat (u32_len xs) = length xs mod 2 ^ 32"
  by (simp add: u32_len_def unat_of_nat)

lemma put_u32_not_Nil [simp]: "put_u32 v \<noteq> []" "put_u64 w \<noteq> []"
  by (simp_all add: put_u32_def put_u64_def)

section \<open>Slices: overlapping copy\<close>

text \<open>
  \<^verbatim>\<open>copy(xs[d:], xs[s:])\<close> on one backing array moves as many elements as fit, as
  \<^verbatim>\<open>memmove\<close> does.
\<close>

definition copy_within :: "nat \<Rightarrow> nat \<Rightarrow> 'a list \<Rightarrow> 'a list" where
  "copy_within d s xs =
     (let n = min (length xs - d) (length xs - s)
      in take d xs @ take n (drop s xs) @ drop (d + n) xs)"

lemma shift_insert:
  assumes "i \<le> length xs"
  shows "(copy_within (Suc i) i (xs @ [z]))[i := e] = take i xs @ e # drop i xs"
proof -
  have "take (length xs - i) (drop i (xs @ [z])) = drop i xs"
    using assms by simp
  then have "copy_within (Suc i) i (xs @ [z]) = take (Suc i) (xs @ [z]) @ drop i xs"
    using assms by (simp add: copy_within_def Let_def min_def Suc_diff_le)
  also have "take (Suc i) (xs @ [z]) = take i (xs @ [z]) @ [(xs @ [z]) ! i]"
    by (rule take_Suc_conv_app_nth) (simp add: assms less_Suc_eq_le)
  also have "take i (xs @ [z]) = take i xs"
    using assms by simp
  finally show ?thesis
    using assms by (simp add: list_update_append)
qed

section \<open>Binary search\<close>

text \<open>
  \<^verbatim>\<open>sort.Search(n, f)\<close>: the loop of the standard library over the half-open range, with a
  count of the calls of \<open>f\<close>, since one caller's closure counts them.
\<close>

function search_loop :: "(nat \<Rightarrow> bool) \<Rightarrow> nat \<Rightarrow> nat \<Rightarrow> nat \<Rightarrow> nat \<times> nat" where
  "search_loop f c i j =
     (if i < j then
        let h = (i + j) div 2 in
        if \<not> f h then search_loop f (Suc c) (Suc h) j else search_loop f (Suc c) i h
      else (i, c))"
  by pat_completeness auto
termination
  by (relation "measure (\<lambda>(f, c, i, j). j - i)") (auto simp: Let_def)

declare search_loop.simps [simp del]

definition go_search :: "nat \<Rightarrow> (nat \<Rightarrow> bool) \<Rightarrow> nat" where
  "go_search n f = fst (search_loop f 0 0 n)"

definition go_search_calls :: "nat \<Rightarrow> (nat \<Rightarrow> bool) \<Rightarrow> nat" where
  "go_search_calls n f = snd (search_loop f 0 0 n)"

text \<open>The documented requirement of the library: once true, \<open>f\<close> stays true.\<close>

definition search_pred :: "nat \<Rightarrow> (nat \<Rightarrow> bool) \<Rightarrow> bool" where
  "search_pred n f \<longleftrightarrow> (\<forall>a b. a \<le> b \<longrightarrow> b < n \<longrightarrow> f a \<longrightarrow> f b)"

lemma search_loop_correct:
  assumes "search_pred n f" "i \<le> j" "j \<le> n" "\<And>k. k < i \<Longrightarrow> \<not> f k" "\<And>k. j \<le> k \<Longrightarrow> k < n \<Longrightarrow> f k"
  shows "let r = fst (search_loop f c i j) in r \<le> n \<and> (\<forall>k<r. \<not> f k) \<and> (\<forall>k. r \<le> k \<longrightarrow> k < n \<longrightarrow> f k)"
  using assms
proof (induction f c i j rule: search_loop.induct)
  case (1 f c i j)
  show ?case
  proof (cases "i < j")
    case True
    define h where "h = (i + j) div 2"
    have h: "i \<le> h" "h < j" using True by (auto simp: h_def)
    show ?thesis
    proof (cases "f h")
      case fh: True
      have "\<And>k. h \<le> k \<Longrightarrow> k < n \<Longrightarrow> f k"
        using "1.prems"(1) fh by (auto simp: search_pred_def)
      then have "let r = fst (search_loop f (Suc c) i h) in r \<le> n \<and> (\<forall>k<r. \<not> f k) \<and> (\<forall>k. r \<le> k \<longrightarrow> k < n \<longrightarrow> f k)"
        using "1.IH"(2) [OF True h_def] fh "1.prems" h by simp
      then show ?thesis
        using True fh by (subst search_loop.simps) (simp add: h_def [symmetric] Let_def)
    next
      case nfh: False
      have "\<not> f k" if "k < Suc h" for k
        using "1.prems"(1,3) nfh that h by (auto simp: search_pred_def less_Suc_eq_le)
      then have "let r = fst (search_loop f (Suc c) (Suc h) j) in r \<le> n \<and> (\<forall>k<r. \<not> f k) \<and> (\<forall>k. r \<le> k \<longrightarrow> k < n \<longrightarrow> f k)"
        using "1.IH"(1) [OF True h_def] nfh "1.prems" h by simp
      then show ?thesis
        using True nfh by (subst search_loop.simps) (simp add: h_def [symmetric] Let_def)
    qed
  next
    case False
    then show ?thesis
      using "1.prems" by (subst search_loop.simps) (auto simp: Let_def)
  qed
qed

lemma go_search_spec:
  assumes "search_pred n f"
  shows "go_search n f \<le> n" "k < go_search n f \<Longrightarrow> \<not> f k"
    "go_search n f \<le> k \<Longrightarrow> k < n \<Longrightarrow> f k"
  using search_loop_correct [OF assms, of 0 n 0] by (auto simp: go_search_def Let_def)

lemma go_search_unique:
  assumes "search_pred n f" "r \<le> n" "\<And>k. k < r \<Longrightarrow> \<not> f k" "r < n \<Longrightarrow> f r"
  shows "go_search n f = r"
proof (rule antisym)
  show "go_search n f \<le> r"
    using assms(2,4) go_search_spec(1,2) [OF assms(1)] by (metis le_less_linear le_neq_implies_less)
  show "r \<le> go_search n f"
    using assms(2,3) go_search_spec(3) [OF assms(1)] by (metis le_less_linear less_le_trans order_refl)
qed

lemma search_loop_calls:
  "2 ^ snd (search_loop f c i j) \<le> 2 ^ c * max 1 (2 * (j - i))"
proof (induction f c i j rule: search_loop.induct)
  case (1 f c i j)
  show ?case
  proof (cases "i < j")
    case True
    define h where "h = (i + j) div 2"
    have h: "i \<le> h" "h < j" using True by (auto simp: h_def)
    have bound: "2 ^ Suc c * max 1 (2 * d) \<le> 2 ^ c * max 1 (2 * (j - i))"
      if "2 * d \<le> j - i" for d :: nat
    proof -
      have "2 * max 1 (2 * d) \<le> max 1 (2 * (j - i))"
        using that True by (simp add: max_def) linarith
      then have "2 ^ c * (2 * max 1 (2 * d)) \<le> 2 ^ c * max 1 (2 * (j - i))"
        by (intro mult_le_mono) auto
      moreover have "2 ^ Suc c * m = 2 ^ c * (2 * m)" for m :: nat by simp
      ultimately show ?thesis by metis
    qed
    have d1: "2 * (j - Suc h) \<le> j - i" and d2: "2 * (h - i) \<le> j - i"
      using True by (auto simp: h_def)
    show ?thesis
    proof (cases "f h")
      case fh: True
      then have "search_loop f c i j = search_loop f (Suc c) i h"
        using True by (simp add: search_loop.simps [of f c i j] h_def [symmetric] Let_def)
      then show ?thesis
        using order_trans [OF "1.IH"(2) [OF True h_def] bound [OF d2]] fh by simp
    next
      case nfh: False
      then have "search_loop f c i j = search_loop f (Suc c) (Suc h) j"
        using True by (simp add: search_loop.simps [of f c i j] h_def [symmetric] Let_def)
      then show ?thesis
        using order_trans [OF "1.IH"(1) [OF True h_def] bound [OF d1]] nfh by simp
    qed
  next
    case False
    then show ?thesis
      by (subst search_loop.simps) (auto simp: max_def)
  qed
qed

lemma go_search_calls_log: "0 < n \<Longrightarrow> 2 ^ go_search_calls n f \<le> 2 * n"
  using search_loop_calls [of f 0 0 n] by (simp add: go_search_calls_def max_def split: if_splits)

end
