(* ===== verification/Sparse_Index.thy ===== *)
theory Sparse_Index
  imports Amethyst_Prelude
begin

text \<open>
  \<^verbatim>\<open>internal/sparseindex/sparseindex.go\<close>: the index that holds every \<^verbatim>\<open>stride\<close>-th key of a
  segment with the offset of its entry. \<open>None\<close> as a result is a Go panic (an index out of
  range, a division by zero). The lemmas characterise \<open>Seek\<close> on sorted keys as the offset of
  the largest indexed key not above the target, and bound its comparisons.
\<close>

record sparse_index =
  Keys :: "gostring list"
  Offsets :: "int list"

record sparse_builder =
  stride :: int

definition DefaultStride :: int where
  "DefaultStride = 16"

definition NewBuilder :: "int \<Rightarrow> sparse_builder" where
  "NewBuilder n = (if n \<le> 0 then \<lparr>stride = DefaultStride\<rparr> else \<lparr>stride = n\<rparr>)"

text \<open>
  The loop of \<^verbatim>\<open>Build\<close>, from index \<open>i\<close> on; it returns what it appends to the two slices.
  \<open>s\<close> is the number of indices one iteration skips, the stride less one.
\<close>

function build_from :: "nat \<Rightarrow> gostring list \<Rightarrow> int list \<Rightarrow> nat \<Rightarrow> sparse_index option" where
  "build_from s keys offsets i =
     (if i < length keys then
        if i < length offsets then
          (case build_from s keys offsets (i + Suc s) of
             None \<Rightarrow> None
           | Some idx \<Rightarrow>
               Some \<lparr>Keys = keys ! i # Keys idx, Offsets = offsets ! i # Offsets idx\<rparr>)
        else None
      else Some \<lparr>Keys = [], Offsets = []\<rparr>)"
  by pat_completeness auto
termination
  by (relation "measure (\<lambda>(s, keys, offsets, i). length keys - i)") auto

declare build_from.simps [simp del]

text \<open>
  A stride that is not positive panics: zero in the division of the capacity, a negative one
  in that capacity or at the second index. \<open>NewBuilder\<close> never makes such a builder.
\<close>

definition Build :: "sparse_builder \<Rightarrow> gostring list \<Rightarrow> int list \<Rightarrow> sparse_index option" where
  "Build b sortedKeys offsets =
     (if sortedKeys = [] then Some \<lparr>Keys = [], Offsets = []\<rparr>
      else if stride b \<le> 0 then None
      else build_from (nat (stride b) - 1) sortedKeys offsets 0)"

text \<open>
  \<^verbatim>\<open>Seek\<close> returns the offset and how often it called its closure, each call adding one to
  the caller's counter.
\<close>

definition Seek :: "sparse_index \<Rightarrow> gostring \<Rightarrow> (int \<times> nat) option" where
  "Seek idx target =
     (if Keys idx = [] then Some (0, 0)
      else
        let f = (\<lambda>i. target < Keys idx ! i);
            i = go_search (length (Keys idx)) f;
            calls = go_search_calls (length (Keys idx)) f
        in if i = 0 then Some (0, calls)
           else if i - 1 < length (Offsets idx) then Some (Offsets idx ! (i - 1), calls)
           else None)"

section \<open>What Build samples\<close>

text \<open>The indices that are sampled: \<open>i\<close>, \<open>i + stride\<close> and so on below \<open>n\<close>.\<close>

definition samples :: "nat \<Rightarrow> nat \<Rightarrow> nat \<Rightarrow> nat list" where
  "samples d i n = filter (\<lambda>j. i \<le> j \<and> (j - i) mod d = 0) [0..<n]"

lemma samples_step:
  assumes "i < n"
  shows "samples (Suc s) i n = i # samples (Suc s) (i + Suc s) n"
proof -
  have split: "[0..<n] = [0..<i] @ i # [Suc i..<n]"
    using assms by (metis le_add_diff_inverse less_imp_le upt_add_eq_append upt_conv_Cons zero_le add_0)
  have low: "filter (\<lambda>j. a \<le> j \<and> P j) [0..<i] = []" if "i \<le> a" for a P
    using that by (auto simp: filter_empty_conv)
  have "(i \<le> j \<and> (j - i) mod Suc s = 0) = (i + Suc s \<le> j \<and> (j - (i + Suc s)) mod Suc s = 0)"
    if "j \<in> set [Suc i..<n]" for j
  proof (cases "i + Suc s \<le> j")
    case True
    then have "j - i = (j - (i + Suc s)) + Suc s" by simp
    then have "(j - i) mod Suc s = (j - (i + Suc s)) mod Suc s"
      by (metis mod_add_self2)
    then show ?thesis using True by simp
  next
    case False
    with that have "0 < j - i" "j - i < Suc s" by auto
    then show ?thesis using False by simp
  qed
  then have "filter (\<lambda>j. i \<le> j \<and> (j - i) mod Suc s = 0) [Suc i..<n]
    = filter (\<lambda>j. i + Suc s \<le> j \<and> (j - (i + Suc s)) mod Suc s = 0) [Suc i..<n]"
    by (intro filter_cong) auto
  then show ?thesis
    unfolding samples_def split by (simp add: low)
qed

lemma samples_done: "n \<le> i \<Longrightarrow> samples d i n = []"
  by (auto simp: samples_def filter_empty_conv)

lemma build_from_samples:
  "length offsets = length keys \<Longrightarrow>
   build_from s keys offsets i =
     Some \<lparr>Keys = map (nth keys) (samples (Suc s) i (length keys)),
           Offsets = map (nth offsets) (samples (Suc s) i (length keys))\<rparr>"
proof (induction s keys offsets i rule: build_from.induct)
  case (1 s keys offsets i)
  show ?case
  proof (cases "i < length keys")
    case True
    then show ?thesis
      using 1 by (subst build_from.simps) (simp add: samples_step)
  next
    case False
    then show ?thesis
      by (subst build_from.simps) (simp add: samples_done)
  qed
qed

definition sampled :: "sparse_builder \<Rightarrow> nat \<Rightarrow> nat list" where
  "sampled b n = samples (nat (stride b)) 0 n"

lemma Build_samples:
  assumes "0 < stride b" "length offsets = length keys"
  shows "Build b keys offsets =
    Some \<lparr>Keys = map (nth keys) (sampled b (length keys)),
          Offsets = map (nth offsets) (sampled b (length keys))\<rparr>"
proof -
  have "Suc (nat (stride b) - 1) = nat (stride b)" using assms(1) by simp
  then show ?thesis
    using assms build_from_samples [of offsets keys "nat (stride b) - 1" 0]
    by (auto simp: Build_def sampled_def samples_done)
qed

lemma sampled_sorted: "sorted_wrt (<) (sampled b n)"
  by (simp add: sampled_def samples_def sorted_wrt_filter)

lemma sampled_less: "j \<in> set (sampled b n) \<Longrightarrow> j < n"
  by (simp add: sampled_def samples_def)

lemma sampled_hd: "0 < n \<Longrightarrow> 0 < stride b \<Longrightarrow> sampled b n = 0 # tl (sampled b n)"
proof -
  assume "0 < n" "0 < stride b"
  moreover from this have "Suc (nat (stride b) - 1) = nat (stride b)" by simp
  ultimately show ?thesis
    using samples_step [of 0 n "nat (stride b) - 1"] by (simp add: sampled_def)
qed

lemma NewBuilder_stride: "0 < stride (NewBuilder n)"
  by (simp add: NewBuilder_def DefaultStride_def)

section \<open>What Seek finds\<close>

lemma Seek_search_pred:
  "sorted_wrt (<) ks \<Longrightarrow> search_pred (length ks) (\<lambda>i. (target::gostring) < ks ! i)"
  unfolding search_pred_def
  by (metis le_neq_implies_less less_trans sorted_wrt_nth_less)

lemma Seek_spec:
  assumes "sorted_wrt (<) (Keys idx)" "length (Offsets idx) = length (Keys idx)"
  obtains (below) c where "Seek idx target = Some (0, c)" "\<And>k. k \<in> set (Keys idx) \<Longrightarrow> target < k"
  | (at) c j where "Seek idx target = Some (Offsets idx ! j, c)" "j < length (Keys idx)"
      "Keys idx ! j \<le> target" "\<And>i. j < i \<Longrightarrow> i < length (Keys idx) \<Longrightarrow> target < Keys idx ! i"
proof -
  let ?f = "\<lambda>i. target < Keys idx ! i"
  let ?r = "go_search (length (Keys idx)) ?f"
  note spec = go_search_spec [OF Seek_search_pred [OF assms(1), of target]]
  show thesis
  proof (cases "?r = 0")
    case True
    then have "\<And>k. k \<in> set (Keys idx) \<Longrightarrow> target < k"
      using spec(3) by (metis in_set_conv_nth le0)
    moreover have "\<exists>c. Seek idx target = Some (0, c)"
      using True by (simp add: Seek_def Let_def)
    ultimately show thesis using below by blast
  next
    case False
    then have lt: "?r - 1 < length (Keys idx)" and ne: "Keys idx \<noteq> []"
      using spec(1) by auto
    have "\<exists>c. Seek idx target = Some (Offsets idx ! (?r - 1), c)"
      using False lt ne assms(2) by (simp add: Seek_def Let_def)
    moreover have "Keys idx ! (?r - 1) \<le> target"
      using spec(2) [of "?r - 1"] False by (simp add: not_less)
    moreover have "target < Keys idx ! i" if "?r - 1 < i" "i < length (Keys idx)" for i
      using spec(3) [of i] that False by simp
    ultimately show thesis using at lt by blast
  qed
qed

lemma Seek_calls: "Seek idx target = Some (o', c) \<Longrightarrow> Keys idx \<noteq> [] \<Longrightarrow> 2 ^ c \<le> 2 * length (Keys idx)"
  using go_search_calls_log [of "length (Keys idx)"]
  by (auto simp: Seek_def Let_def split: if_splits)

text \<open>
  Built and searched: the block that \<open>Seek\<close> returns starts at or before the target and is the last
  such block.
\<close>

lemma Seek_floor:
  assumes "0 < stride b" "keys \<noteq> []" "sorted_wrt (<) keys" "length offsets = length keys"
  shows "\<exists>idx off c. Build b keys offsets = Some idx \<and> Seek idx target = Some (off, c) \<and>
    2 ^ c \<le> 2 * length (Keys idx) \<and>
    (target < keys ! 0 \<and> off = 0 \<or>
     (\<exists>p < length keys. off = offsets ! p \<and> keys ! p \<le> target \<and>
        (\<forall>q < length keys. p + nat (stride b) \<le> q \<longrightarrow> target < keys ! q)))"
proof -
  let ?n = "length keys" and ?s = "sampled b (length keys)"
  define idx where "idx = \<lparr>Keys = map (nth keys) ?s, Offsets = map (nth offsets) ?s\<rparr>"
  have build: "Build b keys offsets = Some idx" using Build_samples [OF assms(1,4)] by (simp add: idx_def)
  have hd: "?s = 0 # tl ?s" using assms(1,2) by (intro sampled_hd) auto
  have ne: "Keys idx \<noteq> []" using hd by (auto simp: idx_def)
  have less: "i < j \<Longrightarrow> j < ?n \<Longrightarrow> keys ! i < keys ! j" for i j
    using assms(3) by (simp add: sorted_wrt_nth_less)
  have sorted: "sorted_wrt (<) (Keys idx)"
    using sampled_sorted [of b ?n] by (auto simp: idx_def sorted_wrt_map sampled_less less
        elim!: sorted_wrt_mono_rel [rotated])
  from sorted show ?thesis
  proof (rule Seek_spec [of idx target])
    show "length (Offsets idx) = length (Keys idx)" by (simp add: idx_def)
  next
    fix c assume c: "Seek idx target = Some (0, c)" "\<And>k. k \<in> set (Keys idx) \<Longrightarrow> target < k"
    have "0 \<in> set ?s" using hd by (metis list.set_intros(1))
    then have "target < keys ! 0" using c(2) by (simp add: idx_def)
    then show ?thesis using build c(1) Seek_calls [OF c(1) ne] by blast
  next
    fix c j
    assume c: "Seek idx target = Some (Offsets idx ! j, c)" and j: "j < length (Keys idx)"
      and le: "Keys idx ! j \<le> target"
      and gt: "\<And>i. j < i \<Longrightarrow> i < length (Keys idx) \<Longrightarrow> target < Keys idx ! i"
    let ?p = "?s ! j"
    have p: "?p \<in> set ?s" using j by (simp add: idx_def)
    then have p: "?p \<in> set ?s" "?p < ?n" using sampled_less by blast+
    have far: "target < keys ! q" if q: "q < ?n" "?p + nat (stride b) \<le> q" for q
    proof -
      let ?p' = "?p + nat (stride b)"
      have "?p' \<in> set ?s" using p q by (auto simp: sampled_def samples_def)
      then obtain i where i: "i < length ?s" "?s ! i = ?p'" by (auto simp: in_set_conv_nth)
      have "\<not> i \<le> j"
        using i sorted_wrt_nth_less [OF sampled_sorted, of i j b ?n] assms(1) j
        by (cases "i = j") (auto simp: idx_def)
      then have "target < keys ! ?p'" using gt [of i] i by (simp add: idx_def)
      then show ?thesis using less [of ?p' q] q by (cases "q = ?p'") auto
    qed
    have "Offsets idx ! j = offsets ! ?p" "keys ! ?p \<le> target" using j le by (simp_all add: idx_def)
    then show ?thesis using build c Seek_calls [OF c ne] p(2) far by metis
  qed
qed

section \<open>Properties\<close>

text \<open>C16: For keys in increasing order, building the index and seeking in it never fails, and
  finds the offset of a sampled key that is not above the target and from which the target is
  less than one stride away; a target below every key gets offset 0. The binary search
  compares at most logarithmically often in the number of samples.\<close>

theorem seek_finds_floor:
  assumes "0 < stride b" "keys \<noteq> []" "sorted_wrt (<) keys" "length offsets = length keys"
  shows "\<exists>idx off c. Build b keys offsets = Some idx \<and> Seek idx target = Some (off, c) \<and>
    2 ^ c \<le> 2 * length (Keys idx) \<and>
    (target < keys ! 0 \<and> off = 0 \<or>
     (\<exists>p < length keys. off = offsets ! p \<and> keys ! p \<le> target \<and>
        (\<forall>q < length keys. p + nat (stride b) \<le> q \<longrightarrow> target < keys ! q)))"
  by (rule Seek_floor [OF assms])

lemma seek_finds_floor_witness:
  "\<exists>idx off c. Build (NewBuilder 2) [[1], [3], [5], [7]] [0, 11, 22, 33] = Some idx \<and>
    Seek idx [6] = Some (off, c) \<and> 2 ^ c \<le> 2 * length (Keys idx)"
proof -
  have "sorted_wrt (<) ([[1], [3], [5], [7]] :: gostring list)" by simp
  then show ?thesis
    using seek_finds_floor [of "NewBuilder 2" "[[1], [3], [5], [7]]" "[0, 11, 22, 33]" "[6]"]
    by (auto simp: NewBuilder_stride)
qed

end
