(* ===== verification/Common_Types.thy ===== *)
theory Common_Types
  imports Sparse_Index
begin

text \<open>
  \<^verbatim>\<open>internal/common/types.go\<close>: the compaction strategy, the metadata of a segment with its
  accessors, and the entries of the log and of the memtable. The accessors take a lock or an
  atomic instruction each; every one of them is a single step, so here each is a function on
  the record. Counters are \<^verbatim>\<open>int64\<close> and wrap.
\<close>

datatype CompactionType = TIERED | LEVELED

record segment_meta =
  ID :: gostring
  Level :: int
  Offset :: int
  Length :: int
  MinKey :: gostring
  MaxKey :: gostring
  Strategy :: CompactionType
  readCount :: int
  writeCount :: int
  OverlapCount :: int
  TotalComparisons :: int
  CreatedAt :: int
  lastRewriteAt :: int
  obsolete :: bool
  InCompaction :: bool
  SparseIndex :: "sparse_index option"
  DataStartOffset :: int
  SparseIndexOffset :: int

definition IncrementReads :: "segment_meta \<Rightarrow> segment_meta" where
  "IncrementReads s = s\<lparr>readCount := i64 (readCount s + 1)\<rparr>"

definition IncrementWrites :: "segment_meta \<Rightarrow> segment_meta" where
  "IncrementWrites s = s\<lparr>writeCount := i64 (writeCount s + 1)\<rparr>"

definition AddReads :: "int \<Rightarrow> segment_meta \<Rightarrow> segment_meta" where
  "AddReads n s = s\<lparr>readCount := i64 (readCount s + n)\<rparr>"

definition AddWrites :: "int \<Rightarrow> segment_meta \<Rightarrow> segment_meta" where
  "AddWrites n s = s\<lparr>writeCount := i64 (writeCount s + n)\<rparr>"

definition GetReadCount :: "segment_meta \<Rightarrow> int" where
  "GetReadCount s = readCount s"

definition GetWriteCount :: "segment_meta \<Rightarrow> int" where
  "GetWriteCount s = writeCount s"

definition MarkObsolete :: "segment_meta \<Rightarrow> segment_meta" where
  "MarkObsolete s = s\<lparr>obsolete := True\<rparr>"

definition IsObsolete :: "segment_meta \<Rightarrow> bool" where
  "IsObsolete s = obsolete s"

definition Size :: "segment_meta \<Rightarrow> int" where
  "Size s = Length s"

definition CooldownExpired :: "segment_meta \<Rightarrow> int \<Rightarrow> int \<Rightarrow> bool" where
  "CooldownExpired s now minInterval \<longleftrightarrow> minInterval \<le> i64 (now - lastRewriteAt s)"

definition UpdateLastRewriteAt :: "int \<Rightarrow> segment_meta \<Rightarrow> segment_meta" where
  "UpdateLastRewriteAt timestamp s = s\<lparr>lastRewriteAt := timestamp\<rparr>"

lemmas accessor_defs = IncrementReads_def IncrementWrites_def AddReads_def AddWrites_def
  GetReadCount_def GetWriteCount_def MarkObsolete_def IsObsolete_def Size_def
  UpdateLastRewriteAt_def

record wal_entry =
  wKey :: gostring
  wValue :: slice
  wTombstone :: bool

record kv_entry =
  Key :: gostring
  Value :: slice
  Tombstone :: bool

text \<open>The zero value of \<^verbatim>\<open>KVEntry\<close>.\<close>

definition zero_entry :: kv_entry where
  "zero_entry = \<lparr>Key = [], Value = None, Tombstone = False\<rparr>"

definition live_entry :: "gostring \<Rightarrow> slice \<Rightarrow> kv_entry" where
  "live_entry k v = \<lparr>Key = k, Value = v, Tombstone = False\<rparr>"

definition dead_entry :: "gostring \<Rightarrow> kv_entry" where
  "dead_entry k = \<lparr>Key = k, Value = None, Tombstone = True\<rparr>"

lemma entry_simps [simp]:
  "Key (live_entry k v) = k" "Value (live_entry k v) = v" "\<not> Tombstone (live_entry k v)"
  "Key (dead_entry k) = k" "Value (dead_entry k) = None" "Tombstone (dead_entry k)"
  by (simp_all add: live_entry_def dead_entry_def)

section \<open>Sorted runs of entries\<close>

text \<open>
  The memtable, a segment and the output of a compaction are lists of entries in strictly
  increasing key order. As a map, such a run sends a key to its entry.
\<close>

definition sorted_run :: "kv_entry list \<Rightarrow> bool" where
  "sorted_run es \<longleftrightarrow> sorted_wrt (<) (map Key es)"

definition run_map :: "kv_entry list \<Rightarrow> gostring \<rightharpoonup> kv_entry" where
  "run_map es = map_of (map (\<lambda>e. (Key e, e)) es)"

lemma sorted_run_Nil [simp]: "sorted_run []"
  by (simp add: sorted_run_def)

lemma sorted_run_Cons [simp]:
  "sorted_run (e # es) \<longleftrightarrow> (\<forall>e' \<in> set es. Key e < Key e') \<and> sorted_run es"
  by (auto simp: sorted_run_def)

lemma sorted_run_append [simp]:
  "sorted_run (xs @ ys) \<longleftrightarrow>
     sorted_run xs \<and> sorted_run ys \<and> (\<forall>x \<in> set xs. \<forall>y \<in> set ys. Key x < Key y)"
  by (auto simp: sorted_run_def sorted_wrt_append)

lemma run_map_Nil [simp]: "run_map [] = Map.empty"
  by (simp add: run_map_def)

lemma run_map_Cons [simp]: "run_map (e # es) = (run_map es)(Key e \<mapsto> e)"
  by (simp add: run_map_def)

lemma run_map_append: "run_map (xs @ ys) = run_map ys ++ run_map xs"
  by (simp add: run_map_def)

lemma run_map_SomeD: "run_map es k = Some e \<Longrightarrow> e \<in> set es \<and> Key e = k"
  by (induction es) (auto split: if_splits)

lemma run_map_None_iff: "run_map es k = None \<longleftrightarrow> (\<forall>e \<in> set es. Key e \<noteq> k)"
  by (induction es) auto

lemma run_map_mem: "sorted_run es \<Longrightarrow> e \<in> set es \<Longrightarrow> run_map es (Key e) = Some e"
  by (induction es) auto

lemma dom_run_map: "dom (run_map es) = Key ` set es"
  by (simp add: run_map_def dom_map_of_conv_image_fst image_image)

text \<open>A run is determined by its map.\<close>

lemma sorted_run_inject:
  assumes "sorted_run xs" "sorted_run ys" "run_map xs = run_map ys"
  shows "xs = ys"
proof -
  have keys: "map Key xs = map Key ys"
  proof (rule strict_sorted_equal)
    show "sorted_wrt (<) (map Key ys)" "sorted_wrt (<) (map Key xs)"
      using assms(1,2) by (simp_all add: sorted_run_def)
    show "set (map Key xs) = set (map Key ys)"
      using assms(3) dom_run_map by (metis list.set_map)
  qed
  show ?thesis
  proof (rule nth_equalityI)
    show len: "length xs = length ys" using arg_cong [OF keys, of length] by simp
    fix i assume i: "i < length xs"
    then have "Key (xs ! i) = Key (ys ! i)" using arg_cong [OF keys, of "\<lambda>l. l ! i"] len by simp
    moreover have "run_map xs (Key (xs ! i)) = Some (xs ! i)" "run_map ys (Key (ys ! i)) = Some (ys ! i)"
      by (rule run_map_mem, use i len assms(1,2) in simp_all)+
    ultimately show "xs ! i = ys ! i" unfolding assms(3) by (metis option.inject)
  qed
qed

section \<open>The frame of an entry on disk\<close>

text \<open>
  The log and the segments write an entry the same way: key length, value length, a tombstone
  byte, the key and the value. The lengths are cut to 32 bits.
\<close>

definition frame_header :: "gostring \<Rightarrow> slice \<Rightarrow> bool \<Rightarrow> byte list" where
  "frame_header key value tomb =
     put_u32 (u32_len key) @ put_u32 (u32_len (slice_bytes value)) @ [if tomb then 1 else 0]"

definition frame :: "gostring \<Rightarrow> slice \<Rightarrow> bool \<Rightarrow> byte list" where
  "frame key value tomb = frame_header key value tomb @ key @ slice_bytes value"

definition frame_fits :: "gostring \<Rightarrow> slice \<Rightarrow> bool" where
  "frame_fits key value \<longleftrightarrow> length key < 2 ^ 32 \<and> length (slice_bytes value) < 2 ^ 32"

lemma frame_header_length [simp, codec_simps]: "length (frame_header k v t) = 9"
  by (simp add: frame_header_def)

lemma frame_length [codec_simps]: "length (frame k v t) = 9 + length k + length (slice_bytes v)"
  by (simp add: frame_def)

lemma frame_not_Nil [simp]: "frame k v t \<noteq> []"
  using frame_length [of k v t] by auto

text \<open>Reading the three fields of a header back.\<close>

lemma frame_header_fields [codec_simps]:
  "get_u32 (take 4 (frame_header k v t)) = u32_len k"
  "get_u32 (take 4 (drop 4 (frame_header k v t))) = u32_len (slice_bytes v)"
  "frame_header k v t ! 8 = (if t then 1 else 0)"
  by (simp_all add: frame_header_def nth_append)

end
