(* ===== verification/Os_File.thy ===== *)
theory Os_File
  imports Amethyst_Prelude
begin

text \<open>
  What the program uses of \<^verbatim>\<open>os.File\<close> and \<^verbatim>\<open>io.ReadFull\<close>: a file opened with
  \<^verbatim>\<open>O_APPEND\<close> has contents and a position; a write goes to the end; every call can fail, and
  a failed write can have transferred a prefix of its bytes. The outcomes of the calls are
  arguments of the operations that make them.
\<close>

datatype io_error = EIO | EOF | ErrUnexpectedEOF | ErrInvalid | ErrClosed

datatype outcome = Done | Fault nat

record os_file =
  content :: "byte list"
  fpos :: nat

definition empty_file :: os_file where
  "empty_file = \<lparr>content = [], fpos = 0\<rparr>"

fun file_write :: "outcome \<Rightarrow> byte list \<Rightarrow> os_file \<Rightarrow> io_error option \<times> os_file" where
  "file_write Done bs f =
     (None, f\<lparr>content := content f @ bs, fpos := length (content f) + length bs\<rparr>)"
| "file_write (Fault n) bs f =
     (Some EIO, f\<lparr>content := content f @ take n bs,
                  fpos := length (content f) + length (take n bs)\<rparr>)"

fun file_rewind :: "outcome \<Rightarrow> os_file \<Rightarrow> io_error option \<times> os_file" where
  "file_rewind Done f = (None, f\<lparr>fpos := 0\<rparr>)"
| "file_rewind (Fault _) f = (Some EIO, f)"

fun file_truncate0 :: "outcome \<Rightarrow> os_file \<Rightarrow> io_error option \<times> os_file" where
  "file_truncate0 Done f = (None, f\<lparr>content := []\<rparr>)"
| "file_truncate0 (Fault _) f = (Some EIO, f)"

text \<open>
  \<^verbatim>\<open>io.ReadFull(f, buf)\<close> with a buffer of \<open>n\<close> bytes: nothing is read for an empty buffer;
  \<^verbatim>\<open>EOF\<close> means no byte was left, \<^verbatim>\<open>ErrUnexpectedEOF\<close> that some but not enough were.
  \<open>bad\<close> says at which positions the device fails to read.
\<close>

definition read_full ::
  "(nat \<Rightarrow> bool) \<Rightarrow> nat \<Rightarrow> os_file \<Rightarrow> (io_error + byte list) \<times> os_file" where
  "read_full bad n f =
     (if n = 0 then (Inr [], f)
      else if bad (fpos f) then (Inl EIO, f)
      else let got = take n (drop (fpos f) (content f));
               f' = f\<lparr>fpos := fpos f + length got\<rparr>
           in if got = [] then (Inl EOF, f')
              else if length got < n then (Inl ErrUnexpectedEOF, f')
              else (Inr got, f'))"

lemma read_full_zero [simp]: "read_full bad 0 f = (Inr [], f)"
  by (simp add: read_full_def)

lemma read_full_content: "content (snd (read_full bad n f)) = content f"
  by (simp add: read_full_def Let_def)

lemma read_full_ok:
  assumes "read_full bad n f = (Inr bs, f')"
  shows "length bs = n" "content f' = content f" "fpos f' = fpos f + n"
    "0 < n \<Longrightarrow> fpos f' \<le> length (content f)"
  using assms by (auto simp: read_full_def Let_def split: if_splits)

text \<open>A device on which every position can be read.\<close>

definition no_fault :: "nat \<Rightarrow> bool" where
  "no_fault p \<longleftrightarrow> False"

text \<open>Reading back a known next chunk.\<close>

lemma read_full_chunk:
  assumes "drop (fpos f) (content f) = bs @ rest" "length bs = n"
  shows "read_full no_fault n f = (Inr bs, f\<lparr>fpos := fpos f + n\<rparr>)"
  using assms by (cases "n = 0") (auto simp: read_full_def no_fault_def Let_def)

lemma read_full_eof:
  "length (content f) \<le> fpos f \<Longrightarrow> 0 < n \<Longrightarrow> read_full no_fault n f = (Inl EOF, f)"
  by (simp add: read_full_def no_fault_def)

lemma read_full_short:
  assumes "drop (fpos f) (content f) = bs" "length bs < n"
  shows "fst (read_full no_fault n f) = Inl (if bs = [] then EOF else ErrUnexpectedEOF)"
  using assms by (auto simp: read_full_def no_fault_def Let_def)

end
