(* ===== verification/Memtable.thy ===== *)
theory Memtable
  imports Common_Types
begin

text \<open>
  \<^verbatim>\<open>internal/memtable/memtable.go\<close>: the sorted buffer. The mutex makes every method one step.
  The locale \<open>kv_buffer\<close> is the interface \<^verbatim>\<open>Memtable\<close> with the laws its clients rely on; the
  interpretation at the end shows that the sorted slice with binary search has them.
\<close>

record memtable =
  data :: "kv_entry list"
  maxEntries :: int

definition NewMemtable :: "int \<Rightarrow> memtable" where
  "NewMemtable n = \<lparr>data = [], maxEntries = n\<rparr>"

text \<open>The index that the binary search of each method finds.\<close>

definition find_slot :: "memtable \<Rightarrow> gostring \<Rightarrow> nat" where
  "find_slot m key = go_search (length (data m)) (\<lambda>i. key \<le> Key (data m ! i))"

definition Put :: "gostring \<Rightarrow> slice \<Rightarrow> memtable \<Rightarrow> memtable" where
  "Put key value m =
     (let i = find_slot m key;
          e = \<lparr>Key = key, Value = value, Tombstone = False\<rparr>
      in if i < length (data m) \<and> Key (data m ! i) = key
         then m\<lparr>data := (data m)[i := e]\<rparr>
         else m\<lparr>data := (copy_within (Suc i) i (data m @ [zero_entry]))[i := e]\<rparr>)"

definition Delete :: "gostring \<Rightarrow> memtable \<Rightarrow> memtable" where
  "Delete key m =
     (let i = find_slot m key;
          e = \<lparr>Key = key, Value = None, Tombstone = True\<rparr>
      in if i < length (data m) \<and> Key (data m ! i) = key
         then m\<lparr>data := (data m)[i := e]\<rparr>
         else m\<lparr>data := (copy_within (Suc i) i (data m @ [zero_entry]))[i := e]\<rparr>)"

definition Get :: "gostring \<Rightarrow> memtable \<Rightarrow> slice \<times> bool" where
  "Get key m =
     (let i = find_slot m key
      in if i < length (data m) \<and> Key (data m ! i) = key \<and> \<not> Tombstone (data m ! i)
         then (Value (data m ! i), True)
         else (None, False))"

definition ShouldFlush :: "memtable \<Rightarrow> bool" where
  "ShouldFlush m \<longleftrightarrow> maxEntries m \<le> int (length (data m))"

text \<open>A nil result and an empty one have the same length, so both are the empty list.\<close>

definition Flush :: "memtable \<Rightarrow> kv_entry list \<times> memtable" where
  "Flush m = (if data m = [] then ([], m) else (data m, m\<lparr>data := []\<rparr>))"

section \<open>The sorted slice\<close>

definition mem_inv :: "memtable \<Rightarrow> bool" where
  "mem_inv m \<longleftrightarrow> sorted_run (data m)"

definition mem_map :: "memtable \<Rightarrow> gostring \<rightharpoonup> kv_entry" where
  "mem_map m = run_map (data m)"

lemma find_slot_split:
  assumes "mem_inv m" "i = find_slot m key"
  shows "i \<le> length (data m)" "\<forall>e \<in> set (take i (data m)). Key e < key"
    "\<forall>e \<in> set (drop i (data m)). key \<le> Key e"
proof -
  have "search_pred (length (data m)) (\<lambda>i. key \<le> Key (data m ! i))"
    unfolding search_pred_def
  proof (intro allI impI)
    fix a b assume "a \<le> b" "b < length (data m)" "key \<le> Key (data m ! a)"
    moreover have "Key (data m ! a) \<le> Key (data m ! b)"
      using assms(1) \<open>a \<le> b\<close> \<open>b < length (data m)\<close> sorted_wrt_nth_less [of "(<)" "map Key (data m)" a b]
      by (cases "a = b") (auto simp: mem_inv_def sorted_run_def)
    ultimately show "key \<le> Key (data m ! b)" by simp
  qed
  note spec = go_search_spec [OF this, folded find_slot_def, folded assms(2)]
  show "i \<le> length (data m)" by (rule spec(1))
  show "\<forall>e \<in> set (take i (data m)). Key e < key"
    using spec(1,2) by (force simp: in_set_conv_nth)
  show "\<forall>e \<in> set (drop i (data m)). key \<le> Key e"
    using spec(3) by (auto simp: in_set_conv_nth)
qed

text \<open>Both writing methods replace or insert one entry at the slot.\<close>

definition stored :: "gostring \<Rightarrow> kv_entry \<Rightarrow> kv_entry list \<Rightarrow> kv_entry list" where
  "stored key e es = filter (\<lambda>x. Key x < key) es @ e # filter (\<lambda>x. key < Key x) es"

lemma slot_update:
  assumes "mem_inv m" "i = find_slot m key"
  shows "(if i < length (data m) \<and> Key (data m ! i) = key then (data m)[i := e]
          else (copy_within (Suc i) i (data m @ [zero_entry]))[i := e]) = stored key e (data m)"
proof -
  note split = find_slot_split [OF assms]
  have ord: "sorted_run (take i (data m) @ drop i (data m))"
    using assms(1) by (simp add: mem_inv_def)
  have lo: "filter (\<lambda>x. Key x < key) (data m) = take i (data m)"
    using split(2,3) by (subst append_take_drop_id [of i, symmetric], subst filter_append)
      (auto simp: filter_id_conv filter_empty_conv not_less)
  have lo': "filter (\<lambda>x. key < Key x) (take i (data m)) = []"
    using split(2) by (auto simp: filter_empty_conv)
  have hi: "filter (\<lambda>x. key < Key x) (data m) = filter (\<lambda>x. key < Key x) (drop i (data m))"
    using lo' by (subst append_take_drop_id [of i, symmetric], subst filter_append) simp
  show ?thesis
  proof (cases "i < length (data m) \<and> Key (data m ! i) = key")
    case True
    then have d: "drop i (data m) = data m ! i # drop (Suc i) (data m)"
      by (simp add: Cons_nth_drop_Suc)
    have "filter (\<lambda>x. key < Key x) (drop i (data m)) = drop (Suc i) (data m)"
      using ord True unfolding d by (auto simp: filter_id_conv)
    then show ?thesis
      using True by (simp add: stored_def lo hi upd_conv_take_nth_drop)
  next
    case False
    have "key < Key x" if "x \<in> set (drop i (data m))" for x
    proof (cases "i < length (data m)")
      case True
      then have d: "drop i (data m) = data m ! i # drop (Suc i) (data m)"
        by (simp add: Cons_nth_drop_Suc)
      have "key \<le> Key (data m ! i)" using split(3) unfolding d by simp
      then have "key < Key (data m ! i)" using False True by (simp add: less_le)
      with ord that show ?thesis unfolding d by (auto intro: less_trans)
    qed (use that in simp)
    then have "filter (\<lambda>x. key < Key x) (drop i (data m)) = drop i (data m)"
      by (simp add: filter_id_conv)
    then show ?thesis
      unfolding if_not_P [OF False] using split(1) by (simp add: stored_def lo hi shift_insert)
  qed
qed

lemma data_Put: "mem_inv m \<Longrightarrow> Put key v m = m\<lparr>data := stored key (live_entry key v) (data m)\<rparr>"
  using slot_update [OF _ refl, of m key "live_entry key v"]
  by (simp add: Put_def Let_def live_entry_def if_distrib [of "\<lambda>d. m\<lparr>data := d\<rparr>", symmetric] cong: if_cong)

lemma data_Delete: "mem_inv m \<Longrightarrow> Delete key m = m\<lparr>data := stored key (dead_entry key) (data m)\<rparr>"
  using slot_update [OF _ refl, of m key "dead_entry key"]
  by (simp add: Delete_def Let_def dead_entry_def if_distrib [of "\<lambda>d. m\<lparr>data := d\<rparr>", symmetric] cong: if_cong)

lemma sorted_run_filter [simp]: "sorted_run es \<Longrightarrow> sorted_run (filter P es)"
  by (induction es) auto

lemma stored_sorted: "sorted_run es \<Longrightarrow> Key e = key \<Longrightarrow> sorted_run (stored key e es)"
  by (auto simp: stored_def intro: less_trans)

lemma run_map_filter_key:
  "run_map (filter (\<lambda>e. Key e < key) es) k = (if k < key then run_map es k else None)"
  "run_map (filter (\<lambda>e. key < Key e) es) k = (if key < k then run_map es k else None)"
  by (induction es) auto

lemma run_map_stored: "Key e = key \<Longrightarrow> run_map (stored key e es) = (run_map es)(key \<mapsto> e)"
  by (rule ext)
    (auto simp: stored_def run_map_append map_add_def run_map_filter_key split: option.splits)

lemma length_stored:
  assumes "sorted_run es"
  shows "length (stored key e es) = (if run_map es key = None then Suc (length es) else length es)"
  using assms
proof (induction es)
  case (Cons x xs)
  have none: "run_map xs key = None" if "key < Key x \<or> key = Key x"
    using Cons.prems that by (auto simp: run_map_None_iff)
  have all: "filter (\<lambda>y. key < Key y) xs = xs" "filter (\<lambda>y. Key y < key) xs = []"
    if "key < Key x \<or> key = Key x"
    using Cons.prems that by (auto simp: filter_id_conv filter_empty_conv)
  consider "Key x < key" | "key < Key x \<or> key = Key x" by fastforce
  then show ?case
  proof cases
    case 1
    then have "\<not> key < Key x" "Key x \<noteq> key" by auto
    with 1 Cons show ?thesis by (simp add: stored_def split: if_splits)
  next
    case 2
    then show ?thesis using none all by (auto simp: stored_def)
  qed
qed (simp add: stored_def)

lemma Get_run_map:
  assumes "mem_inv m"
  shows "Get key m =
    (case mem_map m key of Some e \<Rightarrow> if Tombstone e then (None, False) else (Value e, True)
     | None \<Rightarrow> (None, False))"
proof -
  let ?i = "find_slot m key"
  note split = find_slot_split [OF assms refl]
  show ?thesis
  proof (cases "?i < length (data m) \<and> Key (data m ! ?i) = key")
    case True
    then have "mem_map m key = Some (data m ! ?i)"
      using run_map_mem [of "data m" "data m ! ?i"] assms by (simp add: mem_map_def mem_inv_def)
    then show ?thesis using True by (simp add: Get_def Let_def)
  next
    case False
    have "Key e \<noteq> key" if "e \<in> set (data m)" for e
    proof -
      from that have "e \<in> set (take ?i (data m)) \<or> e \<in> set (drop ?i (data m))"
        by (metis Un_iff append_take_drop_id set_append)
      then show ?thesis
      proof
        assume e: "e \<in> set (drop ?i (data m))"
        then have lt: "?i < length (data m)" by (metis drop_all empty_iff leI list.set(1))
        then have d: "drop ?i (data m) = data m ! ?i # drop (Suc ?i) (data m)"
          by (simp add: Cons_nth_drop_Suc)
        have ord: "sorted_run (take ?i (data m) @ drop ?i (data m))"
          using assms by (simp add: mem_inv_def)
        have "key \<le> Key (data m ! ?i)" using split(3) d by simp
        then show ?thesis using e False lt ord unfolding d by auto
      qed (use split(2) in auto)
    qed
    then have "mem_map m key = None" by (simp add: mem_map_def run_map_None_iff)
    then show ?thesis using False by (auto simp: Get_def Let_def)
  qed
qed

section \<open>The interface and its clients\<close>

datatype mem_op = OpPut gostring slice | OpDelete gostring

fun op_key :: "mem_op \<Rightarrow> gostring" where
  "op_key (OpPut k v) = k"
| "op_key (OpDelete k) = k"

fun op_entry :: "mem_op \<Rightarrow> kv_entry" where
  "op_entry (OpPut k v) = live_entry k v"
| "op_entry (OpDelete k) = dead_entry k"

fun perform ::
  "(gostring \<Rightarrow> slice \<Rightarrow> 'm \<Rightarrow> 'm) \<Rightarrow> (gostring \<Rightarrow> 'm \<Rightarrow> 'm) \<Rightarrow> mem_op \<Rightarrow> 'm \<Rightarrow> 'm" where
  "perform put del (OpPut k v) m = put k v m"
| "perform put del (OpDelete k) m = del k m"

text \<open>The specification of a run: each operation overwrites its key.\<close>

definition spec_ops :: "mem_op list \<Rightarrow> (gostring \<rightharpoonup> kv_entry) \<Rightarrow> gostring \<rightharpoonup> kv_entry" where
  "spec_ops ops mp = fold (\<lambda>x f. f(op_key x \<mapsto> op_entry x)) ops mp"

lemma spec_ops_simps [simp]:
  "spec_ops [] mp = mp"
  "spec_ops (x # ops) mp = spec_ops ops (mp(op_key x \<mapsto> op_entry x))"
  by (simp_all add: spec_ops_def)

lemma spec_ops_append: "spec_ops (xs @ ys) mp = spec_ops ys (spec_ops xs mp)"
  by (simp add: spec_ops_def)

lemma spec_ops_untouched: "\<forall>x \<in> set ops. op_key x \<noteq> k \<Longrightarrow> spec_ops ops mp k = mp k"
  by (induction ops arbitrary: mp) auto

lemma op_key_entry [simp]: "Key (op_entry x) = op_key x"
  by (cases x) auto

locale kv_buffer =
  fixes inv :: "'m \<Rightarrow> bool"
    and view :: "'m \<Rightarrow> gostring \<rightharpoonup> kv_entry"
    and put :: "gostring \<Rightarrow> slice \<Rightarrow> 'm \<Rightarrow> 'm"
    and del :: "gostring \<Rightarrow> 'm \<Rightarrow> 'm"
    and get :: "gostring \<Rightarrow> 'm \<Rightarrow> slice \<times> bool"
    and flush :: "'m \<Rightarrow> kv_entry list \<times> 'm"
  assumes put_inv: "inv m \<Longrightarrow> inv (put k v m)"
    and del_inv: "inv m \<Longrightarrow> inv (del k m)"
    and put_view: "inv m \<Longrightarrow> view (put k v m) = (view m)(k \<mapsto> live_entry k v)"
    and del_view: "inv m \<Longrightarrow> view (del k m) = (view m)(k \<mapsto> dead_entry k)"
    and get_view: "inv m \<Longrightarrow> get k m =
      (case view m k of Some e \<Rightarrow> if Tombstone e then (None, False) else (Value e, True)
       | None \<Rightarrow> (None, False))"
    and flush_view: "inv m \<Longrightarrow> flush m = (es, m') \<Longrightarrow>
      inv m' \<and> view m' = Map.empty \<and> sorted_run es \<and> run_map es = view m"
begin

lemma run_view:
  "inv m \<Longrightarrow> inv (fold (perform put del) ops m) \<and>
             view (fold (perform put del) ops m) = spec_ops ops (view m)"
proof (induction ops arbitrary: m)
  case (Cons x ops)
  have "inv (perform put del x m) \<and> view (perform put del x m) = (view m)(op_key x \<mapsto> op_entry x)"
    using Cons.prems by (cases x) (simp_all add: put_inv del_inv put_view del_view)
  then show ?case
    using Cons.IH [of "perform put del x m"] by (simp only: fold.simps comp_apply spec_ops_simps)
qed simp

text \<open>A read after a run sees the last operation on its key.\<close>

lemma get_after_put:
  assumes "inv m" "\<forall>x \<in> set later. op_key x \<noteq> k"
  shows "get k (fold (perform put del) (before @ OpPut k v # later) m) = (v, True)"
  using run_view [OF assms(1), of "before @ OpPut k v # later"] assms(2)
  by (simp add: get_view spec_ops_append spec_ops_untouched)

lemma get_after_delete:
  assumes "inv m" "\<forall>x \<in> set later. op_key x \<noteq> k"
  shows "get k (fold (perform put del) (before @ OpDelete k # later) m) = (None, False)"
  using run_view [OF assms(1), of "before @ OpDelete k # later"] assms(2)
  by (simp add: get_view spec_ops_append spec_ops_untouched)

lemma flush_after_run:
  assumes "inv m" "view m = Map.empty" "flush (fold (perform put del) ops m) = (es, m')"
  shows "sorted_run es \<and> run_map es = spec_ops ops Map.empty \<and> view m' = Map.empty"
  using run_view [OF assms(1), of ops] flush_view [OF _ assms(3)] assms(2) by simp

end

lemma mem_inv_New [simp]: "mem_inv (NewMemtable n)"
  by (simp add: mem_inv_def NewMemtable_def)

lemma mem_map_New [simp]: "mem_map (NewMemtable n) = Map.empty"
  by (simp add: mem_map_def NewMemtable_def)

lemma mem_inv_Put: "mem_inv m \<Longrightarrow> mem_inv (Put k v m)"
  by (simp add: data_Put) (simp add: mem_inv_def stored_sorted)

lemma mem_inv_Delete: "mem_inv m \<Longrightarrow> mem_inv (Delete k m)"
  by (simp add: data_Delete) (simp add: mem_inv_def stored_sorted)

lemma mem_map_Put: "mem_inv m \<Longrightarrow> mem_map (Put k v m) = (mem_map m)(k \<mapsto> live_entry k v)"
  by (simp add: data_Put mem_map_def run_map_stored)

lemma mem_map_Delete: "mem_inv m \<Longrightarrow> mem_map (Delete k m) = (mem_map m)(k \<mapsto> dead_entry k)"
  by (simp add: data_Delete mem_map_def run_map_stored)

lemma maxEntries_Put [simp]: "maxEntries (Put k v m) = maxEntries m"
  by (simp add: Put_def Let_def)

lemma maxEntries_Delete [simp]: "maxEntries (Delete k m) = maxEntries m"
  by (simp add: Delete_def Let_def)

lemma maxEntries_run: "maxEntries (fold (perform Put Delete) ops m) = maxEntries m"
proof (induction ops arbitrary: m)
  case (Cons x ops)
  then show ?case by (cases x) simp_all
qed simp

lemma Flush_simps: "fst (Flush m) = data m" "snd (Flush m) = m\<lparr>data := []\<rparr>"
  by (simp_all add: Flush_def)

interpretation mem: kv_buffer mem_inv mem_map Put Delete Get Flush
proof unfold_locales
  show "mem_inv m' \<and> mem_map m' = Map.empty \<and> sorted_run es \<and> run_map es = mem_map m"
    if "mem_inv m" "Flush m = (es, m')" for m es m'
    using that by (auto simp: Flush_def mem_inv_def mem_map_def split: if_splits)
qed (simp_all add: mem_inv_Put mem_inv_Delete mem_map_Put mem_map_Delete Get_run_map)

section \<open>Properties\<close>

text \<open>C14: After any sequence of puts and deletes on a new memtable, \<^verbatim>\<open>Get\<close> returns the value of the
  last operation on the key if that was a put, and reports a miss if it was a delete or if
  there was none.\<close>

theorem get_after_run:
  "Get k (fold (perform Put Delete) ops (NewMemtable n)) =
     (case spec_ops ops Map.empty k of
        Some e \<Rightarrow> if Tombstone e then (None, False) else (Value e, True)
      | None \<Rightarrow> (None, False))"
  using mem.run_view [of "NewMemtable n" ops] by (simp add: mem.get_view)

text \<open>C15: Flushing after any sequence of operations yields the entries in strictly increasing key
  order, exactly the last operation of every key, deletions included, and leaves the memtable
  empty.\<close>

theorem flush_run_is_sorted_map:
  "let (es, m') = Flush (fold (perform Put Delete) ops (NewMemtable n))
   in sorted_run es \<and> run_map es = spec_ops ops Map.empty \<and> data m' = [] \<and> maxEntries m' = n"
proof -
  obtain es m' where fl: "Flush (fold (perform Put Delete) ops (NewMemtable n)) = (es, m')" by fastforce
  have "m' = (fold (perform Put Delete) ops (NewMemtable n))\<lparr>data := []\<rparr>"
    using Flush_simps(2) fl by (metis snd_conv)
  then show ?thesis
    using mem.flush_after_run [OF _ _ fl] by (simp add: fl maxEntries_run) (simp add: NewMemtable_def)
qed

text \<open>The memtable asks for a flush exactly when the number of distinct keys it was given has
  reached its limit; overwrites and repeated deletes do not count.\<close>

theorem should_flush_counts_keys:
  "ShouldFlush (fold (perform Put Delete) ops (NewMemtable n)) \<longleftrightarrow> n \<le> int (card (op_key ` set ops))"
proof -
  let ?m = "fold (perform Put Delete) ops (NewMemtable n)"
  have inv: "mem_inv ?m" "mem_map ?m = spec_ops ops Map.empty"
    using mem.run_view [of "NewMemtable n" ops] by simp_all
  have "dom (spec_ops ops mp) = op_key ` set ops \<union> dom mp" for mp
    by (induction ops arbitrary: mp) auto
  then have "op_key ` set ops = Key ` set (data ?m)"
    using inv(2) dom_run_map [of "data ?m"] by (simp add: mem_map_def)
  moreover have "distinct (map Key (data ?m))"
    using inv(1) by (simp add: mem_inv_def sorted_run_def strict_sorted_iff)
  ultimately have "card (op_key ` set ops) = length (data ?m)"
    by (metis distinct_card length_map set_map)
  moreover have "maxEntries ?m = n"
    using maxEntries_run [of ops "NewMemtable n"] by (simp add: NewMemtable_def)
  ultimately show ?thesis by (simp add: ShouldFlush_def)
qed

end
