(* ===== verification/Wal.thy ===== *)
theory Wal
  imports Common_Types Os_File Memtable
begin

text \<open>
  \<^verbatim>\<open>internal/wal/wal.go\<close>: the write-ahead log. An entry is written in three calls, any of
  which can fail and leave a torn record behind; \<open>ReadAll\<close> parses the file from the start. The
  mutex makes every method one step. The locale \<open>durable_log\<close> is the interface \<^verbatim>\<open>WAL\<close>; its
  extension with \<open>kv_buffer\<close> proves once that a log written beside a buffer reproduces it.
\<close>

record diskWAL =
  wal_file :: "os_file option"
  wal_path :: gostring

text \<open>
  \<open>existing\<close> is what the file holds already; \<^verbatim>\<open>O_CREATE\<close> makes a missing file empty.
\<close>

fun NewDiskWAL :: "outcome \<Rightarrow> byte list \<Rightarrow> gostring \<Rightarrow> io_error + diskWAL" where
  "NewDiskWAL Done existing path =
     Inr \<lparr>wal_file = Some \<lparr>content = existing, fpos = 0\<rparr>, wal_path = path\<rparr>"
| "NewDiskWAL (Fault _) existing path = Inl EIO"

text \<open>A call on the file; a nil \<^verbatim>\<open>*os.File\<close> answers \<^verbatim>\<open>ErrInvalid\<close>.\<close>

definition on_file ::
  "(os_file \<Rightarrow> io_error option \<times> os_file) \<Rightarrow> diskWAL \<Rightarrow> io_error option \<times> diskWAL" where
  "on_file call w =
     (case wal_file w of
        None \<Rightarrow> (Some ErrInvalid, w)
      | Some f \<Rightarrow> (case call f of (e, f') \<Rightarrow> (e, w\<lparr>wal_file := Some f'\<rparr>)))"

definition wal_write ::
  "outcome \<times> outcome \<times> outcome \<Rightarrow> wal_entry \<Rightarrow> diskWAL \<Rightarrow> io_error option \<times> diskWAL" where
  "wal_write os entry w =
     (case os of (o1, o2, o3) \<Rightarrow>
        (case on_file (file_write o1
                (frame_header (wKey entry) (wValue entry) (wTombstone entry))) w of
           (Some e, w1) \<Rightarrow> (Some e, w1)
         | (None, w1) \<Rightarrow>
             (case on_file (file_write o2 (wKey entry)) w1 of
                (Some e, w2) \<Rightarrow> (Some e, w2)
              | (None, w2) \<Rightarrow>
                  (case on_file (file_write o3 (slice_bytes (wValue entry))) w2 of
                     (Some e, w3) \<Rightarrow> (Some e, w3)
                   | (None, w3) \<Rightarrow> (None, w3)))))"

definition LogPut ::
  "outcome \<times> outcome \<times> outcome \<Rightarrow> gostring \<Rightarrow> slice \<Rightarrow> diskWAL \<Rightarrow> io_error option \<times> diskWAL" where
  "LogPut os key value w =
     wal_write os \<lparr>wKey = key, wValue = value, wTombstone = False\<rparr> w"

definition LogDelete ::
  "outcome \<times> outcome \<times> outcome \<Rightarrow> gostring \<Rightarrow> diskWAL \<Rightarrow> io_error option \<times> diskWAL" where
  "LogDelete os key w =
     wal_write os \<lparr>wKey = key, wValue = None, wTombstone = True\<rparr> w"

lemma read_frame_progress:
  assumes "(r1, f1) = read_full bad 9 f" "r1 = Inr h" "(r2, f2) = read_full bad n f1" "r2 = Inr k"
    "(r3, f3) = read_full bad m f2" "r3 = Inr v"
  shows "length (content f3) - fpos f3 < length (content f) - fpos f"
proof -
  note 1 = read_full_ok [of bad 9 f h f1] and 2 = read_full_ok [of bad n f1 k f2]
    and 3 = read_full_ok [of bad m f2 v f3]
  show ?thesis using 1 2 3 assms by simp
qed

text \<open>The loop of \<^verbatim>\<open>ReadAll\<close>. Each pass consumes at least a header, so it ends with the file.\<close>

function read_entries ::
  "(nat \<Rightarrow> bool) \<Rightarrow> os_file \<Rightarrow> wal_entry list \<Rightarrow> (io_error + wal_entry list) \<times> os_file" where
  "read_entries bad f entries =
     (case read_full bad 9 f of
        (Inl e, f1) \<Rightarrow> (if e = EOF then (Inr entries, f1) else (Inl e, f1))
      | (Inr header, f1) \<Rightarrow>
          let kLen = get_u32 (take 4 header);
              vLen = get_u32 (take 4 (drop 4 header));
              isTomb = (header ! 8 = 1)
          in (case read_full bad (unat kLen) f1 of
                (Inl e, f2) \<Rightarrow> (Inl e, f2)
              | (Inr keyBuf, f2) \<Rightarrow>
                  (case read_full bad (unat vLen) f2 of
                     (Inl e, f3) \<Rightarrow> (Inl e, f3)
                   | (Inr valBuf, f3) \<Rightarrow>
                       read_entries bad f3
                         (entries @ [\<lparr>wKey = keyBuf, wValue = Some valBuf, wTombstone = isTomb\<rparr>]))))"
  by pat_completeness auto
termination
proof (relation "measure (\<lambda>(bad, f, entries). length (content f) - fpos f)", simp, goal_cases)
  case 1
  show ?case using read_frame_progress [OF 1(1,2,6-9)] by simp
qed

declare read_entries.simps [simp del]

definition ReadAll ::
  "outcome \<Rightarrow> (nat \<Rightarrow> bool) \<Rightarrow> diskWAL \<Rightarrow> (io_error + wal_entry list) \<times> diskWAL" where
  "ReadAll seek bad w =
     (case on_file (file_rewind seek) w of
        (Some e, w1) \<Rightarrow> (Inl e, w1)
      | (None, w1) \<Rightarrow>
          (case wal_file w1 of
             None \<Rightarrow> (Inl ErrInvalid, w1)
           | Some f \<Rightarrow>
               (case read_entries bad f [] of
                  (r, f') \<Rightarrow> (r, w1\<lparr>wal_file := Some f'\<rparr>))))"

definition Truncate :: "outcome \<Rightarrow> outcome \<Rightarrow> diskWAL \<Rightarrow> io_error option \<times> diskWAL" where
  "Truncate trunc seek w =
     (if wal_file w = None then (None, w)
      else (case on_file (file_truncate0 trunc) w of
              (Some e, w1) \<Rightarrow> (Some e, w1)
            | (None, w1) \<Rightarrow> on_file (file_rewind seek) w1))"

section \<open>What the file holds\<close>

definition wal_frame :: "wal_entry \<Rightarrow> byte list" where
  "wal_frame e = frame (wKey e) (wValue e) (wTombstone e)"

lemma wal_frame_not_Nil [simp]: "wal_frame e \<noteq> []"
  by (simp add: wal_frame_def)

definition wal_fits :: "wal_entry \<Rightarrow> bool" where
  "wal_fits e \<longleftrightarrow> frame_fits (wKey e) (wValue e)"

text \<open>A value read back is never nil: \<^verbatim>\<open>make([]byte, 0)\<close> is the empty slice.\<close>

definition reread :: "wal_entry \<Rightarrow> wal_entry" where
  "reread e =
     \<lparr>wKey = wKey e, wValue = Some (slice_bytes (wValue e)), wTombstone = wTombstone e\<rparr>"

lemma wal_write_content:
  assumes "wal_write os e w = (None, w')"
  shows "\<exists>f f'. wal_file w = Some f \<and> wal_file w' = Some f' \<and>
    content f' = content f @ wal_frame e \<and> wal_path w' = wal_path w"
proof -
  obtain o1 o2 o3 where os: "os = (o1, o2, o3)" by (cases os)
  show ?thesis
    using assms unfolding os
    by (cases o1; cases o2; cases o3)
      (auto simp: wal_write_def on_file_def wal_frame_def frame_def split: option.splits)
qed

text \<open>
  A write that fails leaves a prefix of the frame: what had been transferred before the fault.
\<close>

lemma wal_write_torn:
  assumes "wal_write os e w = (Some err, w')" "wal_file w = Some f"
  shows "\<exists>f' n. wal_file w' = Some f' \<and> content f' = content f @ take n (wal_frame e)"
proof -
  obtain o1 o2 o3 where os: "os = (o1, o2, o3)" by (cases os)
  let ?h = "frame_header (wKey e) (wValue e) (wTombstone e)"
  have h: "take n ?h = take (min n 9) (wal_frame e)"
    "?h @ take n (wKey e) = take (9 + min n (length (wKey e))) (wal_frame e)"
    "?h @ wKey e @ take n (slice_bytes (wValue e))
      = take (9 + length (wKey e) + n) (wal_frame e)" for n
    by (simp_all add: wal_frame_def frame_def min_def)
  show ?thesis
  proof (cases o1)
    case (Fault n)
    then have "content (the (wal_file w')) = content f @ take n ?h" "wal_file w' \<noteq> None"
      using assms by (auto simp: os wal_write_def on_file_def)
    then show ?thesis unfolding h by auto
  next
    case o1: Done
    show ?thesis
    proof (cases o2)
      case (Fault n)
      then have "content (the (wal_file w')) = content f @ (?h @ take n (wKey e))" "wal_file w' \<noteq> None"
        using assms o1 by (auto simp: os wal_write_def on_file_def)
      then show ?thesis unfolding h by auto
    next
      case o2: Done
      then obtain n where "o3 = Fault n"
        using assms o1 by (cases o3) (auto simp: os wal_write_def on_file_def)
      then have "content (the (wal_file w')) = content f @ (?h @ wKey e @ take n (slice_bytes (wValue e)))"
        "wal_file w' \<noteq> None"
        using assms o1 o2 by (auto simp: os wal_write_def on_file_def)
      then show ?thesis unfolding h by auto
    qed
  qed
qed

section \<open>Parsing what was written\<close>

lemma drop_chunk: "drop n xs = ys @ zs \<Longrightarrow> drop (n + length ys) xs = zs"
  by (metis append_eq_conv_conj drop_drop add.commute)

lemma read_entries_step:
  assumes "drop (fpos f) (content f) = wal_frame e @ rest" "wal_fits e"
  shows "read_entries no_fault f acc =
    read_entries no_fault (f\<lparr>fpos := fpos f + length (wal_frame e)\<rparr>) (acc @ [reread e])"
proof -
  let ?h = "frame_header (wKey e) (wValue e) (wTombstone e)"
  let ?f1 = "f\<lparr>fpos := fpos f + 9\<rparr>"
  let ?f2 = "f\<lparr>fpos := fpos f + 9 + length (wKey e)\<rparr>"
  have d0: "drop (fpos f) (content f) = ?h @ (wKey e @ slice_bytes (wValue e) @ rest)"
    using assms(1) by (simp add: wal_frame_def frame_def)
  have d1: "drop (fpos ?f1) (content ?f1) = wKey e @ (slice_bytes (wValue e) @ rest)"
    using drop_chunk [OF d0] by simp
  have d2: "drop (fpos ?f2) (content ?f2) = slice_bytes (wValue e) @ rest"
    using drop_chunk [OF d1] by simp
  have lens: "unat (u32_len (wKey e)) = length (wKey e)"
    "unat (u32_len (slice_bytes (wValue e))) = length (slice_bytes (wValue e))"
    using assms(2) by (simp_all add: wal_fits_def frame_fits_def unat_u32_len)
  have r0: "read_full no_fault 9 f = (Inr ?h, ?f1)"
    using read_full_chunk [OF d0, of 9] by simp
  have r1: "read_full no_fault (length (wKey e)) ?f1 = (Inr (wKey e), ?f2)"
    using read_full_chunk [OF d1 refl] by simp
  have r2: "read_full no_fault (length (slice_bytes (wValue e))) ?f2 =
    (Inr (slice_bytes (wValue e)), f\<lparr>fpos := fpos f + length (wal_frame e)\<rparr>)"
    using read_full_chunk [OF d2 refl] by (simp add: wal_frame_def frame_length)
  show ?thesis
    by (subst read_entries.simps)
      (auto simp: r0 r1 r2 frame_header_fields lens Let_def reread_def)
qed

lemma read_entries_concat:
  assumes "drop (fpos f) (content f) = concat (map wal_frame es) @ rest" "\<forall>e \<in> set es. wal_fits e"
  shows "\<exists>p. read_entries no_fault f acc =
      read_entries no_fault (f\<lparr>fpos := p\<rparr>) (acc @ map reread es) \<and> drop p (content f) = rest"
  using assms
proof (induction es arbitrary: f acc)
  case Nil
  then show ?case by (intro exI [of _ "fpos f"]) simp
next
  case (Cons e es)
  let ?f = "f\<lparr>fpos := fpos f + length (wal_frame e)\<rparr>"
  have d: "drop (fpos f) (content f) = wal_frame e @ (concat (map wal_frame es) @ rest)"
    using Cons.prems(1) by simp
  have "drop (fpos ?f) (content ?f) = concat (map wal_frame es) @ rest"
    using drop_chunk [OF d] by simp
  from Cons.IH [OF this, of "acc @ [reread e]"] Cons.prems(2)
  show ?case
    using read_entries_step [OF d, of acc] by auto
qed

lemma read_entries_end:
  "drop (fpos f) (content f) = [] \<Longrightarrow> read_entries no_fault f acc = (Inr acc, f)"
  by (subst read_entries.simps) (simp add: read_full_eof)

text \<open>Parsing a torn last frame fails.\<close>

lemma read_entries_torn:
  assumes "drop (fpos f) (content f) = take n (wal_frame e)" "0 < n" "n < length (wal_frame e)"
    "wal_fits e"
  shows "\<exists>err. fst (read_entries no_fault f acc) = Inl err"
proof -
  let ?h = "frame_header (wKey e) (wValue e) (wTombstone e)"
  let ?v = "slice_bytes (wValue e)"
  let ?f1 = "f\<lparr>fpos := fpos f + 9\<rparr>"
  let ?f2 = "f\<lparr>fpos := fpos f + 9 + length (wKey e)\<rparr>"
  have lens: "unat (u32_len (wKey e)) = length (wKey e)" "unat (u32_len ?v) = length ?v"
    using assms(4) by (simp_all add: wal_fits_def frame_fits_def unat_u32_len)
  have tot: "length (wal_frame e) = 9 + length (wKey e) + length ?v"
    by (simp add: wal_frame_def frame_length)
  have torn: "take n (wal_frame e) = take n ?h @ take (n - 9) (wKey e) @ take (n - 9 - length (wKey e)) ?v"
    by (simp add: wal_frame_def frame_def)
  show ?thesis
  proof (cases "n < 9")
    case True
    have "fst (read_full no_fault 9 f) = Inl ErrUnexpectedEOF"
      using read_full_short [of f "take n (wal_frame e)" 9] assms True by simp
    then show ?thesis
      by (subst read_entries.simps) (auto split: prod.split)
  next
    case False
    then have d0: "drop (fpos f) (content f) = ?h @ (take (n - 9) (wKey e) @ take (n - 9 - length (wKey e)) ?v)"
      using assms(1) torn by simp
    have r0: "read_full no_fault 9 f = (Inr ?h, ?f1)"
      using read_full_chunk [OF d0, of 9] by simp
    have d1: "drop (fpos ?f1) (content ?f1) = take (n - 9) (wKey e) @ take (n - 9 - length (wKey e)) ?v"
      using drop_chunk [OF d0] by simp
    show ?thesis
    proof (cases "n - 9 < length (wKey e)")
      case True
      then have "\<exists>err. fst (read_full no_fault (length (wKey e)) ?f1) = Inl err"
        using read_full_short [OF d1, of "length (wKey e)"] by simp
      then show ?thesis
        by (subst read_entries.simps)
          (auto simp: r0 frame_header_fields lens Let_def split: prod.split)
    next
      case False
      then have d1': "drop (fpos ?f1) (content ?f1) = wKey e @ take (n - 9 - length (wKey e)) ?v"
        using d1 by simp
      have r1: "read_full no_fault (length (wKey e)) ?f1 = (Inr (wKey e), ?f2)"
        using read_full_chunk [OF d1' refl] by simp
      have d2: "drop (fpos ?f2) (content ?f2) = take (n - 9 - length (wKey e)) ?v"
        using drop_chunk [OF d1'] by simp
      have "\<exists>err. fst (read_full no_fault (length ?v) ?f2) = Inl err"
        using read_full_short [OF d2, of "length ?v"] assms(3) tot False \<open>\<not> n < 9\<close> by simp
      then show ?thesis
        by (subst read_entries.simps)
          (auto simp: r0 r1 frame_header_fields lens Let_def split: prod.split)
    qed
  qed
qed

lemma ReadAll_parses:
  assumes "wal_file w = Some f" "content f = concat (map wal_frame es)" "\<forall>e \<in> set es. wal_fits e"
  shows "fst (ReadAll Done no_fault w) = Inr (map reread es)"
proof -
  let ?f = "f\<lparr>fpos := 0\<rparr>"
  have "drop (fpos ?f) (content ?f) = concat (map wal_frame es) @ []"
    using assms(2) by simp
  from read_entries_concat [OF this assms(3), of "[]"] obtain p where
    "read_entries no_fault ?f [] = read_entries no_fault (f\<lparr>fpos := p\<rparr>) (map reread es)"
    "drop p (content f) = []" by auto
  then have "read_entries no_fault ?f [] = (Inr (map reread es), f\<lparr>fpos := p\<rparr>)"
    by (simp add: read_entries_end)
  then show ?thesis
    using assms(1) by (simp add: ReadAll_def on_file_def)
qed

lemma ReadAll_torn:
  assumes "wal_file w = Some f" "content f = concat (map wal_frame es) @ take n (wal_frame e)"
    "\<forall>x \<in> set (es @ [e]). wal_fits x" "0 < n" "n < length (wal_frame e)"
  shows "\<exists>err. fst (ReadAll Done no_fault w) = Inl err"
proof -
  let ?f = "f\<lparr>fpos := 0\<rparr>"
  have d: "drop (fpos ?f) (content ?f) = concat (map wal_frame es) @ take n (wal_frame e)"
    using assms(2) by simp
  have "\<forall>x \<in> set es. wal_fits x" using assms(3) by simp
  from read_entries_concat [OF d this, of "[]"] obtain p where
    p: "read_entries no_fault ?f [] = read_entries no_fault (f\<lparr>fpos := p\<rparr>) (map reread es)"
    "drop p (content f) = take n (wal_frame e)" by auto
  then have "\<exists>err. fst (read_entries no_fault ?f []) = Inl err"
    using read_entries_torn [of "f\<lparr>fpos := p\<rparr>" n e "map reread es"] assms(3-5) by simp
  then show ?thesis
    using assms(1) by (auto simp: ReadAll_def on_file_def split: prod.split)
qed

section \<open>The interface and its clients\<close>

text \<open>The record that a logged operation reads back as, and the operation it replays as.\<close>

fun logged :: "mem_op \<Rightarrow> wal_entry" where
  "logged (OpPut k v) = \<lparr>wKey = k, wValue = Some (slice_bytes v), wTombstone = False\<rparr>"
| "logged (OpDelete k) = \<lparr>wKey = k, wValue = Some [], wTombstone = True\<rparr>"

definition replay_op :: "wal_entry \<Rightarrow> mem_op" where
  "replay_op e = (if wTombstone e then OpDelete (wKey e) else OpPut (wKey e) (wValue e))"

fun op_fits :: "mem_op \<Rightarrow> bool" where
  "op_fits (OpPut k v) = frame_fits k v"
| "op_fits (OpDelete k) = frame_fits k None"

text \<open>Going through the log turns a nil value into an empty one and changes nothing else.\<close>

definition entry_norm :: "kv_entry \<Rightarrow> kv_entry" where
  "entry_norm e = (if Tombstone e then e else e\<lparr>Value := Some (slice_bytes (Value e))\<rparr>)"

lemma replay_logged_key: "op_key (replay_op (logged x)) = op_key x"
  by (cases x) (simp_all add: replay_op_def)

lemma replay_logged_entry: "op_entry (replay_op (logged x)) = entry_norm (op_entry x)"
  by (cases x) (simp_all add: replay_op_def entry_norm_def live_entry_def)

lemma spec_ops_replay:
  "spec_ops (map (replay_op \<circ> logged) ops) (map_option entry_norm \<circ> mp)
     = map_option entry_norm \<circ> spec_ops ops mp"
proof (induction ops arbitrary: mp)
  case (Cons x ops)
  have upd: "(map_option entry_norm \<circ> mp)(op_key x \<mapsto> entry_norm (op_entry x))
    = map_option entry_norm \<circ> mp(op_key x \<mapsto> op_entry x)" by auto
  have "spec_ops (map (replay_op \<circ> logged) (x # ops)) (map_option entry_norm \<circ> mp)
    = spec_ops (map (replay_op \<circ> logged) ops)
        ((map_option entry_norm \<circ> mp)(op_key x \<mapsto> entry_norm (op_entry x)))"
    by (simp add: replay_logged_key replay_logged_entry)
  also have "\<dots> = map_option entry_norm \<circ> spec_ops ops (mp(op_key x \<mapsto> op_entry x))"
    unfolding upd by (rule Cons.IH)
  finally show ?case by (simp only: spec_ops_simps(2))
qed simp

locale durable_log =
  fixes inv :: "'w \<Rightarrow> bool"
    and readall :: "'w \<Rightarrow> io_error + wal_entry list"
    and log_put :: "'o \<Rightarrow> gostring \<Rightarrow> slice \<Rightarrow> 'w \<Rightarrow> io_error option \<times> 'w"
    and log_del :: "'o \<Rightarrow> gostring \<Rightarrow> 'w \<Rightarrow> io_error option \<times> 'w"
    and trunc :: "'t \<Rightarrow> 'w \<Rightarrow> io_error option \<times> 'w"
  assumes readall_put: "inv w \<Longrightarrow> readall w = Inr es \<Longrightarrow> frame_fits k v \<Longrightarrow>
      log_put out k v w = (None, w') \<Longrightarrow> inv w' \<and> readall w' = Inr (es @ [logged (OpPut k v)])"
    and readall_del: "inv w \<Longrightarrow> readall w = Inr es \<Longrightarrow> frame_fits k None \<Longrightarrow>
      log_del out k w = (None, w') \<Longrightarrow> inv w' \<and> readall w' = Inr (es @ [logged (OpDelete k)])"
    and readall_trunc: "inv w \<Longrightarrow> trunc t w = (None, w') \<Longrightarrow> inv w' \<and> readall w' = Inr []"
begin

fun log_op :: "'o \<Rightarrow> mem_op \<Rightarrow> 'w \<Rightarrow> io_error option \<times> 'w" where
  "log_op out (OpPut k v) w = log_put out k v w"
| "log_op out (OpDelete k) w = log_del out k w"

text \<open>A run of logged operations, given up at the first error.\<close>

fun log_all :: "('o \<times> mem_op) list \<Rightarrow> 'w \<Rightarrow> 'w option" where
  "log_all [] w = Some w"
| "log_all ((out, x) # xs) w =
     (case log_op out x w of (None, w') \<Rightarrow> log_all xs w' | (Some e, w') \<Rightarrow> None)"

lemma readall_log_all:
  assumes "inv w" "readall w = Inr es" "\<forall>(out, x) \<in> set xs. op_fits x" "log_all xs w = Some w'"
  shows "inv w' \<and> readall w' = Inr (es @ map (logged \<circ> snd) xs)"
  using assms
proof (induction xs arbitrary: w es)
  case (Cons p xs)
  obtain out x where p: "p = (out, x)" by (cases p)
  obtain w1 where w1: "log_op out x w = (None, w1)" "log_all xs w1 = Some w'"
    using Cons.prems(4) unfolding p by (auto split: prod.splits option.splits)
  have "inv w1 \<and> readall w1 = Inr (es @ [logged x])"
    using Cons.prems(1-3) w1(1) unfolding p
    by (cases x) (auto dest: readall_put readall_del)
  with Cons.IH [of w1 "es @ [logged x]"] Cons.prems(3) w1(2) show ?case
    unfolding p by simp
qed simp

end

locale logged_buffer =
  kv_buffer inv view put del get flush + durable_log winv readall log_put log_del trunc
  for inv :: "'m \<Rightarrow> bool" and view put del get flush
    and winv :: "'w \<Rightarrow> bool" and readall
    and log_put :: "'o \<Rightarrow> gostring \<Rightarrow> slice \<Rightarrow> 'w \<Rightarrow> io_error option \<times> 'w"
    and log_del :: "'o \<Rightarrow> gostring \<Rightarrow> 'w \<Rightarrow> io_error option \<times> 'w"
    and trunc :: "'t \<Rightarrow> 'w \<Rightarrow> io_error option \<times> 'w"
begin

text \<open>
  Recovery: replaying the log into an empty buffer gives the buffer that was lost, up to the
  nil values that come back empty.
\<close>

lemma recovery:
  assumes "winv w" "readall w = Inr []" "\<forall>(out, x) \<in> set xs. op_fits x" "log_all xs w = Some w'"
    and "inv m" "view m = Map.empty" "inv m0" "view m0 = Map.empty"
  shows "\<exists>es. readall w' = Inr es \<and>
    view (fold (perform put del) (map replay_op es) m0)
      = map_option entry_norm \<circ> view (fold (perform put del) (map snd xs) m)"
proof (intro exI conjI)
  show "readall w' = Inr (map (logged \<circ> snd) xs)"
    using readall_log_all [OF assms(1-4)] by simp
  have "view (fold (perform put del) (map replay_op (map (logged \<circ> snd) xs)) m0)
    = spec_ops (map (replay_op \<circ> logged) (map snd xs)) (map_option entry_norm \<circ> Map.empty)"
    using run_view [OF assms(7)] assms(8) by (simp add: comp_assoc o_def)
  also have "\<dots> = map_option entry_norm \<circ> spec_ops (map snd xs) Map.empty"
    by (rule spec_ops_replay)
  finally show "view (fold (perform put del) (map replay_op (map (logged \<circ> snd) xs)) m0)
      = map_option entry_norm \<circ> view (fold (perform put del) (map snd xs) m)"
    using run_view [OF assms(5)] assms(6) by simp
qed

end

text \<open>The disk log: its file is a sequence of whole frames whose lengths fit.\<close>

definition wal_holds :: "diskWAL \<Rightarrow> wal_entry list \<Rightarrow> bool" where
  "wal_holds w es \<longleftrightarrow>
     (\<exists>f. wal_file w = Some f \<and> content f = concat (map wal_frame es)) \<and> (\<forall>e \<in> set es. wal_fits e)"

definition wal_inv :: "diskWAL \<Rightarrow> bool" where
  "wal_inv w \<longleftrightarrow> (\<exists>es. wal_holds w es)"

lemma ReadAll_holds: "wal_holds w es \<Longrightarrow> fst (ReadAll Done no_fault w) = Inr (map reread es)"
  unfolding wal_holds_def using ReadAll_parses by blast

lemma wal_holds_write:
  assumes "wal_holds w es" "wal_fits e" "wal_write os e w = (None, w')"
  shows "wal_holds w' (es @ [e])"
  using wal_write_content [OF assms(3)] assms(1,2) by (auto simp: wal_holds_def)

lemma wal_holds_trunc:
  assumes "wal_holds w es" "Truncate t s w = (None, w')"
  shows "wal_holds w' []"
  using assms by (cases t; cases s) (auto simp: wal_holds_def Truncate_def on_file_def)

lemma wal_inv_write:
  assumes "wal_inv w" "fst (ReadAll Done no_fault w) = Inr rs" "wal_fits e"
    "wal_write os e w = (None, w')"
  shows "wal_inv w' \<and> fst (ReadAll Done no_fault w') = Inr (rs @ [reread e])"
proof -
  obtain es where es: "wal_holds w es" using assms(1) by (auto simp: wal_inv_def)
  then have "rs = map reread es" using ReadAll_holds assms(2) by simp
  moreover have "wal_holds w' (es @ [e])" using es assms(3,4) by (rule wal_holds_write)
  ultimately show ?thesis using ReadAll_holds by (auto simp: wal_inv_def)
qed

interpretation wal: durable_log wal_inv "\<lambda>w. fst (ReadAll Done no_fault w)" LogPut LogDelete
  "\<lambda>(t, s). Truncate t s"
proof (unfold_locales, goal_cases)
  case (1 w es k v out w')
  then show ?case
    using wal_inv_write [of w es "\<lparr>wKey = k, wValue = v, wTombstone = False\<rparr>" out w']
    by (simp add: LogPut_def wal_fits_def reread_def)
next
  case (2 w es k out w')
  then show ?case
    using wal_inv_write [of w es "\<lparr>wKey = k, wValue = None, wTombstone = True\<rparr>" out w']
    by (simp add: LogDelete_def wal_fits_def reread_def)
next
  case (3 w t w')
  then show ?case
    using wal_holds_trunc ReadAll_holds by (fastforce simp: wal_inv_def split: prod.splits)
qed

interpretation wal_mem: logged_buffer mem_inv mem_map Put Delete Get Flush
  wal_inv "\<lambda>w. fst (ReadAll Done no_fault w)" LogPut LogDelete "\<lambda>(t, s). Truncate t s"
  by unfold_locales

section \<open>Properties\<close>

definition empty_wal :: "gostring \<Rightarrow> diskWAL" where
  "empty_wal path = (case NewDiskWAL Done [] path of Inr w \<Rightarrow> w | Inl _ \<Rightarrow> \<lparr>wal_file = None, wal_path = path\<rparr>)"

lemma empty_wal_simps: "wal_inv (empty_wal p)" "fst (ReadAll Done no_fault (empty_wal p)) = Inr []"
proof -
  have "wal_holds (empty_wal p) []" by (simp add: wal_holds_def empty_wal_def)
  then show "wal_inv (empty_wal p)" "fst (ReadAll Done no_fault (empty_wal p)) = Inr []"
    using ReadAll_holds [of "empty_wal p" "[]"] by (auto simp: wal_inv_def)
qed

definition done3 :: "outcome \<times> outcome \<times> outcome" where
  "done3 = (Done, Done, Done)"

definition sample_ops :: "mem_op list" where
  "sample_ops = [OpPut [1] (Some [7, 8]), OpDelete [2], OpPut [1] None]"

lemma sample_logged: "\<exists>w. wal.log_all (map (Pair done3) sample_ops) (empty_wal []) = Some w"
  by (simp add: sample_ops_def done3_def empty_wal_def LogPut_def LogDelete_def wal_write_def on_file_def)

lemma sample_fits: "\<forall>(out, x) \<in> set (map (Pair done3) sample_ops). op_fits x"
  by (simp add: sample_ops_def frame_fits_def)

text \<open>C21: What was logged is what is read: after any sequence of puts and deletes whose lengths fit
  the 32-bit fields and that were logged without an error, \<^verbatim>\<open>ReadAll\<close> returns exactly these
  operations in order, a nil value coming back as an empty one.\<close>

theorem wal_roundtrip:
  assumes "wal.log_all xs (empty_wal path) = Some w" "\<forall>(out, x) \<in> set xs. op_fits x"
  shows "fst (ReadAll Done no_fault w) = Inr (map (logged \<circ> snd) xs)"
  using wal.readall_log_all [OF empty_wal_simps assms(2,1)] by simp

lemma wal_roundtrip_witness:
  "\<exists>w. fst (ReadAll Done no_fault w) = Inr (map logged sample_ops)"
  using sample_logged wal_roundtrip [OF _ sample_fits, of "[]"] by (force simp: comp_def)

text \<open>C3: Recovery: replaying what \<^verbatim>\<open>ReadAll\<close> returns into a new memtable gives, key by key, the
  memtable that the same operations had built in memory, except that a nil value comes back
  empty.\<close>

theorem wal_recovers_memtable:
  assumes "wal.log_all xs (empty_wal path) = Some w" "\<forall>(out, x) \<in> set xs. op_fits x"
  shows "\<exists>es. fst (ReadAll Done no_fault w) = Inr es \<and>
    mem_map (fold (perform Put Delete) (map replay_op es) (NewMemtable n)) =
      map_option entry_norm \<circ> mem_map (fold (perform Put Delete) (map snd xs) (NewMemtable n))"
  by (rule wal_mem.recovery [OF empty_wal_simps assms(2,1)]) simp_all

lemma wal_recovers_memtable_witness:
  "\<exists>w es. fst (ReadAll Done no_fault w) = Inr es \<and>
    mem_map (fold (perform Put Delete) (map replay_op es) (NewMemtable 4)) =
      map_option entry_norm \<circ> mem_map (fold (perform Put Delete) sample_ops (NewMemtable 4))"
proof -
  obtain w where "wal.log_all (map (Pair done3) sample_ops) (empty_wal []) = Some w"
    using sample_logged by blast
  from wal_recovers_memtable [OF this sample_fits, of 4] show ?thesis by (auto simp: comp_def)
qed

text \<open>C36: A write that is cut short inside a record makes the whole log unreadable: \<^verbatim>\<open>ReadAll\<close>
  returns an error and no entries, also for the records before it that are intact.\<close>

theorem torn_write_loses_log:
  assumes "wal.log_all xs (empty_wal path) = Some w" "\<forall>(out, x) \<in> set xs. op_fits x" "frame_fits k v"
    "LogPut os k v w = (Some err, w')" "wal_file w = Some f" "wal_file w' = Some f'"
    "length (content f) < length (content f')"
    "length (content f') < length (content f) + length (frame k v False)"
  shows "\<exists>err. fst (ReadAll Done no_fault w') = Inl err"
proof -
  have "wal_inv w" using wal.readall_log_all [OF empty_wal_simps assms(2,1)] by simp
  then obtain es where es: "content f = concat (map wal_frame es)" "\<forall>e \<in> set es. wal_fits e"
    using assms(5) by (auto simp: wal_inv_def wal_holds_def)
  let ?e = "\<lparr>wKey = k, wValue = v, wTombstone = False\<rparr>"
  obtain n where n: "content f' = content f @ take n (wal_frame ?e)"
    using wal_write_torn [of os ?e w err w' f] assms(4-6) by (auto simp: LogPut_def)
  have "0 < n" "n < length (wal_frame ?e)" using assms(7,8) n by (auto simp: wal_frame_def split: if_splits)
  then show ?thesis
    using ReadAll_torn [OF assms(6), of es n ?e] es n assms(3) by (simp add: wal_fits_def)
qed

definition torn_wal :: diskWAL where
  "torn_wal = snd (LogPut (Done, Done, Fault 1) [3] (Some [4, 5])
     (snd (LogPut done3 [1] (Some [2]) (empty_wal []))))"

lemma torn_write_loses_log_witness: "\<exists>err. fst (ReadAll Done no_fault torn_wal) = Inl err"
proof (rule torn_write_loses_log [where k = "[3]" and v = "Some [4, 5]" and os = "(Done, Done, Fault 1)"
      and err = EIO and f = "the (wal_file (snd (LogPut done3 [1] (Some [2]) (empty_wal []))))"
      and f' = "the (wal_file torn_wal)"])
  show "wal.log_all [(done3, OpPut [1] (Some [2]))] (empty_wal []) = Some (snd (LogPut done3 [1] (Some [2]) (empty_wal [])))"
    by (simp add: done3_def empty_wal_def LogPut_def wal_write_def on_file_def)
qed (simp_all add: torn_wal_def done3_def empty_wal_def LogPut_def wal_write_def on_file_def
    frame_fits_def frame_def frame_header_def put_u32_def)

end
