(* ===== verification/Segment_File.thy ===== *)
theory Segment_File
  imports Os_File
begin

text \<open>
  \<^verbatim>\<open>internal/segmentfile/segmentfile.go\<close>: the append-only data file and its memory mapping.
  A mapping has an identity and a length; it shows the file's first bytes as they are now
  (\<^verbatim>\<open>MAP_SHARED\<close>), and the kernel keeps the set of mappings that exist, so that a slice of
  a mapping that has been unmapped can be told from one that is still there. \<open>GetMmapData\<close>
  releases its lock once, so it is a first critical section followed by one of two others; the
  method run alone composes them, and the step relation at the end interleaves them.
\<close>

record mapping =
  map_id :: nat
  map_len :: nat

text \<open>The slice a caller receives: \<open>None\<close> is the empty slice that maps nothing.\<close>

type_synonym mmap_slice = "mapping option"

record segfile =
  sf_bytes :: "byte list"
  sf_closed :: bool
  sf_removed :: bool
  mmapData :: "mapping option"
  mmappedSize :: int
  isMMapped :: bool
  activeReads :: int
  live_maps :: "nat list"
  next_map :: nat

definition sf_size :: "segfile \<Rightarrow> int" where
  "sf_size s = int (length (sf_bytes s))"

fun NewSegmentFileManager :: "outcome \<Rightarrow> byte list \<Rightarrow> io_error + segfile" where
  "NewSegmentFileManager Done existing =
     Inr \<lparr>sf_bytes = existing, sf_closed = False, sf_removed = False, mmapData = None,
          mmappedSize = 0, isMMapped = False, activeReads = 0, live_maps = [], next_map = 0\<rparr>"
| "NewSegmentFileManager (Fault _) existing = Inl EIO"

text \<open>\<^verbatim>\<open>file.Stat\<close>: the sz, or an error.\<close>

definition sf_stat :: "outcome \<Rightarrow> segfile \<Rightarrow> io_error + int" where
  "sf_stat r s =
     (if sf_closed s then Inl ErrClosed
      else case r of Done \<Rightarrow> Inr (sf_size s) | Fault _ \<Rightarrow> Inl EIO)"

definition Append ::
  "outcome \<times> outcome \<times> outcome \<Rightarrow> byte list \<Rightarrow> segfile \<Rightarrow> (io_error + int \<times> int) \<times> segfile" where
  "Append os bytes s =
     (case os of (o_stat, o_write, o_sync) \<Rightarrow>
        (case sf_stat o_stat s of
           Inl e \<Rightarrow> (Inl e, s)
         | Inr offset \<Rightarrow>
             (case o_write of
                Fault n \<Rightarrow> (Inl EIO, s\<lparr>sf_bytes := sf_bytes s @ take n bytes\<rparr>)
              | Done \<Rightarrow>
                  (let s' = s\<lparr>sf_bytes := sf_bytes s @ bytes\<rparr>
                   in case o_sync of
                        Fault _ \<Rightarrow> (Inl EIO, s')
                      | Done \<Rightarrow> (Inr (offset, int (length bytes)), s')))))"

text \<open>
  \<^verbatim>\<open>ReadAt\<close>: \<open>None\<close> is the panic of \<^verbatim>\<open>make\<close> on a negative length; a read past the end of the
  file reports \<^verbatim>\<open>EOF\<close>.
\<close>

definition ReadAt :: "outcome \<Rightarrow> int \<Rightarrow> int \<Rightarrow> segfile \<Rightarrow> (io_error + byte list) option" where
  "ReadAt r offset len s =
     (if len < 0 then None
      else if offset < 0 then Some (Inl ErrInvalid)
      else if len = 0 then Some (Inr [])
      else if sf_closed s then Some (Inl ErrClosed)
      else case r of
             Fault _ \<Rightarrow> Some (Inl EIO)
           | Done \<Rightarrow>
               if sf_size s < offset + len then Some (Inl EOF)
               else Some (Inr (take (nat len) (drop (nat offset) (sf_bytes s)))))"

section \<open>Mapping the file\<close>

text \<open>The system calls \<^verbatim>\<open>mmap\<close> (of the first \<open>n\<close> bytes) and \<^verbatim>\<open>munmap\<close>.\<close>

definition sys_mmap :: "outcome \<Rightarrow> int \<Rightarrow> segfile \<Rightarrow> (io_error + mapping) \<times> segfile" where
  "sys_mmap r n s =
     (case r of
        Fault _ \<Rightarrow> (Inl EIO, s)
      | Done \<Rightarrow> (Inr \<lparr>map_id = next_map s, map_len = nat n\<rparr>,
                 s\<lparr>live_maps := next_map s # live_maps s, next_map := Suc (next_map s)\<rparr>))"

definition sys_munmap :: "mapping \<Rightarrow> segfile \<Rightarrow> segfile" where
  "sys_munmap m s = s\<lparr>live_maps := filter (\<lambda>i. i \<noteq> map_id m) (live_maps s)\<rparr>"

text \<open>The section under the read lock: done, or which of the other two has to follow.\<close>

datatype mmap_phase = Finished "io_error + mmap_slice" | NeedRemap int | NeedFirst

definition mmap_fast :: "outcome \<Rightarrow> segfile \<Rightarrow> mmap_phase" where
  "mmap_fast o_stat s =
     (if isMMapped s \<and> mmapData s \<noteq> None then
        (case sf_stat o_stat s of
           Inl e \<Rightarrow> Finished (Inl e)
         | Inr sz \<Rightarrow>
             if sz \<le> mmappedSize s then Finished (Inr (mmapData s)) else NeedRemap sz)
      else NeedFirst)"

definition mmap_remap ::
  "outcome \<Rightarrow> int \<Rightarrow> segfile \<Rightarrow> (io_error + mmap_slice) \<times> segfile" where
  "mmap_remap o_mmap sz s =
     (if sz \<le> mmappedSize s then (Inr (mmapData s), s)
      else
        let s1 = (case mmapData s of None \<Rightarrow> s | Some m \<Rightarrow> sys_munmap m s)
        in (case sys_mmap o_mmap sz s1 of
              (Inl e, s2) \<Rightarrow> (Inl e, s2\<lparr>isMMapped := False\<rparr>)
            | (Inr d, s2) \<Rightarrow>
                (Inr (Some d), s2\<lparr>mmapData := Some d, mmappedSize := sz, isMMapped := True\<rparr>)))"

definition mmap_first ::
  "outcome \<Rightarrow> outcome \<Rightarrow> segfile \<Rightarrow> (io_error + mmap_slice) \<times> segfile" where
  "mmap_first o_stat o_mmap s =
     (if isMMapped s \<and> mmapData s \<noteq> None then (Inr (mmapData s), s)
      else
        (case sf_stat o_stat s of
           Inl e \<Rightarrow> (Inl e, s)
         | Inr sz \<Rightarrow>
             if sz = 0 then (Inr None, s)
             else
               (case sys_mmap o_mmap sz s of
                  (Inl e, s2) \<Rightarrow> (Inl e, s2)
                | (Inr d, s2) \<Rightarrow>
                    (Inr (Some d),
                     s2\<lparr>mmapData := Some d, mmappedSize := sz, isMMapped := True\<rparr>))))"

definition begin_read :: "segfile \<Rightarrow> segfile" where
  "begin_read s = s\<lparr>activeReads := i32 (activeReads s + 1)\<rparr>"

definition end_read :: "segfile \<Rightarrow> segfile" where
  "end_read s = s\<lparr>activeReads := i32 (activeReads s - 1)\<rparr>"

text \<open>The method with nothing between its sections.\<close>

definition GetMmapData ::
  "outcome \<times> outcome \<times> outcome \<Rightarrow> segfile \<Rightarrow> (io_error + mmap_slice) \<times> segfile" where
  "GetMmapData os s0 =
     (case os of (o_stat, o_stat2, o_mmap) \<Rightarrow>
        (let s = begin_read s0;
             (r, s') = (case mmap_fast o_stat s of
                          Finished r \<Rightarrow> (r, s)
                        | NeedRemap sz \<Rightarrow> mmap_remap o_mmap sz s
                        | NeedFirst \<Rightarrow> mmap_first o_stat2 o_mmap s)
         in (r, end_read s')))"

text \<open>
  \<^verbatim>\<open>ReleaseMmap\<close> spins while there are active reads: \<open>None\<close> says that it is still waiting.
\<close>

definition ReleaseMmap :: "outcome \<Rightarrow> segfile \<Rightarrow> (io_error option \<times> segfile) option" where
  "ReleaseMmap o_unmap s =
     (if 0 < activeReads s then None
      else if isMMapped s then
        (case mmapData s of
           None \<Rightarrow> Some (None, s)
         | Some m \<Rightarrow>
             (case o_unmap of
                Done \<Rightarrow> Some (None, (sys_munmap m s)\<lparr>isMMapped := False, mmapData := None, mmappedSize := 0\<rparr>)
              | Fault _ \<Rightarrow> Some (Some EIO, s\<lparr>isMMapped := False, mmapData := None, mmappedSize := 0\<rparr>)))
      else Some (None, s))"

definition sf_Delete :: "outcome \<times> outcome \<Rightarrow> int \<Rightarrow> segfile \<Rightarrow> io_error option \<times> segfile" where
  "sf_Delete os offset s =
     (case os of (o_close, o_remove) \<Rightarrow>
        (let s1 = (if isMMapped s then
                     (case mmapData s of
                        None \<Rightarrow> s
                      | Some m \<Rightarrow> (sys_munmap m s)\<lparr>isMMapped := False, mmapData := None, mmappedSize := 0\<rparr>)
                   else s)
         in if sf_closed s1 then (Some ErrClosed, s1)
            else (case o_close of
                    Fault _ \<Rightarrow> (Some EIO, s1\<lparr>sf_closed := True\<rparr>)
                  | Done \<Rightarrow>
                      (let s2 = s1\<lparr>sf_closed := True\<rparr>
                       in case o_remove of
                            Fault _ \<Rightarrow> (Some EIO, s2)
                          | Done \<Rightarrow> (None, s2\<lparr>sf_removed := True\<rparr>)))))"

text \<open>What a slice shows: nothing can be said once its mapping is gone.\<close>

definition slice_live :: "mmap_slice \<Rightarrow> segfile \<Rightarrow> bool" where
  "slice_live d s \<longleftrightarrow> (case d of None \<Rightarrow> True | Some m \<Rightarrow> map_id m \<in> set (live_maps s))"

definition slice_data :: "mmap_slice \<Rightarrow> segfile \<Rightarrow> byte list" where
  "slice_data d s = (case d of None \<Rightarrow> [] | Some m \<Rightarrow> take (map_len m) (sf_bytes s))"

section \<open>The store contract\<close>

text \<open>
  The invariant of the file manager between two method calls: the published mapping exists and
  covers what \<open>mmappedSize\<close> says, which is no more than the file.
\<close>

definition mapping_ok :: "segfile \<Rightarrow> bool" where
  "mapping_ok s \<longleftrightarrow>
     mmappedSize s \<le> sf_size s \<and> (\<forall>i \<in> set (live_maps s). i < next_map s) \<and>
     (isMMapped s \<longrightarrow> (\<exists>m. mmapData s = Some m \<and> map_id m \<in> set (live_maps s) \<and>
                            int (map_len m) = mmappedSize s))"

definition sf_inv :: "segfile \<Rightarrow> bool" where
  "sf_inv s \<longleftrightarrow> mapping_ok s \<and> activeReads s = 0"

lemma sf_inv_New:
  "NewSegmentFileManager r existing = Inr s \<Longrightarrow> sf_inv s \<and> sf_bytes s = existing"
  by (cases r) (auto simp: sf_inv_def mapping_ok_def sf_size_def)

lemma Append_ok:
  assumes "Append os bs s = (Inr (off, len), s')"
  shows "s' = s\<lparr>sf_bytes := sf_bytes s @ bs\<rparr>" "off = sf_size s" "len = int (length bs)"
  using assms by (auto simp: Append_def Let_def sf_stat_def sf_size_def
      split: prod.splits sum.splits outcome.splits if_splits)

lemma Append_err:
  assumes "Append os bs s = (Inl e, s')"
  shows "\<exists>n. s' = s\<lparr>sf_bytes := sf_bytes s @ take n bs\<rparr>"
proof -
  have "s' = s \<or> (\<exists>n. s' = s\<lparr>sf_bytes := sf_bytes s @ take n bs\<rparr>) \<or> s' = s\<lparr>sf_bytes := sf_bytes s @ bs\<rparr>"
    using assms by (auto simp: Append_def Let_def split: prod.splits sum.splits outcome.splits)
  moreover have "s = s\<lparr>sf_bytes := sf_bytes s @ take 0 bs\<rparr>" by simp
  moreover have "s\<lparr>sf_bytes := sf_bytes s @ bs\<rparr> = s\<lparr>sf_bytes := sf_bytes s @ take (length bs) bs\<rparr>" by simp
  ultimately show ?thesis by metis
qed

lemma mapping_ok_grow: "mapping_ok s \<Longrightarrow> mapping_ok (s\<lparr>sf_bytes := sf_bytes s @ bs\<rparr>)"
  by (auto simp: mapping_ok_def sf_size_def)

lemma mapping_ok_reads [simp]:
  "mapping_ok (begin_read s) = mapping_ok s" "mapping_ok (end_read s) = mapping_ok s"
  by (simp_all add: mapping_ok_def begin_read_def end_read_def sf_size_def)

lemma reads_frame [simp]:
  "sf_bytes (begin_read s) = sf_bytes s" "sf_bytes (end_read s) = sf_bytes s"
  "slice_live d (begin_read s) = slice_live d s" "slice_live d (end_read s) = slice_live d s"
  "slice_data d (begin_read s) = slice_data d s" "slice_data d (end_read s) = slice_data d s"
  "sf_size (begin_read s) = sf_size s" "sf_size (end_read s) = sf_size s"
  by (simp_all add: begin_read_def end_read_def slice_live_def slice_data_def sf_size_def
      split: option.split)

text \<open>Each section keeps the mapping well formed and returns a slice that exists.\<close>

lemma mmap_fast_finished:
  assumes "mapping_ok s" "mmap_fast r s = Finished (Inr d)"
  shows "slice_live d s \<and> slice_data d s = sf_bytes s"
  using assms
  by (auto simp: mmap_fast_def mapping_ok_def sf_stat_def sf_size_def slice_live_def slice_data_def
      split: if_splits sum.splits outcome.splits)

lemma mmap_fast_remap: "mmap_fast r s = NeedRemap sz \<Longrightarrow> sz = sf_size s \<and> mmappedSize s < sz"
  by (auto simp: mmap_fast_def sf_stat_def split: if_splits sum.splits outcome.splits)

lemma sys_mmap_ok:
  assumes "sys_mmap r n s = (Inr m, s')"
  shows "m = \<lparr>map_id = next_map s, map_len = nat n\<rparr>"
    "s' = s\<lparr>live_maps := next_map s # live_maps s, next_map := Suc (next_map s)\<rparr>"
  using assms by (auto simp: sys_mmap_def split: outcome.splits)

lemma sys_mmap_err: "sys_mmap r n s = (Inl e, s') \<Longrightarrow> s' = s"
  by (auto simp: sys_mmap_def split: outcome.splits)

lemma sys_munmap_frame [simp]:
  "sf_bytes (sys_munmap m s) = sf_bytes s" "mmappedSize (sys_munmap m s) = mmappedSize s"
  "sf_size (sys_munmap m s) = sf_size s" "next_map (sys_munmap m s) = next_map s"
  "activeReads (sys_munmap m s) = activeReads s" "set (live_maps (sys_munmap m s)) = set (live_maps s) - {map_id m}"
  by (auto simp: sys_munmap_def sf_size_def)

definition published :: "mapping \<Rightarrow> int \<Rightarrow> segfile \<Rightarrow> segfile" where
  "published m sz s = s\<lparr>mmapData := Some m, mmappedSize := sz, isMMapped := True\<rparr>"

lemma mapping_ok_published:
  assumes "\<forall>i \<in> set (live_maps s). i < next_map s" "0 \<le> sz" "sz \<le> sf_size s"
    "sys_mmap r sz s = (Inr m, s2)"
  shows "mapping_ok (published m sz s2) \<and> slice_live (Some m) (published m sz s2) \<and>
    slice_data (Some m) (published m sz s2) = take (nat sz) (sf_bytes s) \<and>
    sf_bytes (published m sz s2) = sf_bytes s \<and> activeReads (published m sz s2) = activeReads s"
  using sys_mmap_ok [OF assms(4)] assms(1-3)
  by (auto simp: published_def mapping_ok_def sf_size_def slice_live_def slice_data_def)

lemma mmap_remap_ok:
  assumes "mapping_ok s" "mmappedSize s < sz" "sz \<le> sf_size s" "0 \<le> sz" "mmap_remap r sz s = (Inr d, s')"
  shows "mapping_ok s' \<and> slice_live d s' \<and> slice_data d s' = take (nat sz) (sf_bytes s) \<and>
    sf_bytes s' = sf_bytes s \<and> activeReads s' = activeReads s"
proof -
  let ?s1 = "case mmapData s of None \<Rightarrow> s | Some m \<Rightarrow> sys_munmap m s"
  have s1: "\<forall>i \<in> set (live_maps ?s1). i < next_map ?s1" "sf_size ?s1 = sf_size s"
    "sf_bytes ?s1 = sf_bytes s" "activeReads ?s1 = activeReads s"
    using assms(1) by (auto simp: mapping_ok_def split: option.splits)
  obtain m s2 where m: "sys_mmap r sz ?s1 = (Inr m, s2)" "d = Some m" "s' = published m sz s2"
    using assms(2,5) by (auto simp: mmap_remap_def published_def Let_def split: prod.splits sum.splits)
  show ?thesis
    using mapping_ok_published [OF s1(1) assms(4) _ m(1)] assms(3) s1 m by simp
qed

lemma mmap_remap_err:
  assumes "mapping_ok s" "mmap_remap r sz s = (Inl e, s')"
  shows "mapping_ok s' \<and> sf_bytes s' = sf_bytes s \<and> activeReads s' = activeReads s"
proof -
  let ?s1 = "case mmapData s of None \<Rightarrow> s | Some m \<Rightarrow> sys_munmap m s"
  obtain s2 where "sys_mmap r sz ?s1 = (Inl e, s2)" "s' = s2\<lparr>isMMapped := False\<rparr>"
    using assms(2) by (auto simp: mmap_remap_def Let_def split: prod.splits sum.splits if_splits)
  then have s': "s' = ?s1\<lparr>isMMapped := False\<rparr>" by (auto dest: sys_mmap_err)
  show ?thesis
    using assms(1) unfolding s' mapping_ok_def by (cases "mmapData s") (auto simp: sf_size_def)
qed

lemma sf_stat_cases: "sf_stat r s = Inr (sf_size s) \<or> (\<exists>e. sf_stat r s = Inl e)"
  by (cases r) (simp_all add: sf_stat_def)

lemma mmap_first_ok:
  assumes "mapping_ok s" "mmap_first r r' s = (Inr d, s')" "\<not> isMMapped s"
  shows "mapping_ok s' \<and> slice_live d s' \<and> slice_data d s' = sf_bytes s \<and>
    sf_bytes s' = sf_bytes s \<and> activeReads s' = activeReads s"
proof (cases "sf_size s = 0")
  case True
  then show ?thesis
    using assms sf_stat_cases [of r s]
    by (auto simp: mmap_first_def slice_live_def slice_data_def) (simp_all add: sf_size_def)
next
  case False
  have stat: "sf_stat r s = Inr (sf_size s)"
    using assms(2,3) sf_stat_cases [of r s] by (auto simp: mmap_first_def)
  obtain x s2 where x: "sys_mmap r' (sf_size s) s = (x, s2)" by fastforce
  then obtain m where m: "sys_mmap r' (sf_size s) s = (Inr m, s2)" "d = Some m"
    "s' = published m (sf_size s) s2"
    using assms(2,3) False stat by (cases x) (auto simp: mmap_first_def published_def)
  have ids: "\<forall>i \<in> set (live_maps s). i < next_map s" using assms(1) by (simp add: mapping_ok_def)
  show ?thesis
    using mapping_ok_published [OF ids _ order_refl m(1)] m by (simp add: sf_size_def)
qed

lemma mmap_first_err:
  assumes "mapping_ok s" "mmap_first r r' s = (Inl e, s')"
  shows "mapping_ok s' \<and> sf_bytes s' = sf_bytes s \<and> activeReads s' = activeReads s"
proof -
  have "s' = s"
    using assms(2) by (auto simp: mmap_first_def dest: sys_mmap_err split: prod.splits sum.splits if_splits)
  then show ?thesis using assms(1) by simp
qed

lemma read_balance: "activeReads s = 0 \<Longrightarrow> activeReads s' = activeReads (begin_read s) \<Longrightarrow>
  activeReads (end_read s') = 0"
  by (simp add: begin_read_def end_read_def i32_id)

lemma GetMmapData_spec:
  assumes "sf_inv s" "GetMmapData os s = (r, s')"
  shows "sf_inv s' \<and> sf_bytes s' = sf_bytes s \<and>
    (\<forall>d. r = Inr d \<longrightarrow> slice_live d s' \<and> slice_data d s' = sf_bytes s)"
proof -
  obtain q1 q2 q3 where os: "os = (q1, q2, q3)" by (cases os)
  let ?b = "begin_read s"
  have ok: "mapping_ok ?b" "activeReads s = 0" using assms(1) by (simp_all add: sf_inv_def)
  show ?thesis
  proof (cases "mmap_fast q1 ?b")
    case (Finished x)
    then have "r = x" "s' = end_read ?b"
      using assms(2) by (auto simp: os GetMmapData_def Let_def)
    then show ?thesis
      using ok mmap_fast_finished [OF ok(1)] Finished read_balance [OF ok(2) refl] by (auto simp: sf_inv_def)
  next
    case (NeedRemap sz)
    note sz = mmap_fast_remap [OF NeedRemap]
    obtain s1 where s1: "mmap_remap q3 sz ?b = (r, s1)" "s' = end_read s1"
      using assms(2) NeedRemap by (auto simp: os GetMmapData_def Let_def split: prod.splits)
    have "0 \<le> sz" "nat sz = length (sf_bytes s)" using sz by (auto simp: sf_size_def)
    then show ?thesis
      using mmap_remap_ok [OF ok(1), of sz q3 _ s1] mmap_remap_err [OF ok(1), of q3 sz _ s1] s1 sz
        read_balance [OF ok(2), of s1] ok(1)
      by (cases r) (auto simp: sf_inv_def)
  next
    case NeedFirst
    have nm: "\<not> isMMapped ?b"
      using NeedFirst ok(1) by (auto simp: mmap_fast_def mapping_ok_def split: if_splits sum.splits)
    obtain s1 where s1: "mmap_first q2 q3 ?b = (r, s1)" "s' = end_read s1"
      using assms(2) NeedFirst by (auto simp: os GetMmapData_def Let_def split: prod.splits)
    then show ?thesis
      using mmap_first_ok [OF ok(1) _ nm, of q2 q3 _ s1] mmap_first_err [OF ok(1), of q2 q3 _ s1]
        read_balance [OF ok(2), of s1] ok(1)
      by (cases r) (auto simp: sf_inv_def)
  qed
qed

section \<open>The interface and its clients\<close>

text \<open>The bytes a caller sees through \<open>GetMmapData\<close>.\<close>

definition mmap_bytes ::
  "outcome \<times> outcome \<times> outcome \<Rightarrow> segfile \<Rightarrow> (io_error + byte list) \<times> segfile" where
  "mmap_bytes os s =
     (case GetMmapData os s of
        (Inl e, s') \<Rightarrow> (Inl e, s')
      | (Inr d, s') \<Rightarrow> (Inr (slice_data d s'), s'))"

datatype store_op =
  DoAppend "outcome \<times> outcome \<times> outcome" "byte list"
| DoMap "outcome \<times> outcome \<times> outcome"

locale segment_store =
  fixes inv :: "'s \<Rightarrow> bool"
    and bytes :: "'s \<Rightarrow> byte list"
    and append :: "outcome \<times> outcome \<times> outcome \<Rightarrow> byte list \<Rightarrow> 's \<Rightarrow> (io_error + int \<times> int) \<times> 's"
    and mmap :: "outcome \<times> outcome \<times> outcome \<Rightarrow> 's \<Rightarrow> (io_error + byte list) \<times> 's"
  assumes append_ok: "inv s \<Longrightarrow> append os bs s = (Inr (off, len), s') \<Longrightarrow>
      inv s' \<and> bytes s' = bytes s @ bs \<and> off = int (length (bytes s)) \<and> len = int (length bs)"
    and append_err: "inv s \<Longrightarrow> append os bs s = (Inl e, s') \<Longrightarrow>
      inv s' \<and> (\<exists>n. bytes s' = bytes s @ take n bs)"
    and mmap_ok: "inv s \<Longrightarrow> mmap os s = (Inr d, s') \<Longrightarrow> inv s' \<and> bytes s' = bytes s \<and> d = bytes s"
    and mmap_err: "inv s \<Longrightarrow> mmap os s = (Inl e, s') \<Longrightarrow> inv s' \<and> bytes s' = bytes s"
begin

fun store_step :: "store_op \<Rightarrow> 's \<Rightarrow> 's" where
  "store_step (DoAppend os bs) s = snd (append os bs s)"
| "store_step (DoMap os) s = snd (mmap os s)"

lemma append_grows:
  "inv s \<Longrightarrow> inv (snd (append os bs s)) \<and> (\<exists>n. bytes (snd (append os bs s)) = bytes s @ take n bs)"
proof -
  assume s: "inv s"
  obtain r s' where r: "append os bs s = (r, s')" by fastforce
  show ?thesis
  proof (cases r)
    case (Inl e)
    then show ?thesis using append_err [OF s, of os bs e s'] r by simp
  next
    case (Inr p)
    obtain off len where "p = (off, len)" by fastforce
    then have "inv s'" "bytes s' = bytes s @ take (length bs) bs"
      using append_ok [OF s, of os bs off len s'] r Inr by simp_all
    then show ?thesis unfolding r snd_conv by blast
  qed
qed

lemma mmap_keeps: "inv s \<Longrightarrow> inv (snd (mmap os s)) \<and> bytes (snd (mmap os s)) = bytes s"
proof -
  assume s: "inv s"
  obtain r s' where r: "mmap os s = (r, s')" by fastforce
  show ?thesis
    using mmap_ok [OF s, of os _ s'] mmap_err [OF s, of os _ s'] r by (cases r) simp_all
qed

lemma store_step_grows:
  "inv s \<Longrightarrow> inv (store_step x s) \<and> (\<exists>suf. bytes (store_step x s) = bytes s @ suf)"
proof (cases x)
  case (DoAppend os bs)
  assume "inv s"
  from append_grows [OF this, of os bs] show ?thesis unfolding DoAppend store_step.simps by blast
next
  case (DoMap os)
  assume "inv s"
  from mmap_keeps [OF this, of os] show ?thesis unfolding DoMap store_step.simps by simp
qed

lemma store_run_grows:
  "inv s \<Longrightarrow> inv (fold store_step xs s) \<and> (\<exists>suf. bytes (fold store_step xs s) = bytes s @ suf)"
proof (induction xs arbitrary: s)
  case (Cons x xs)
  from store_step_grows [OF Cons.prems, of x] obtain suf where
    s1: "inv (store_step x s)" "bytes (store_step x s) = bytes s @ suf" by blast
  from Cons.IH [OF s1(1)] obtain suf' where
    "inv (fold store_step xs (store_step x s))"
    "bytes (fold store_step xs (store_step x s)) = bytes (store_step x s) @ suf'" by blast
  then show ?case using s1(2) by simp
qed simp

text \<open>
  What one append wrote is what every later mapping shows at the offset it returned, whatever
  is appended, mapped or fails in between.
\<close>

lemma appended_stays:
  assumes "inv s" "append os bs s = (Inr (off, len), s1)"
    and "mmap os' (fold store_step xs s1) = (Inr d, s2)"
  shows "0 \<le> off \<and> off + len \<le> int (length d) \<and> take (nat len) (drop (nat off) d) = bs"
proof -
  note a = append_ok [OF assms(1,2)]
  obtain suf where "bytes (fold store_step xs s1) = bytes s1 @ suf" "inv (fold store_step xs s1)"
    using store_run_grows [of s1 xs] a by auto
  with mmap_ok [OF _ assms(3)] have "d = bytes s @ bs @ suf" using a by simp
  then show ?thesis using a by simp
qed

end

lemma mmap_bytes_ok:
  "sf_inv s \<Longrightarrow> mmap_bytes os s = (Inr d, s') \<Longrightarrow> sf_inv s' \<and> sf_bytes s' = sf_bytes s \<and> d = sf_bytes s"
  using GetMmapData_spec [of s os] by (auto simp: mmap_bytes_def split: prod.splits sum.splits)

lemma mmap_bytes_err:
  "sf_inv s \<Longrightarrow> mmap_bytes os s = (Inl e, s') \<Longrightarrow> sf_inv s' \<and> sf_bytes s' = sf_bytes s"
  using GetMmapData_spec [of s os] by (auto simp: mmap_bytes_def split: prod.splits sum.splits)

text \<open>While the file is open and no call fails, mapping it succeeds.\<close>

definition all_done :: "outcome \<times> outcome \<times> outcome" where
  "all_done = (Done, Done, Done)"

lemma GetMmapData_closed: "sf_closed (snd (GetMmapData os s)) = sf_closed s"
proof -
  have b: "sf_closed (begin_read s) = sf_closed s" for s by (simp add: begin_read_def)
  have e: "sf_closed (end_read s) = sf_closed s" for s by (simp add: end_read_def)
  have u: "sf_closed (sys_munmap m s) = sf_closed s" for m s by (simp add: sys_munmap_def)
  have m: "sf_closed (snd (sys_mmap r n s)) = sf_closed s" for r n s
    by (cases r) (simp_all add: sys_mmap_def)
  have r: "sf_closed (snd (mmap_remap r n s)) = sf_closed s" for r n s
    using m [of r n "case mmapData s of None \<Rightarrow> s | Some m \<Rightarrow> sys_munmap m s"]
    by (auto simp: mmap_remap_def u Let_def split: option.splits prod.splits sum.splits)
  have f: "sf_closed (snd (mmap_first r n s)) = sf_closed s" for r n s
    using m [of n "sf_size s" s] sf_stat_cases [of r s]
    by (auto simp: mmap_first_def split: prod.splits sum.splits)
  show ?thesis
    using r f unfolding GetMmapData_def
    by (cases os) (auto simp: b e Let_def split: mmap_phase.splits prod.splits, (metis b snd_conv)+)
qed

lemma mmap_bytes_closed: "mmap_bytes os s = (r, s') \<Longrightarrow> sf_closed s' = sf_closed s"
  using GetMmapData_closed [of os s] by (auto simp: mmap_bytes_def split: prod.splits sum.splits)

lemma mmap_bytes_keeps:
  "sf_inv s \<Longrightarrow> mmap_bytes os s = (r, s') \<Longrightarrow> sf_inv s' \<and> sf_bytes s' = sf_bytes s \<and> sf_closed s' = sf_closed s"
  using mmap_bytes_ok [of s os _ s'] mmap_bytes_err [of s os _ s'] mmap_bytes_closed [of os s r s'] by (cases r) auto

lemma GetMmapData_done:
  assumes "\<not> sf_closed s"
  shows "\<exists>d. fst (GetMmapData all_done s) = Inr d"
proof -
  have stat: "sf_stat Done (begin_read s) = Inr (sf_size s)"
    using assms by (simp add: sf_stat_def begin_read_def sf_size_def)
  show ?thesis
    by (auto simp: GetMmapData_def all_done_def Let_def mmap_fast_def mmap_remap_def mmap_first_def
        sys_mmap_def stat split: prod.splits sum.splits mmap_phase.splits if_splits)
qed

lemma mmap_bytes_done:
  assumes "sf_inv s" "\<not> sf_closed s"
  obtains s' where "mmap_bytes all_done s = (Inr (sf_bytes s), s')" "sf_inv s'"
    "sf_bytes s' = sf_bytes s" "\<not> sf_closed s'"
proof -
  obtain x s1 where x: "GetMmapData all_done s = (x, s1)" by fastforce
  with GetMmapData_done [OF assms(2)] obtain d where "x = Inr d" by auto
  with x have "mmap_bytes all_done s = (Inr (slice_data d s1), s1)" by (simp add: mmap_bytes_def)
  with mmap_bytes_ok [OF assms(1) this] mmap_bytes_closed [OF this] assms(2) show thesis
    using that [of s1] by simp
qed

lemma sf_inv_grow: "sf_inv s \<Longrightarrow> sf_inv (s\<lparr>sf_bytes := sf_bytes s @ bs\<rparr>)"
  by (simp add: sf_inv_def mapping_ok_grow)

interpretation sf: segment_store sf_inv sf_bytes Append mmap_bytes
proof (unfold_locales, goal_cases)
  case (1 s os bs off len s')
  then show ?case using Append_ok [OF 1(2)] by (simp add: sf_inv_grow sf_size_def)
next
  case (2 s os bs e s')
  then show ?case using Append_err [OF 2(2)] sf_inv_grow by fastforce
qed (use mmap_bytes_ok mmap_bytes_err in blast)+

section \<open>Readers and writers interleaved\<close>

text \<open>
  Any number of goroutines call \<open>GetMmapData\<close> while others append. A goroutine is outside the
  method, has counted itself as a reader, has left the first section with a decision to remap
  or to map, or has returned and holds the slice.
\<close>

datatype reader_pc = Outside | Entered | WantRemap int | WantFirst | Holds mmap_slice

record system =
  sf :: segfile
  pcs :: "nat \<Rightarrow> reader_pc"

definition returned :: "io_error + mmap_slice \<Rightarrow> reader_pc" where
  "returned r = (case r of Inl e \<Rightarrow> Outside | Inr d \<Rightarrow> Holds d)"

inductive sys_step :: "system \<Rightarrow> system \<Rightarrow> bool" where
  enter: "pcs y t = Outside \<Longrightarrow>
     sys_step y (y\<lparr>sf := begin_read (sf y), pcs := (pcs y)(t := Entered)\<rparr>)"
| fast_done: "pcs y t = Entered \<Longrightarrow> mmap_fast o1 (sf y) = Finished r \<Longrightarrow>
     sys_step y (y\<lparr>sf := end_read (sf y), pcs := (pcs y)(t := returned r)\<rparr>)"
| fast_remap: "pcs y t = Entered \<Longrightarrow> mmap_fast o1 (sf y) = NeedRemap sz \<Longrightarrow>
     sys_step y (y\<lparr>pcs := (pcs y)(t := WantRemap sz)\<rparr>)"
| fast_first: "pcs y t = Entered \<Longrightarrow> mmap_fast o1 (sf y) = NeedFirst \<Longrightarrow>
     sys_step y (y\<lparr>pcs := (pcs y)(t := WantFirst)\<rparr>)"
| remap: "pcs y t = WantRemap sz \<Longrightarrow> mmap_remap o1 sz (sf y) = (r, s') \<Longrightarrow>
     sys_step y (y\<lparr>sf := end_read s', pcs := (pcs y)(t := returned r)\<rparr>)"
| first: "pcs y t = WantFirst \<Longrightarrow> mmap_first o1 o2 (sf y) = (r, s') \<Longrightarrow>
     sys_step y (y\<lparr>sf := end_read s', pcs := (pcs y)(t := returned r)\<rparr>)"
| leave: "pcs y t = Holds d \<Longrightarrow> sys_step y (y\<lparr>pcs := (pcs y)(t := Outside)\<rparr>)"
| append: "Append os bs (sf y) = (r, s') \<Longrightarrow> sys_step y (y\<lparr>sf := s'\<rparr>)"

definition sys_init :: "byte list \<Rightarrow> system" where
  "sys_init existing =
     \<lparr>sf = \<lparr>sf_bytes = existing, sf_closed = False, sf_removed = False, mmapData = None,
          mmappedSize = 0, isMMapped = False, activeReads = 0, live_maps = [], next_map = 0\<rparr>,
      pcs = (\<lambda>_. Outside)\<rparr>"

inductive sys_reach :: "byte list \<Rightarrow> system \<Rightarrow> bool" for existing where
  init: "sys_reach existing (sys_init existing)"
| step: "sys_reach existing y \<Longrightarrow> sys_step y z \<Longrightarrow> sys_reach existing z"

text \<open>
  The invariant: the file begins with what it held, the published mapping is well formed, and
  no slice in a goroutine's hands, nor one it has decided to map, reaches past the file.
\<close>

definition pc_ok :: "segfile \<Rightarrow> reader_pc \<Rightarrow> bool" where
  "pc_ok s p \<longleftrightarrow>
     (case p of WantRemap sz \<Rightarrow> 0 \<le> sz \<and> sz \<le> sf_size s
      | Holds d \<Rightarrow> (\<forall>m. d = Some m \<longrightarrow> int (map_len m) \<le> sf_size s)
      | _ \<Rightarrow> True)"

definition stale_ok :: "segfile \<Rightarrow> bool" where
  "stale_ok s \<longleftrightarrow> (\<forall>m. mmapData s = Some m \<longrightarrow> int (map_len m) \<le> sf_size s)"

definition sys_inv :: "byte list \<Rightarrow> system \<Rightarrow> bool" where
  "sys_inv existing y \<longleftrightarrow>
     mapping_ok (sf y) \<and> stale_ok (sf y) \<and> (\<exists>suf. sf_bytes (sf y) = existing @ suf) \<and>
     (\<forall>t. pc_ok (sf y) (pcs y t))"

lemma pc_ok_mono: "pc_ok s p \<Longrightarrow> sf_size s \<le> sf_size s' \<Longrightarrow> pc_ok s' p"
  by (auto simp: pc_ok_def split: reader_pc.splits)

lemma pc_ok_size: "sf_size s' = sf_size s \<Longrightarrow> pc_ok s' p = pc_ok s p"
  by (cases p) (simp_all add: pc_ok_def)

lemma reads_pc_ok [simp]:
  "pc_ok (begin_read s) p = pc_ok s p" "pc_ok (end_read s) p = pc_ok s p"
  "stale_ok (begin_read s) = stale_ok s" "stale_ok (end_read s) = stale_ok s"
  by (rule pc_ok_size, simp)+ (simp_all add: stale_ok_def, simp_all add: begin_read_def end_read_def)

lemma pc_ok_trivial [simp]: "pc_ok s Outside" "pc_ok s Entered" "pc_ok s WantFirst"
  by (simp_all add: pc_ok_def)

text \<open>What each section does to the invariant, whatever its outcome.\<close>

definition section_ok :: "segfile \<Rightarrow> io_error + mmap_slice \<Rightarrow> segfile \<Rightarrow> bool" where
  "section_ok s r s' \<longleftrightarrow>
     mapping_ok s' \<and> stale_ok s' \<and> sf_bytes s' = sf_bytes s \<and> pc_ok s' (returned r)"

lemma section_ok_cached:
  "mapping_ok s \<Longrightarrow> stale_ok s \<Longrightarrow> section_ok s (Inr (mmapData s)) s"
  by (simp add: section_ok_def pc_ok_def returned_def stale_ok_def)

lemma section_ok_failed:
  "mapping_ok s' \<Longrightarrow> stale_ok s' \<Longrightarrow> sf_bytes s' = sf_bytes s \<Longrightarrow> section_ok s (Inl e) s'"
  by (simp add: section_ok_def pc_ok_def returned_def)

lemma section_ok_published:
  assumes "\<forall>i \<in> set (live_maps s). i < next_map s" "0 \<le> sz" "sz \<le> sf_size s"
    "sys_mmap r sz s = (Inr m, s2)"
  shows "section_ok s (Inr (Some m)) (published m sz s2)"
  using mapping_ok_published [OF assms] sys_mmap_ok [OF assms(4)] assms(2,3)
  by (auto simp: section_ok_def stale_ok_def pc_ok_def returned_def published_def sf_size_def)

lemma section_ok_fast:
  assumes "mapping_ok s" "stale_ok s" "mmap_fast r s = Finished x"
  shows "section_ok s x s"
proof (cases x)
  case (Inl e)
  then show ?thesis using assms(1,2) by (simp add: section_ok_failed)
next
  case (Inr d)
  then have "d = mmapData s"
    using assms(3) by (auto simp: mmap_fast_def split: if_splits sum.splits)
  then show ?thesis using Inr assms(1,2) by (simp add: section_ok_cached)
qed

lemma section_ok_remap:
  assumes "mapping_ok s" "stale_ok s" "0 \<le> sz" "sz \<le> sf_size s" "mmap_remap r sz s = (x, s')"
  shows "section_ok s x s'"
proof (cases "sz \<le> mmappedSize s")
  case True
  then show ?thesis using assms by (auto simp: mmap_remap_def section_ok_cached)
next
  case False
  let ?s1 = "case mmapData s of None \<Rightarrow> s | Some m \<Rightarrow> sys_munmap m s"
  have s1: "\<forall>i \<in> set (live_maps ?s1). i < next_map ?s1" "sf_size ?s1 = sf_size s"
    "sf_bytes ?s1 = sf_bytes s" "mmapData ?s1 = mmapData s"
    using assms(1) by (auto simp: mapping_ok_def sys_munmap_def sf_size_def split: option.splits)
  obtain q s2 where q: "sys_mmap r sz ?s1 = (q, s2)" by fastforce
  show ?thesis
  proof (cases q)
    case (Inl e)
    then have "x = Inl e" "s' = ?s1\<lparr>isMMapped := False\<rparr>"
      using q False assms(5) sys_mmap_err [of r sz ?s1 e s2] by (auto simp: mmap_remap_def Let_def)
    moreover have "mapping_ok s'"
      using mmap_remap_err [OF assms(1)] assms(5) calculation(1) by blast
    ultimately show ?thesis
      using s1 assms(2) by (auto intro!: section_ok_failed simp: stale_ok_def sf_size_def)
  next
    case (Inr m)
    then have "x = Inr (Some m)" "s' = published m sz s2"
      using q False assms(5) by (auto simp: mmap_remap_def published_def Let_def)
    moreover have "section_ok ?s1 (Inr (Some m)) (published m sz s2)"
      using section_ok_published [OF s1(1) assms(3)] q Inr s1(2) assms(4) by simp
    ultimately show ?thesis using s1(3) by (simp add: section_ok_def)
  qed
qed

lemma section_ok_first:
  assumes "mapping_ok s" "stale_ok s" "mmap_first r r' s = (x, s')"
  shows "section_ok s x s'"
proof (cases x)
  case (Inl e)
  then have "s' = s"
    using assms(3) by (auto simp: mmap_first_def dest: sys_mmap_err split: prod.splits sum.splits if_splits)
  then show ?thesis using Inl assms(1,2) by (simp add: section_ok_failed)
next
  case (Inr d)
  show ?thesis
  proof (cases "isMMapped s \<and> mmapData s \<noteq> None")
    case True
    then have "d = mmapData s" "s' = s" using assms(3) Inr by (auto simp: mmap_first_def)
    then show ?thesis using Inr assms(1,2) by (simp add: section_ok_cached)
  next
    case not_mapped: False
    have stat: "sf_stat r s = Inr (sf_size s)"
      using assms(3) Inr not_mapped sf_stat_cases [of r s] by (auto simp: mmap_first_def)
    show ?thesis
    proof (cases "sf_size s = 0")
      case True
      then have "d = None" "s' = s" using assms(3) Inr not_mapped stat by (auto simp: mmap_first_def)
      then show ?thesis
        using Inr assms(1,2) by (simp add: section_ok_def pc_ok_def returned_def)
    next
      case False
      obtain q s2 where q: "sys_mmap r' (sf_size s) s = (q, s2)" by fastforce
      then obtain m where m: "q = Inr m" "d = Some m" "s' = published m (sf_size s) s2"
        using assms(3) Inr not_mapped False stat by (cases q) (auto simp: mmap_first_def published_def)
      have "\<forall>i \<in> set (live_maps s). i < next_map s" using assms(1) by (simp add: mapping_ok_def)
      then show ?thesis
        using section_ok_published [of s "sf_size s" r' m s2] q m Inr by (simp add: sf_size_def)
    qed
  qed
qed

lemma sys_inv_section:
  assumes "sys_inv existing y" "section_ok (sf y) r s'"
  shows "sys_inv existing (y\<lparr>sf := end_read s', pcs := (pcs y)(t := returned r)\<rparr>)"
proof -
  have "sf_size s' = sf_size (sf y)" using assms(2) by (simp add: section_ok_def sf_size_def)
  then show ?thesis
    using assms by (simp add: sys_inv_def section_ok_def pc_ok_size [of s' "sf y"])
qed

lemma sys_step_inv: "sys_step y z \<Longrightarrow> sys_inv existing y \<Longrightarrow> sys_inv existing z"
proof (induction rule: sys_step.induct)
  case (enter y t)
  then show ?case by (simp add: sys_inv_def)
next
  case (fast_done y t o1 r)
  then show ?case
    using sys_inv_section [of existing y r "sf y"] section_ok_fast [of "sf y" o1 r]
    by (simp add: sys_inv_def)
next
  case (fast_remap y t o1 sz)
  then have "pc_ok (sf y) (WantRemap sz)"
    using mmap_fast_remap [of o1 "sf y" sz] by (simp add: pc_ok_def sf_size_def)
  with fast_remap show ?case by (simp add: sys_inv_def)
next
  case (remap y t sz o1 r s')
  then have "0 \<le> sz" "sz \<le> sf_size (sf y)" by (auto simp: sys_inv_def pc_ok_def dest: spec [of _ t])
  with remap show ?case
    using sys_inv_section [of existing y r s'] section_ok_remap [of "sf y" sz o1 r s']
    by (simp add: sys_inv_def)
next
  case (first y t o1 o2 r s')
  then show ?case
    using sys_inv_section [of existing y r s'] section_ok_first [of "sf y" o1 o2 r s']
    by (simp add: sys_inv_def)
next
  case (append os bs y r s')
  then obtain suf where "s' = (sf y)\<lparr>sf_bytes := sf_bytes (sf y) @ suf\<rparr>"
    using Append_err [of os bs "sf y"] Append_ok(1) [of os bs "sf y"] by (cases r) fastforce+
  then show ?case
    using append.prems
    by (auto simp: sys_inv_def mapping_ok_grow stale_ok_def sf_size_def intro: pc_ok_mono)
qed (auto simp: sys_inv_def pc_ok_def)

lemma sys_inv_init: "sys_inv existing (sys_init existing)"
  by (simp add: sys_inv_def sys_init_def mapping_ok_def stale_ok_def pc_ok_def sf_size_def)

lemma sys_reach_inv: "sys_reach existing y \<Longrightarrow> sys_inv existing y"
  by (induction rule: sys_reach.induct) (auto intro: sys_inv_init sys_step_inv)

section \<open>Properties\<close>

definition fresh_file :: "byte list \<Rightarrow> segfile" where
  "fresh_file existing = (case NewSegmentFileManager Done existing of Inr s \<Rightarrow> s | Inl _ \<Rightarrow> sf (sys_init existing))"

lemma fresh_file_inv: "sf_inv (fresh_file existing)" "\<not> sf_closed (fresh_file existing)"
  "sf_bytes (fresh_file existing) = existing"
  using sf_inv_New [of Done existing] by (simp_all add: fresh_file_def)

text \<open>C22: Appended data is durable in the file manager: the bytes of an append that succeeded are
  what every later mapping of the file shows at the returned offset and length, whatever is
  appended or mapped in between and whichever of those calls fail.\<close>

theorem appended_bytes_stay:
  assumes "sf_inv s" "Append os bs s = (Inr (off, len), s1)"
    and "mmap_bytes os' (fold sf.store_step xs s1) = (Inr d, s2)"
  shows "0 \<le> off \<and> off + len \<le> int (length d) \<and> take (nat len) (drop (nat off) d) = bs"
  by (rule sf.appended_stays [OF assms])

lemma appended_bytes_stay_witness:
  "\<exists>d s2. mmap_bytes all_done (fold sf.store_step [DoMap all_done, DoAppend (Done, Fault 2, Done) [6, 7, 8]]
       (snd (Append all_done [4, 5] (fresh_file [9])))) = (Inr d, s2) \<and> take 2 (drop 1 d) = [4, 5]"
proof -
  let ?ap = "Append all_done [4, 5] (fresh_file [9])"
  let ?s = "fold sf.store_step [DoMap all_done, DoAppend (Done, Fault 2, Done) [6, 7, 8]] (snd ?ap)"
  have ap: "?ap = (Inr (1, 2), snd ?ap)"
    by (simp add: fresh_file_def Append_def all_done_def sf_stat_def sf_size_def)
  obtain d s2 where m: "mmap_bytes all_done ?s = (Inr d, s2)"
    by (simp add: fresh_file_def Append_def all_done_def sf_stat_def sf_size_def mmap_bytes_def GetMmapData_def
        mmap_fast_def mmap_first_def mmap_remap_def sys_mmap_def sys_munmap_def begin_read_def end_read_def Let_def)
  from appended_bytes_stay [OF fresh_file_inv(1) ap m] have "take 2 (drop 1 d) = [4, 5]" by simp
  with m show ?thesis by blast
qed

text \<open>A mapping that is obtained without interference shows the whole file, however the calls
  before it succeeded or failed.\<close>

theorem mapping_shows_whole_file:
  assumes "sf_inv s" "GetMmapData os (fold sf.store_step xs s) = (Inr d, s')"
  shows "slice_live d s' \<and> slice_data d s' = sf_bytes (fold sf.store_step xs s)"
proof -
  have "sf_inv (fold sf.store_step xs s)" using sf.store_run_grows [OF assms(1), of xs] by simp
  from GetMmapData_spec [OF this assms(2)] show ?thesis by simp
qed

lemma mapping_shows_whole_file_witness:
  "\<exists>d s'. GetMmapData all_done (fold sf.store_step [] (fresh_file [9])) = (Inr d, s') \<and> slice_data d s' = [9]"
proof -
  obtain d s' where m: "GetMmapData all_done (fold sf.store_step [] (fresh_file [9])) = (Inr d, s')"
    by (simp add: fresh_file_def all_done_def sf_stat_def sf_size_def GetMmapData_def mmap_fast_def mmap_first_def
        sys_mmap_def begin_read_def end_read_def Let_def)
  from mapping_shows_whole_file [OF fresh_file_inv(1) m] m show ?thesis
    by (auto simp: fresh_file_inv(3))
qed

text \<open>C23: However readers and writers interleave, the file only grows, a published mapping is one
  that exists and covers what \<^verbatim>\<open>mmappedSize\<close> says, and no slice a reader was given reaches
  beyond the end of the file.\<close>

theorem interleaved_readers_in_bounds:
  assumes "sys_reach existing y"
  shows "take (length existing) (sf_bytes (sf y)) = existing \<and>
    (isMMapped (sf y) \<longrightarrow> (\<exists>m. mmapData (sf y) = Some m \<and> map_id m \<in> set (live_maps (sf y)) \<and>
       int (map_len m) = mmappedSize (sf y) \<and> mmappedSize (sf y) \<le> sf_size (sf y))) \<and>
    (\<forall>t m. pcs y t = Holds (Some m) \<longrightarrow> int (map_len m) \<le> sf_size (sf y))"
proof -
  have inv: "sys_inv existing y" by (rule sys_reach_inv [OF assms])
  have "int (map_len m) \<le> sf_size (sf y)" if "pcs y t = Holds (Some m)" for t m
  proof -
    have "pc_ok (sf y) (pcs y t)" using inv by (simp add: sys_inv_def)
    then show ?thesis unfolding that by (simp add: pc_ok_def)
  qed
  then show ?thesis using inv by (auto simp: sys_inv_def mapping_ok_def)
qed

text \<open>A schedule in which the second reader finds the file grown and maps it anew.\<close>

definition grown :: segfile where
  "grown = \<lparr>sf_bytes = [1, 2], sf_closed = False, sf_removed = False,
     mmapData = Some \<lparr>map_id = 0, map_len = 1\<rparr>, mmappedSize = 1, isMMapped = True, activeReads = 0,
     live_maps = [0], next_map = 1\<rparr>"

lemmas sys_eval = sys_init_def begin_read_def end_read_def mmap_fast_def mmap_first_def mmap_remap_def
  sys_mmap_def sys_munmap_def sf_stat_def sf_size_def returned_def i32_def Append_def

lemma first_reader:
  "sys_reach [1] \<lparr>sf = grown, pcs = (\<lambda>_. Outside)(0 := Holds (Some \<lparr>map_id = 0, map_len = 1\<rparr>))\<rparr>"
proof -
  let ?i = "sys_init [1]"
  let ?s1 = "?i\<lparr>sf := begin_read (sf ?i), pcs := (pcs ?i)(0 := Entered)\<rparr>"
  let ?s2 = "?s1\<lparr>pcs := (pcs ?s1)(0 := WantFirst)\<rparr>"
  let ?r = "mmap_first Done Done (sf ?s2)"
  let ?s3 = "?s2\<lparr>sf := end_read (snd ?r), pcs := (pcs ?s2)(0 := returned (fst ?r))\<rparr>"
  let ?s4 = "?s3\<lparr>sf := snd (Append all_done [2] (sf ?s3))\<rparr>"
  have "sys_reach [1] ?s1" by (rule sys_reach.step [OF sys_reach.init enter]) (simp add: sys_eval)
  then have "sys_reach [1] ?s2" by (rule sys_reach.step) (rule fast_first [where ?o1.0 = Done]; simp add: sys_eval)
  then have "sys_reach [1] ?s3" by (rule sys_reach.step) (rule first [where ?o1.0 = Done and ?o2.0 = Done]; simp)
  then have "sys_reach [1] ?s4" by (rule sys_reach.step) (rule append [where bs = "[2]" and os = all_done], rule prod.collapse [symmetric])
  moreover have "?s4 = \<lparr>sf = grown, pcs = (\<lambda>_. Outside)(0 := Holds (Some \<lparr>map_id = 0, map_len = 1\<rparr>))\<rparr>"
    by (simp add: sys_eval grown_def all_done_def)
  ultimately show ?thesis by simp
qed

lemma interleaved_readers_in_bounds_witness: "take 1 (sf_bytes grown) = [1] \<and> mmappedSize grown \<le> sf_size grown"
  using interleaved_readers_in_bounds [OF first_reader] by (simp add: grown_def sf_size_def)

text \<open>C39: A reader can be left with a slice of a mapping that is gone: two readers and one append are
  enough, because the count of active readers goes down when \<^verbatim>\<open>GetMmapData\<close> returns and not
  when the caller is done with the slice, and remapping does not wait for it.\<close>

theorem reader_slice_can_dangle:
  "\<exists>y m. sys_reach [1] y \<and> pcs y 0 = Holds (Some m) \<and> map_id m \<notin> set (live_maps (sf y))"
proof -
  let ?i = "\<lparr>sf = grown, pcs = (\<lambda>_. Outside)(0 := Holds (Some \<lparr>map_id = 0, map_len = 1\<rparr>))\<rparr>"
  let ?s1 = "?i\<lparr>sf := begin_read (sf ?i), pcs := (pcs ?i)(1 := Entered)\<rparr>"
  let ?s2 = "?s1\<lparr>pcs := (pcs ?s1)(1 := WantRemap 2)\<rparr>"
  let ?r = "mmap_remap Done 2 (sf ?s2)"
  let ?s3 = "?s2\<lparr>sf := end_read (snd ?r), pcs := (pcs ?s2)(1 := returned (fst ?r))\<rparr>"
  have "sys_reach [1] ?s1" by (rule sys_reach.step [OF first_reader enter]) simp
  then have "sys_reach [1] ?s2"
    by (rule sys_reach.step) (rule fast_remap [where ?o1.0 = Done]; simp add: sys_eval grown_def)
  then have "sys_reach [1] ?s3" by (rule sys_reach.step) (rule remap [where ?o1.0 = Done and sz = 2]; simp)
  moreover have "pcs ?s3 0 = Holds (Some \<lparr>map_id = 0, map_len = 1\<rparr>)" by simp
  moreover have "map_id \<lparr>map_id = 0, map_len = 1\<rparr> \<notin> set (live_maps (sf ?s3))"
    by (simp add: sys_eval grown_def)
  ultimately show ?thesis by blast
qed

end
