(* ===== verification/Sstable_Writer.thy ===== *)
theory Sstable_Writer
  imports Common_Types Segment_File
begin

text \<open>
  \<^verbatim>\<open>internal/sstable/writer/writer.go\<close>: a sorted run of entries becomes one segment image
  (header, entries, sparse index, footer) that is appended to the data file. The identifier
  comes from \<^verbatim>\<open>github.com/google/uuid\<close> and the time from the clock; both are arguments. The
  lemmas say where in the file each entry is and that the metadata describes it.
\<close>

text \<open>The package-level counters of the writer and of the reader.\<close>

record counters =
  GlobalPhysicalWriteBytes :: int
  GlobalCompactionWriteBytes :: int
  GlobalReadComparisons :: int

definition zero_counters :: counters where
  "zero_counters = \<lparr>GlobalPhysicalWriteBytes = 0, GlobalCompactionWriteBytes = 0,
     GlobalReadComparisons = 0\<rparr>"

definition write_string :: "gostring \<Rightarrow> byte list" where
  "write_string s = put_u32 (u32_len s) @ s"

fun strategy_byte :: "CompactionType \<Rightarrow> byte" where
  "strategy_byte TIERED = 0"
| "strategy_byte LEVELED = 1"

text \<open>
  The loop over the entries: it appends each frame to the buffer and records the key and the
  offset relative to the start of the data.
\<close>

fun write_entries ::
  "int \<Rightarrow> kv_entry list \<Rightarrow> byte list \<times> gostring list \<times> int list \<Rightarrow>
   byte list \<times> gostring list \<times> int list" where
  "write_entries start [] st = st"
| "write_entries start (e # es) (buf, keys, offs) =
     write_entries start es
       (buf @ frame_header (Key e) (Value e) (Tombstone e) @ Key e @ slice_bytes (Value e),
        keys @ [Key e],
        offs @ [i64 (int (length buf) - start)])"

text \<open>The loop over the sparse index; a missing offset would be an index panic.\<close>

fun write_index :: "gostring list \<Rightarrow> int list \<Rightarrow> byte list \<Rightarrow> byte list option" where
  "write_index [] offs buf = Some buf"
| "write_index (k # ks) [] buf = None"
| "write_index (k # ks) (off # offs) buf =
     write_index ks offs (buf @ put_u32 (u32_len k) @ k @ put_u64 (word_of_int off))"

record image =
  img_bytes :: "byte list"
  img_sparse :: sparse_index
  img_data :: int
  img_index :: int

text \<open>The buffer of a non-empty run, with the offsets that the metadata records.\<close>

definition segment_image ::
  "sparse_builder \<Rightarrow> gostring \<Rightarrow> kv_entry list \<Rightarrow> CompactionType \<Rightarrow> image option" where
  "segment_image b segmentID sortedData strategy =
     (let minKey = Key (hd sortedData);
          maxKey = Key (last sortedData);
          hdr = write_string segmentID @ write_string minKey @ write_string maxKey
                @ [strategy_byte strategy] @ put_u64 (of_nat (length sortedData));
          dataStart = int (length hdr);
          (buf, keys, offs) = write_entries dataStart sortedData (hdr, [], [])
      in case Build b keys offs of
           None \<Rightarrow> None
         | Some sparse \<Rightarrow>
             (case write_index (Keys sparse) (Offsets sparse) buf of
                None \<Rightarrow> None
              | Some buf' \<Rightarrow>
                  Some \<lparr>img_bytes = buf' @ put_u64 (of_nat (length buf)), img_sparse = sparse,
                        img_data = dataStart, img_index = int (length buf)\<rparr>))"

text \<open>
  The outer \<open>None\<close> is a panic; \<open>Inr None\<close> is the nil segment returned for an empty run.
\<close>

definition WriteSegment ::
  "sparse_builder \<Rightarrow> outcome \<times> outcome \<times> outcome \<Rightarrow> gostring \<Rightarrow> int \<Rightarrow>
   kv_entry list \<Rightarrow> CompactionType \<Rightarrow> int \<Rightarrow> segfile \<Rightarrow> counters \<Rightarrow>
   ((io_error + segment_meta option) \<times> segfile \<times> counters) option" where
  "WriteSegment b os segmentID now sortedData strategy level s g =
     (if sortedData = [] then Some (Inr None, s, g)
      else
        case segment_image b segmentID sortedData strategy of
          None \<Rightarrow> None
        | Some img \<Rightarrow>
            (case Append os (img_bytes img) s of
               (Inl e, s') \<Rightarrow> Some (Inl e, s', g)
             | (Inr (off, len), s') \<Rightarrow>
                 let g' = (if level = 0
                           then g\<lparr>GlobalPhysicalWriteBytes := i64 (GlobalPhysicalWriteBytes g + len)\<rparr>
                           else g\<lparr>GlobalCompactionWriteBytes := i64 (GlobalCompactionWriteBytes g + len)\<rparr>);
                     meta = \<lparr>ID = segmentID, Level = level, Offset = off, Length = len,
                             MinKey = Key (hd sortedData), MaxKey = Key (last sortedData),
                             Strategy = strategy, readCount = 0, writeCount = 0, OverlapCount = 0,
                             TotalComparisons = 0, CreatedAt = now, lastRewriteAt = 0,
                             obsolete = False, InCompaction = False, SparseIndex = Some (img_sparse img),
                             DataStartOffset = img_data img, SparseIndexOffset = img_index img\<rparr>
                 in Some (Inr (Some (UpdateLastRewriteAt now meta)), s', g')))"

section \<open>Where the entries are\<close>

definition kv_frame :: "kv_entry \<Rightarrow> byte list" where
  "kv_frame e = frame (Key e) (Value e) (Tombstone e)"

definition frames :: "kv_entry list \<Rightarrow> byte list" where
  "frames es = concat (map kv_frame es)"

lemma frames_simps [simp]:
  "frames [] = []" "frames (e # es) = kv_frame e @ frames es" "frames (xs @ ys) = frames xs @ frames ys"
  by (simp_all add: frames_def)

lemma kv_frame_not_Nil [simp]: "kv_frame e \<noteq> []"
  by (simp add: kv_frame_def)

definition entry_offset :: "kv_entry list \<Rightarrow> nat \<Rightarrow> int" where
  "entry_offset es i = int (length (frames (take i es)))"

lemma frames_drop: "drop (length (frames (take i es))) (frames es) = frames (drop i es)"
  by (metis append_eq_conv_conj append_take_drop_id frames_simps(3))

lemma entry_offset_le: "entry_offset es i \<le> int (length (frames es))"
proof -
  have "frames es = frames (take i es) @ frames (drop i es)"
    by (metis append_take_drop_id frames_simps(3))
  then show ?thesis by (simp add: entry_offset_def)
qed

lemma write_entries_spec:
  assumes "start \<le> int (length buf)" "int (length buf) - start + int (length (frames es)) < 2 ^ 63"
  shows "write_entries start es (buf, keys, offs) =
    (buf @ frames es, keys @ map Key es,
     offs @ map (\<lambda>i. int (length buf) - start + entry_offset es i) [0..<length es])"
  using assms
proof (induction es arbitrary: buf keys offs)
  case (Cons e es)
  have here: "i64 (int (length buf) - start) = int (length buf) - start"
    using Cons.prems by (intro i64_id) auto
  have fr: "frame_header (Key e) (Value e) (Tombstone e) @ Key e @ slice_bytes (Value e) = kv_frame e"
    by (simp add: kv_frame_def frame_def)
  have "int (length buf) + int (length (kv_frame e)) - start + entry_offset es i
    = int (length buf) - start + entry_offset (e # es) (Suc i)" for i
    by (simp add: entry_offset_def)
  then have shift: "map (\<lambda>i. int (length buf) + int (length (kv_frame e)) - start + entry_offset es i) [0..<length es]
    = map (\<lambda>i. int (length buf) - start + entry_offset (e # es) i) [Suc 0..<Suc (length es)]"
    by (simp only: map_Suc_upt [symmetric] map_map comp_def)
  show ?case
    using Cons.IH [of "buf @ kv_frame e" "keys @ [Key e]" "offs @ [int (length buf) - start]"] Cons.prems
    by (simp add: fr here upt_conv_Cons shift entry_offset_def [of _ 0] del: upt_Suc)
qed simp

lemma write_index_Some:
  "length offs = length ks \<Longrightarrow> \<exists>suf. write_index ks offs buf = Some (buf @ suf)"
proof (induction ks arbitrary: offs buf)
  case (Cons k ks)
  then obtain off offs' where "offs = off # offs'" "length offs' = length ks"
    by (cases offs) auto
  then show ?case
    using Cons.IH [of offs' "buf @ put_u32 (u32_len k) @ k @ put_u64 (word_of_int off)"] by auto
qed simp

text \<open>
  A segment's metadata describes a run in a file: the bytes between the two offsets are its
  frames, the key range is its own, and the index samples it.
\<close>

definition sampled_index :: "sparse_builder \<Rightarrow> kv_entry list \<Rightarrow> sparse_index" where
  "sampled_index b es =
     \<lparr>Keys = map (\<lambda>i. Key (es ! i)) (sampled b (length es)),
      Offsets = map (entry_offset es) (sampled b (length es))\<rparr>"

definition seg_holds :: "sparse_builder \<Rightarrow> byte list \<Rightarrow> segment_meta \<Rightarrow> kv_entry list \<Rightarrow> bool" where
  "seg_holds b bytes meta es \<longleftrightarrow>
     0 < stride b \<and> es \<noteq> [] \<and> sorted_run es \<and> int (length bytes) < 2 ^ 63 \<and>
     MinKey meta = Key (hd es) \<and> MaxKey meta = Key (last es) \<and>
     SparseIndex meta = Some (sampled_index b es) \<and>
     0 \<le> Offset meta \<and> 0 < Length meta \<and> Offset meta + Length meta \<le> int (length bytes) \<and>
     0 \<le> DataStartOffset meta \<and> DataStartOffset meta \<le> SparseIndexOffset meta \<and>
     SparseIndexOffset meta \<le> Length meta \<and>
     SparseIndexOffset meta - DataStartOffset meta = int (length (frames es)) \<and>
     take (length (frames es)) (drop (nat (Offset meta + DataStartOffset meta)) bytes) = frames es"

text \<open>Appending to the file keeps what it holds.\<close>

lemma seg_holds_append:
  assumes "seg_holds b bytes meta es" "int (length (bytes @ suf)) < 2 ^ 63"
  shows "seg_holds b (bytes @ suf) meta es"
proof -
  have "nat (Offset meta + DataStartOffset meta) + length (frames es) \<le> length bytes"
    using assms(1) by (auto simp: seg_holds_def)
  then have "take (length (frames es)) (drop (nat (Offset meta + DataStartOffset meta)) (bytes @ suf))
    = take (length (frames es)) (drop (nat (Offset meta + DataStartOffset meta)) bytes)"
    by simp
  then show ?thesis using assms unfolding seg_holds_def by auto
qed

lemma segment_image_ok:
  assumes "0 < stride b" "es \<noteq> []" "int (length (frames es)) < 2 ^ 63"
  obtains hdr idx where
    "segment_image b uid es strategy =
       Some \<lparr>img_bytes = hdr @ frames es @ idx, img_sparse = sampled_index b es,
             img_data = int (length hdr), img_index = int (length hdr) + int (length (frames es))\<rparr>"
    "idx \<noteq> []"
proof -
  define hdr where "hdr = write_string uid @ write_string (Key (hd es)) @ write_string (Key (last es))
    @ [strategy_byte strategy] @ put_u64 (of_nat (length es))"
  have we: "write_entries (int (length hdr)) es (hdr, [], [])
    = (hdr @ frames es, map Key es, map (entry_offset es) [0..<length es])"
    using write_entries_spec [of "int (length hdr)" hdr es "[]" "[]"] assms(3) by simp
  have at: "map (nth (map Key es)) (sampled b (length es)) = map (\<lambda>i. Key (es ! i)) (sampled b (length es))"
    "map (nth (map (entry_offset es) [0..<length es])) (sampled b (length es))
       = map (entry_offset es) (sampled b (length es))"
    by (auto dest: sampled_less)
  have build: "Build b (map Key es) (map (entry_offset es) [0..<length es]) = Some (sampled_index b es)"
    using Build_samples [OF assms(1), of "map (entry_offset es) [0..<length es]" "map Key es"]
    by (simp add: at sampled_index_def)
  obtain suf where suf: "write_index (Keys (sampled_index b es)) (Offsets (sampled_index b es)) (hdr @ frames es)
    = Some ((hdr @ frames es) @ suf)"
    using write_index_Some [of "Offsets (sampled_index b es)" "Keys (sampled_index b es)" "hdr @ frames es"]
    by (auto simp: sampled_index_def)
  have "segment_image b uid es strategy =
       Some \<lparr>img_bytes = hdr @ frames es @ (suf @ put_u64 (of_nat (length (hdr @ frames es)))),
             img_sparse = sampled_index b es,
             img_data = int (length hdr), img_index = int (length hdr) + int (length (frames es))\<rparr>"
    using we build suf unfolding segment_image_def Let_def hdr_def by simp
  then show thesis by (rule that) simp
qed

lemma WriteSegment_ok:
  assumes "0 < stride b" "es \<noteq> []" "sorted_run es" "int (length (frames es)) < 2 ^ 63"
    and "WriteSegment b os uid now es strategy level s g = Some (Inr (Some meta), s', g')"
    and "int (length (sf_bytes s')) < 2 ^ 63"
  shows "seg_holds b (sf_bytes s') meta es \<and> (\<exists>suf. s' = s\<lparr>sf_bytes := sf_bytes s @ suf\<rparr>) \<and>
    ID meta = uid \<and> Level meta = level \<and> Strategy meta = strategy \<and> CreatedAt meta = now \<and>
    lastRewriteAt meta = now \<and> \<not> obsolete meta \<and> \<not> InCompaction meta \<and>
    readCount meta = 0 \<and> writeCount meta = 0 \<and> TotalComparisons meta = 0 \<and>
    Offset meta = sf_size s \<and> Offset meta + Length meta = sf_size s'"
proof -
  obtain hdr idx where img: "segment_image b uid es strategy =
       Some \<lparr>img_bytes = hdr @ frames es @ idx, img_sparse = sampled_index b es,
             img_data = int (length hdr), img_index = int (length hdr) + int (length (frames es))\<rparr>"
    "idx \<noteq> []"
    by (rule segment_image_ok [OF assms(1,2,4)])
  obtain off len where ap: "Append os (hdr @ frames es @ idx) s = (Inr (off, len), s')"
    and meta: "meta = UpdateLastRewriteAt now
        \<lparr>ID = uid, Level = level, Offset = off, Length = len,
         MinKey = Key (hd es), MaxKey = Key (last es),
         Strategy = strategy, readCount = 0, writeCount = 0, OverlapCount = 0,
         TotalComparisons = 0, CreatedAt = now, lastRewriteAt = 0,
         obsolete = False, InCompaction = False, SparseIndex = Some (sampled_index b es),
         DataStartOffset = int (length hdr),
         SparseIndexOffset = int (length hdr) + int (length (frames es))\<rparr>"
    using assms(2,5) img(1) by (auto simp: WriteSegment_def Let_def split: prod.splits sum.splits)
  note a = Append_ok [OF ap]
  have pos: "0 < int (length hdr) + (int (length (frames es)) + int (length idx))"
    using img(2) by (simp add: add_nonneg_pos)
  show ?thesis
    using assms(1-3,6) unfolding meta
    by (auto simp: pos seg_holds_def UpdateLastRewriteAt_def a sf_size_def nat_add_distrib)
qed

lemma WriteSegment_total:
  assumes "0 < stride b" "int (length (frames es)) < 2 ^ 63"
  shows "WriteSegment b os uid now es strategy level s g \<noteq> None"
proof (cases "es = []")
  case False
  then obtain img where "segment_image b uid es strategy = Some img"
    by (rule segment_image_ok [OF assms(1) _ assms(2), of uid strategy]) blast
  then show ?thesis
    using False by (auto simp: WriteSegment_def Let_def split: prod.splits sum.splits)
qed (simp add: WriteSegment_def)

lemma WriteSegment_result:
  assumes "WriteSegment b os uid now es strategy level s g = Some (Inr None, s', g')"
  shows "es = [] \<and> s' = s \<and> g' = g"
  using assms by (auto simp: WriteSegment_def Let_def split: if_splits option.splits prod.splits sum.splits)

lemma WriteSegment_error:
  assumes "WriteSegment b os uid now es strategy level s g = Some (Inl e, s', g')"
  shows "g' = g \<and> (\<exists>suf. s' = s\<lparr>sf_bytes := sf_bytes s @ suf\<rparr>)"
  using assms Append_err
  by (fastforce simp: WriteSegment_def Let_def split: if_splits option.splits prod.splits sum.splits)

end
