(* ===== verification/Engine.thy ===== *)
theory Engine
  imports Wal Sstable_Writer
begin

text \<open>
  \<^verbatim>\<open>internal/engine/engine.go\<close>: the write path from the log through the memtable to a segment.
  The outcomes of the system calls, the new identifier and the clock are arguments. The lemmas
  relate what the log would replay to what the memtable holds.
\<close>

record engine =
  e_wal :: diskWAL
  e_mem :: memtable
  e_sfm :: segfile
  e_writer :: sparse_builder
  e_counters :: counters

definition NewEngine ::
  "diskWAL \<Rightarrow> memtable \<Rightarrow> segfile \<Rightarrow> sparse_builder \<Rightarrow> counters \<Rightarrow> engine" where
  "NewEngine w m s sw g =
     \<lparr>e_wal = w, e_mem = m, e_sfm = s, e_writer = sw, e_counters = g\<rparr>"

datatype engine_error =
  WalLogFailure io_error
| SstWriteFailure io_error
| WalCleanupFailure io_error

text \<open>What one call of the engine gets from its environment.\<close>

record engine_env =
  log_outcomes :: "outcome \<times> outcome \<times> outcome"
  append_outcomes :: "outcome \<times> outcome \<times> outcome"
  trunc_outcome :: outcome
  seek_outcome :: outcome
  new_uuid :: gostring
  now :: int

text \<open>
  \<^verbatim>\<open>ExecuteFlush\<close>: the segment's metadata is dropped. The outer \<open>None\<close> is a panic of the writer.
\<close>

definition ExecuteFlush :: "engine_env \<Rightarrow> engine \<Rightarrow> (engine_error option \<times> engine) option" where
  "ExecuteFlush env e =
     (case Flush (e_mem e) of (entries, mem') \<Rightarrow>
        (case WriteSegment (e_writer e) (append_outcomes env) (new_uuid env) (now env)
                entries TIERED 0 (e_sfm e) (e_counters e) of
           None \<Rightarrow> None
         | Some (r, s', g') \<Rightarrow>
             let e1 = e\<lparr>e_mem := mem', e_sfm := s', e_counters := g'\<rparr>
             in (case r of
                   Inl err \<Rightarrow> Some (Some (SstWriteFailure err), e1)
                 | Inr meta \<Rightarrow>
                     (case Truncate (trunc_outcome env) (seek_outcome env) (e_wal e1) of
                        (Some err, w') \<Rightarrow> Some (Some (WalCleanupFailure err), e1\<lparr>e_wal := w'\<rparr>)
                      | (None, w') \<Rightarrow> Some (None, e1\<lparr>e_wal := w'\<rparr>)))))"

definition engine_Put ::
  "engine_env \<Rightarrow> gostring \<Rightarrow> slice \<Rightarrow> engine \<Rightarrow> (engine_error option \<times> engine) option" where
  "engine_Put env key value e =
     (case LogPut (log_outcomes env) key value (e_wal e) of
        (Some err, w') \<Rightarrow> Some (Some (WalLogFailure err), e\<lparr>e_wal := w'\<rparr>)
      | (None, w') \<Rightarrow>
          let e1 = e\<lparr>e_wal := w', e_mem := Put key value (e_mem e)\<rparr>
          in if ShouldFlush (e_mem e1) then ExecuteFlush env e1 else Some (None, e1))"

text \<open>A run of puts, continued after errors as a caller may.\<close>

fun engine_run :: "(engine_env \<times> gostring \<times> slice) list \<Rightarrow> engine \<Rightarrow> engine option" where
  "engine_run [] e = Some e"
| "engine_run ((env, k, v) # xs) e =
     (case engine_Put env k v e of None \<Rightarrow> None | Some (r, e') \<Rightarrow> engine_run xs e')"

section \<open>The log covers the memtable\<close>

text \<open>What the log would replay into an empty memtable.\<close>

definition recovered :: "diskWAL \<Rightarrow> memtable" where
  "recovered w =
     (case fst (ReadAll Done no_fault w) of
        Inl e \<Rightarrow> NewMemtable 0
      | Inr es \<Rightarrow> fold (perform Put Delete) (map replay_op es) (NewMemtable 0))"

definition log_covers :: "engine \<Rightarrow> bool" where
  "log_covers e \<longleftrightarrow> mem_inv (e_mem e) \<and> wal_inv (e_wal e) \<and>
     (\<forall>k x. mem_map (e_mem e) k = Some x \<longrightarrow> mem_map (recovered (e_wal e)) k = Some (entry_norm x))"

definition log_exact :: "engine \<Rightarrow> bool" where
  "log_exact e \<longleftrightarrow> mem_inv (e_mem e) \<and> wal_inv (e_wal e) \<and>
     mem_map (recovered (e_wal e)) = map_option entry_norm \<circ> mem_map (e_mem e)"

lemma mem_map_recovered:
  assumes "fst (ReadAll Done no_fault w) = Inr es"
  shows "mem_map (recovered w) = spec_ops (map replay_op es) Map.empty"
  using mem.run_view [of "NewMemtable 0" "map replay_op es"] assms by (simp add: recovered_def)

lemma wal_inv_ReadAll: "wal_inv w \<Longrightarrow> \<exists>es. fst (ReadAll Done no_fault w) = Inr es"
  using ReadAll_holds by (auto simp: wal_inv_def)

lemma recovered_LogPut:
  assumes "wal_inv w" "frame_fits k v" "LogPut os k v w = (None, w')"
  shows "wal_inv w' \<and> mem_map (recovered w') = (mem_map (recovered w))(k \<mapsto> entry_norm (live_entry k v))"
proof -
  obtain es where es: "fst (ReadAll Done no_fault w) = Inr es" using wal_inv_ReadAll [OF assms(1)] by blast
  note put = wal.readall_put [OF assms(1) es assms(2,3)]
  have "op_entry (replay_op (logged (OpPut k v))) = entry_norm (live_entry k v)"
    "op_key (replay_op (logged (OpPut k v))) = k"
    by (simp_all only: replay_logged_entry replay_logged_key op_entry.simps op_key.simps)
  then show ?thesis
    using put mem_map_recovered [OF es] mem_map_recovered [of w' "es @ [logged (OpPut k v)]"]
    by (simp add: spec_ops_append)
qed

lemma recovered_Truncate:
  assumes "wal_inv w" "Truncate t s w = (None, w')"
  shows "wal_inv w' \<and> mem_map (recovered w') = Map.empty"
  using wal.readall_trunc [OF assms(1), of "(t, s)" w'] assms(2) mem_map_recovered [of w' "[]"] by simp

lemma recovered_file:
  assumes "wal_file w = Some f" "wal_file w' = Some f" "wal_inv w"
  shows "wal_inv w' \<and> mem_map (recovered w') = mem_map (recovered w)"
proof -
  obtain es where es: "wal_holds w es" using assms(3) by (auto simp: wal_inv_def)
  have es': "wal_holds w' es" using es assms(1,2) by (simp add: wal_holds_def)
  have "recovered w' = recovered w"
    unfolding recovered_def ReadAll_holds [OF es] ReadAll_holds [OF es'] ..
  then show ?thesis using es' by (auto simp: wal_inv_def)
qed

text \<open>A truncation that fails has emptied the log or left it as it was.\<close>

lemma recovered_Truncate_any:
  assumes "wal_inv w" "Truncate t s w = (r, w')"
  shows "wal_inv w' \<and>
    (mem_map (recovered w') = Map.empty \<or> mem_map (recovered w') = mem_map (recovered w))"
proof -
  obtain f es where f: "wal_file w = Some f" "wal_holds w es"
    using assms(1) by (auto simp: wal_inv_def wal_holds_def)
  show ?thesis
  proof (cases t)
    case (Fault n)
    then have "wal_file w' = Some f" using assms(2) f(1) by (auto simp: Truncate_def on_file_def)
    then show ?thesis using recovered_file [of w f w'] f(1) assms(1) by auto
  next
    case Done
    then have "wal_holds w' []"
      using assms(2) f(1) by (cases s) (auto simp: Truncate_def on_file_def wal_holds_def)
    then show ?thesis
      using ReadAll_holds [of w' "[]"] mem_map_recovered [of w' "[]"] by (auto simp: wal_inv_def)
  qed
qed

section \<open>Put\<close>

lemma ExecuteFlush_cases:
  assumes "ExecuteFlush env e = Some (r, e')"
  obtains (failed) err s' g' where "r = Some (SstWriteFailure err)"
      "e' = e\<lparr>e_mem := (e_mem e)\<lparr>data := []\<rparr>, e_sfm := s', e_counters := g'\<rparr>"
      "WriteSegment (e_writer e) (append_outcomes env) (new_uuid env) (now env)
        (data (e_mem e)) TIERED 0 (e_sfm e) (e_counters e) = Some (Inl err, s', g')"
  | (written) meta s' g' t w' where
      "WriteSegment (e_writer e) (append_outcomes env) (new_uuid env) (now env)
        (data (e_mem e)) TIERED 0 (e_sfm e) (e_counters e) = Some (Inr meta, s', g')"
      "Truncate (trunc_outcome env) (seek_outcome env) (e_wal e) = (t, w')"
      "r = map_option WalCleanupFailure t"
      "e' = e\<lparr>e_mem := (e_mem e)\<lparr>data := []\<rparr>, e_sfm := s', e_counters := g', e_wal := w'\<rparr>"
proof -
  have fl: "Flush (e_mem e) = (data (e_mem e), (e_mem e)\<lparr>data := []\<rparr>)"
    using Flush_simps [of "e_mem e"] by (metis prod.collapse)
  obtain q s' g' where ws: "WriteSegment (e_writer e) (append_outcomes env) (new_uuid env) (now env)
        (data (e_mem e)) TIERED 0 (e_sfm e) (e_counters e) = Some (q, s', g')"
    using assms by (auto simp: ExecuteFlush_def fl split: option.splits)
  obtain t w' where tr: "Truncate (trunc_outcome env) (seek_outcome env) (e_wal e) = (t, w')"
    by fastforce
  show thesis
  proof (cases q)
    case (Inl err)
    then have "r = Some (SstWriteFailure err)"
      "e' = e\<lparr>e_mem := (e_mem e)\<lparr>data := []\<rparr>, e_sfm := s', e_counters := g'\<rparr>"
      using assms ws by (simp_all add: ExecuteFlush_def fl Let_def)
    then show thesis by (rule failed) (use ws Inl in simp)
  next
    case (Inr meta)
    then have "r = map_option WalCleanupFailure t"
      "e' = e\<lparr>e_mem := (e_mem e)\<lparr>data := []\<rparr>, e_sfm := s', e_counters := g', e_wal := w'\<rparr>"
      using assms ws tr by (cases t; simp add: ExecuteFlush_def fl Let_def)+
    then show thesis by (rule written [OF ws [unfolded Inr] tr])
  qed
qed

lemma mem_map_cleared [simp]: "mem_map (m\<lparr>data := []\<rparr>) = Map.empty" "mem_inv (m\<lparr>data := []\<rparr>)"
  by (simp_all add: mem_map_def mem_inv_def)

lemma log_covers_flush:
  assumes "log_covers e" "ExecuteFlush env e = Some (r, e')"
  shows "log_covers e'"
  using assms(2)
proof (cases rule: ExecuteFlush_cases)
  case failed
  then show ?thesis using assms(1) by (simp add: log_covers_def)
next
  case (written meta s' g' t w')
  then show ?thesis
    using assms(1) recovered_Truncate_any [of "e_wal e" _ _ t w'] by (auto simp: log_covers_def)
qed

lemma log_covers_put:
  assumes "log_covers e" "frame_fits k v" "LogPut os k v (e_wal e) = (None, w')"
  shows "log_covers (e\<lparr>e_wal := w', e_mem := Put k v (e_mem e)\<rparr>)"
  using assms(1) recovered_LogPut [OF _ assms(2,3)]
  by (auto simp: log_covers_def mem_inv_Put mem_map_Put)

lemma log_exact_put:
  assumes "log_exact e" "frame_fits k v" "LogPut os k v (e_wal e) = (None, w')"
  shows "log_exact (e\<lparr>e_wal := w', e_mem := Put k v (e_mem e)\<rparr>)"
  using assms(1) recovered_LogPut [OF _ assms(2,3)]
  by (auto simp: log_exact_def mem_inv_Put mem_map_Put)

lemma log_exact_flush:
  assumes "log_exact e" "ExecuteFlush env e = Some (None, e')"
  shows "log_exact e'"
  using assms(2)
proof (cases rule: ExecuteFlush_cases)
  case (written meta s' g' t w')
  then have "Truncate (trunc_outcome env) (seek_outcome env) (e_wal e) = (None, w')" by simp
  then show ?thesis
    using assms(1) recovered_Truncate written by (auto simp: log_exact_def)
qed simp

section \<open>Runs without a failure of the log\<close>

text \<open>A run given up at a failure of the log or a panic; errors of a flush do not stop it.\<close>

fun acked_run :: "(engine_env \<times> gostring \<times> slice) list \<Rightarrow> engine \<Rightarrow> engine option" where
  "acked_run [] e = Some e"
| "acked_run ((env, k, v) # xs) e =
     (case engine_Put env k v e of
        None \<Rightarrow> None
      | Some (Some (WalLogFailure err), e') \<Rightarrow> None
      | Some (_, e') \<Rightarrow> acked_run xs e')"

lemma engine_Put_covers:
  assumes "log_covers e" "frame_fits k v" "engine_Put env k v e = Some (r, e')" "\<forall>err. r \<noteq> Some (WalLogFailure err)"
  shows "log_covers e'"
proof -
  obtain w' where w': "LogPut (log_outcomes env) k v (e_wal e) = (None, w')"
    using assms(3,4) by (auto simp: engine_Put_def split: prod.splits option.splits)
  note c = log_covers_put [OF assms(1,2) w']
  show ?thesis
    using assms(3) c log_covers_flush [OF c, of env r e'] by (auto simp: engine_Put_def w' Let_def split: if_splits)
qed

lemma acked_run_covers:
  "log_covers e \<Longrightarrow> \<forall>(env, k, v) \<in> set xs. frame_fits k v \<Longrightarrow> acked_run xs e = Some e' \<Longrightarrow> log_covers e'"
proof (induction xs arbitrary: e)
  case (Cons x xs)
  obtain env k v where x: "x = (env, k, v)" by (metis prod_cases3)
  obtain r e1 where r: "engine_Put env k v e = Some (r, e1)" "\<forall>err. r \<noteq> Some (WalLogFailure err)"
    "acked_run xs e1 = Some e'"
    using Cons.prems(3) by (auto simp: x split: option.splits engine_error.splits)
  have "log_covers e1" using engine_Put_covers [OF Cons.prems(1) _ r(1,2)] Cons.prems(2) by (simp add: x)
  then show ?case using Cons.IH r(3) Cons.prems(2) by (simp add: x)
qed simp

definition new_engine :: "int \<Rightarrow> engine" where
  "new_engine n = NewEngine (empty_wal []) (NewMemtable n) (fresh_file []) (NewBuilder 16) zero_counters"

lemma new_engine_covers: "log_covers (new_engine n)" "log_exact (new_engine n)"
proof -
  have "mem_map (recovered (empty_wal [])) = Map.empty"
    using mem_map_recovered [OF empty_wal_simps(2) [of "[]"]] by simp
  then show "log_covers (new_engine n)" "log_exact (new_engine n)"
    by (simp_all add: log_covers_def log_exact_def new_engine_def NewEngine_def empty_wal_simps fun_eq_iff)
qed

section \<open>Properties\<close>

definition good_env :: engine_env where
  "good_env = \<lparr>log_outcomes = done3, append_outcomes = all_done, trunc_outcome = Done, seek_outcome = Done,
     new_uuid = [1], now = 10\<rparr>"

definition bad_append :: engine_env where
  "bad_append = good_env\<lparr>append_outcomes := (Done, Fault 0, Done)\<rparr>"

text \<open>C12: Whatever a crash destroys of the memtable is in the log: after any run of puts on a new engine
  in which no write to the log failed, whichever appends, truncations and syncs did fail, replaying
  the log gives every key the entry that the memtable holds for it.\<close>

theorem memtable_recoverable_from_log:
  assumes "acked_run xs (new_engine n) = Some e" "\<forall>(env, k, v) \<in> set xs. frame_fits k v"
    "mem_map (e_mem e) key = Some x"
  shows "mem_map (recovered (e_wal e)) key = Some (entry_norm x)"
  using acked_run_covers [OF new_engine_covers(1) assms(2,1)] assms(3) by (simp add: log_covers_def)

lemma memtable_recoverable_from_log_witness:
  "\<exists>e. acked_run [(good_env, [5], Some [1]), (bad_append, [6], Some [2]), (good_env, [7], Some [3])] (new_engine 2) = Some e \<and>
     mem_map (recovered (e_wal e)) [7] = Some (live_entry [7] (Some [3]))"
proof -
  let ?xs = "[(good_env, [5], Some [1]), (bad_append, [6], Some [2]), (good_env, [7], Some [3])] ::
    (engine_env \<times> gostring \<times> slice) list"
  have "case acked_run ?xs (new_engine 2) of Some e \<Rightarrow> data (e_mem e) = [live_entry [7] (Some [3])] | None \<Rightarrow> False"
    by code_simp
  then obtain e where e: "acked_run ?xs (new_engine 2) = Some e" "data (e_mem e) = [live_entry [7] (Some [3])]"
    by (auto split: option.splits)
  have "\<forall>(env, k, v) \<in> set ?xs. frame_fits k v" by (simp add: frame_fits_def)
  from memtable_recoverable_from_log [OF e(1) this, of "[7]" "live_entry [7] (Some [3])"]
  have "mem_map (recovered (e_wal e)) [7] = Some (live_entry [7] (Some [3]))"
    using e(2) by (simp add: mem_map_def entry_norm_def live_entry_def)
  with e(1) show ?thesis by blast
qed

text \<open>C13: A flush that succeeds moves the whole memtable into the file: the file grows by one segment
  that holds exactly its entries, the memtable is empty, and so is what the log would
  replay. The metadata that describes the segment is returned by the writer but not kept.\<close>

theorem flush_moves_memtable_to_file:
  assumes "log_covers e" "data (e_mem e) \<noteq> []" "0 < stride (e_writer e)" "ExecuteFlush env e = Some (None, e')"
    "int (length (sf_bytes (e_sfm e'))) < 2 ^ 63" "int (length (frames (data (e_mem e)))) < 2 ^ 63"
  shows "\<exists>m. seg_holds (e_writer e) (sf_bytes (e_sfm e')) m (data (e_mem e)) \<and>
    (\<exists>suf. sf_bytes (e_sfm e') = sf_bytes (e_sfm e) @ suf) \<and>
    data (e_mem e') = [] \<and> mem_map (recovered (e_wal e')) = Map.empty"
  using assms(4)
proof (cases rule: ExecuteFlush_cases)
  case (written meta s' g' t w')
  have inv: "mem_inv (e_mem e)" "wal_inv (e_wal e)" using assms(1) by (simp_all add: log_covers_def)
  have t: "t = None" using written(3) by simp
  obtain m where m: "meta = Some m" using WriteSegment_result written(1) assms(2) by (cases meta) auto
  have "sorted_run (data (e_mem e))" using inv(1) by (simp add: mem_inv_def)
  note w = WriteSegment_ok [OF assms(3,2) this assms(6) written(1) [unfolded m]]
  have "mem_map (recovered w') = Map.empty"
    using recovered_Truncate [OF inv(2)] written(2) t by blast
  moreover have "int (length (sf_bytes s')) < 2 ^ 63" using assms(5) written(4) by simp
  ultimately show ?thesis using w written(4) by auto
qed simp

lemma flush_moves_memtable_to_file_witness:
  "\<exists>e e' m. ExecuteFlush good_env e = Some (None, e') \<and>
     seg_holds (NewBuilder 16) (sf_bytes (e_sfm e')) m [live_entry [5] (Some [1])] \<and> data (e_mem e') = []"
proof -
  have "case acked_run [(good_env, [5], Some [1])] (new_engine 2) of
      Some e \<Rightarrow> data (e_mem e) = [live_entry [5] (Some [1])] \<and> stride (e_writer e) = 16 \<and>
        (case ExecuteFlush good_env e of Some (None, e') \<Rightarrow> length (sf_bytes (e_sfm e')) < 100 | _ \<Rightarrow> False)
    | None \<Rightarrow> False"
    by code_simp
  then obtain e e' where e: "acked_run [(good_env, [5], Some [1])] (new_engine 2) = Some e"
    "data (e_mem e) = [live_entry [5] (Some [1])]" "stride (e_writer e) = 16"
    "ExecuteFlush good_env e = Some (None, e')" "length (sf_bytes (e_sfm e')) < 100"
    by (auto split: option.splits prod.splits)
  have "log_covers e" using acked_run_covers [OF new_engine_covers(1) _ e(1)] by (simp add: frame_fits_def)
  from flush_moves_memtable_to_file [OF this _ _ e(4)] e
  obtain m where "seg_holds (e_writer e) (sf_bytes (e_sfm e')) m [live_entry [5] (Some [1])]" "data (e_mem e') = []"
    by (auto simp: kv_frame_def frame_length)
  moreover have "e_writer e = NewBuilder 16" using e(3) by (cases "e_writer e") (simp add: NewBuilder_def)
  ultimately show ?thesis using e(4) by metis
qed

definition after_failure :: engine where
  "after_failure = snd (the (engine_Put bad_append [5] (Some [1]) (new_engine 1)))"

definition after_loss :: engine where
  "after_loss = snd (the (engine_Put good_env [6] (Some [2]) after_failure))"

lemma lost_run:
  "engine_Put bad_append [5] (Some [1]) (new_engine 1) = Some (Some (SstWriteFailure EIO), after_failure)"
  "engine_Put good_env [6] (Some [2]) after_failure = Some (None, after_loss)"
  "data (e_mem after_loss) = []" "fst (ReadAll Done no_fault (e_wal after_loss)) = Inr []"
  "map_option (\<lambda>(r, e'). sf_bytes (e_sfm e')) (engine_Put good_env [6] (Some [2]) (new_engine 1)) =
     Some (sf_bytes (e_sfm after_loss))"
  by code_simp+


end
