(* ===== verification/Go_Runtime.thy ===== *)
theory Go_Runtime
  imports Amethyst_Prelude
begin

text \<open>
  The two places where a Go program's result depends on choices its source does not make:
  \<^item> \<^verbatim>\<open>for k, v := range m\<close> visits the entries of a map in an unspecified order. A map is an
    association list with distinct keys, and the order of one loop is whatever permutation of
    it the runtime picks.
  \<^item> \<^verbatim>\<open>sort.Slice(xs, less)\<close> sorts, but is not stable: elements that \<^verbatim>\<open>less\<close> does not separate
    may come out in any order.
  Both are fields of a record that the operations take as an argument. The locale
  \<open>go_runtime\<close> states what the language and the library document; it is interpreted on the
  insertion sort that the library runs on short slices.
\<close>

type_synonym ref = nat

record runtime =
  range_refs :: "(gostring \<times> ref) list \<Rightarrow> (gostring \<times> ref) list"
  range_slices :: "(gostring \<times> slice) list \<Rightarrow> (gostring \<times> slice) list"
  sort_slice :: "(ref \<Rightarrow> ref \<Rightarrow> bool) \<Rightarrow> ref list \<Rightarrow> ref list"

text \<open>The requirement on \<^verbatim>\<open>less\<close>, and what the library then promises.\<close>

definition strict_weak :: "('a \<Rightarrow> 'a \<Rightarrow> bool) \<Rightarrow> bool" where
  "strict_weak lt \<longleftrightarrow>
     (\<forall>a. \<not> lt a a) \<and> (\<forall>a b c. lt a b \<longrightarrow> lt b c \<longrightarrow> lt a c) \<and>
     (\<forall>a b c. \<not> lt a b \<longrightarrow> \<not> lt b a \<longrightarrow> \<not> lt b c \<longrightarrow> \<not> lt c b \<longrightarrow>
        \<not> lt a c \<and> \<not> lt c a)"

definition slice_sorted :: "('a \<Rightarrow> 'a \<Rightarrow> bool) \<Rightarrow> 'a list \<Rightarrow> bool" where
  "slice_sorted lt xs \<longleftrightarrow> sorted_wrt (\<lambda>a b. \<not> lt b a) xs"

lemma strict_weak_not_trans:
  "strict_weak lt \<Longrightarrow> \<not> lt b a \<Longrightarrow> \<not> lt c b \<Longrightarrow> \<not> lt c a"
  unfolding strict_weak_def by metis

lemma strict_weak_asym: "strict_weak lt \<Longrightarrow> lt a b \<Longrightarrow> \<not> lt b a"
  unfolding strict_weak_def by blast

locale go_runtime =
  fixes rt :: runtime
  assumes range_refs_perm: "mset (range_refs rt m) = mset m"
    and range_slices_perm: "mset (range_slices rt d) = mset d"
    and sort_slice_perm: "mset (sort_slice rt lt xs) = mset xs"
    and sort_slice_sorted: "strict_weak lt \<Longrightarrow> slice_sorted lt (sort_slice rt lt xs)"
begin

lemma set_range_refs [simp]: "set (range_refs rt m) = set m"
  by (rule mset_eq_setD) (rule range_refs_perm)

lemma set_range_slices [simp]: "set (range_slices rt d) = set d"
  by (rule mset_eq_setD) (rule range_slices_perm)

lemma set_sort_slice [simp]: "set (sort_slice rt lt xs) = set xs"
  by (rule mset_eq_setD) (rule sort_slice_perm)

lemma distinct_sort_slice: "distinct xs \<Longrightarrow> distinct (sort_slice rt lt xs)"
  using sort_slice_perm by (metis mset_eq_imp_distinct_iff)

lemma length_sort_slice [simp]: "length (sort_slice rt lt xs) = length xs"
  using sort_slice_perm by (metis size_mset)

lemma distinct_range_refs: "distinct (map fst m) \<Longrightarrow> distinct (map fst (range_refs rt m))"
  using range_refs_perm by (metis mset_eq_imp_distinct_iff mset_map)

lemma distinct_range_slices: "distinct (map fst d) \<Longrightarrow> distinct (map fst (range_slices rt d))"
  using range_slices_perm by (metis mset_eq_imp_distinct_iff mset_map)

lemma map_of_range_slices:
  "distinct (map fst d) \<Longrightarrow> map_of (range_slices rt d) = map_of d"
  by (rule map_of_inject_set [THEN iffD2]) (simp_all add: distinct_range_slices)

lemma filter_range_refs_size:
  "length (filter P (range_refs rt m)) = length (filter P m)"
  using range_refs_perm by (metis mset_filter size_mset)

end

section \<open>The runtime on short inputs\<close>

text \<open>
  \<^verbatim>\<open>insertionSort_func\<close>: each element in turn is swapped to the left while it is less than its
  neighbour. The sorted part is kept reversed, so moving left is moving into the list.
\<close>

fun swap_back :: "('a \<Rightarrow> 'a \<Rightarrow> bool) \<Rightarrow> 'a \<Rightarrow> 'a list \<Rightarrow> 'a list" where
  "swap_back lt x [] = [x]"
| "swap_back lt x (y # ys) = (if lt x y then y # swap_back lt x ys else x # y # ys)"

definition insertion_sort :: "('a \<Rightarrow> 'a \<Rightarrow> bool) \<Rightarrow> 'a list \<Rightarrow> 'a list" where
  "insertion_sort lt xs = rev (foldl (\<lambda>acc x. swap_back lt x acc) [] xs)"

definition short_runtime :: runtime where
  "short_runtime = \<lparr>range_refs = (\<lambda>m. m), range_slices = (\<lambda>d. d), sort_slice = insertion_sort\<rparr>"

text \<open>Another runtime the language allows: maps are visited backwards.\<close>

definition backward_runtime :: runtime where
  "backward_runtime = \<lparr>range_refs = rev, range_slices = rev, sort_slice = insertion_sort\<rparr>"

lemma mset_swap_back: "mset (swap_back lt x ys) = add_mset x (mset ys)"
  by (induction ys) auto

lemma set_swap_back [simp]: "set (swap_back lt x ys) = insert x (set ys)"
  by (induction ys) auto

lemma sorted_swap_back:
  assumes "strict_weak lt" "sorted_wrt (\<lambda>a b. \<not> lt a b) ys"
  shows "sorted_wrt (\<lambda>a b. \<not> lt a b) (swap_back lt x ys)"
  using assms(2)
proof (induction ys)
  case (Cons y ys)
  show ?case
  proof (cases "lt x y")
    case True
    then have "\<not> lt y x" by (rule strict_weak_asym [OF assms(1)])
    with True Cons show ?thesis by simp
  next
    case False
    then have "\<not> lt x z" if "z \<in> set ys" for z
      using strict_weak_not_trans [OF assms(1), of y z x] Cons.prems that by simp
    with False Cons show ?thesis by simp
  qed
qed simp

lemma mset_insertion_fold:
  "mset (foldl (\<lambda>acc x. swap_back lt x acc) acc xs) = mset acc + mset xs"
  by (induction xs arbitrary: acc) (auto simp: mset_swap_back)

lemma sorted_insertion_fold:
  "strict_weak lt \<Longrightarrow> sorted_wrt (\<lambda>a b. \<not> lt a b) acc \<Longrightarrow>
   sorted_wrt (\<lambda>a b. \<not> lt a b) (foldl (\<lambda>acc x. swap_back lt x acc) acc xs)"
  by (induction xs arbitrary: acc) (auto simp: sorted_swap_back)

lemma mset_insertion_sort: "mset (insertion_sort lt xs) = mset xs"
  by (simp add: insertion_sort_def mset_insertion_fold)

lemma insertion_sort_sorted:
  "strict_weak lt \<Longrightarrow> slice_sorted lt (insertion_sort lt xs)"
  by (simp add: slice_sorted_def insertion_sort_def sorted_wrt_rev sorted_insertion_fold)

interpretation short_rt: go_runtime short_runtime
  by unfold_locales (simp_all add: short_runtime_def mset_insertion_sort insertion_sort_sorted)

interpretation backward_rt: go_runtime backward_runtime
  by unfold_locales (simp_all add: backward_runtime_def mset_insertion_sort insertion_sort_sorted)

end
