(* ===== verification/Metadata.thy ===== *)
theory Metadata
  imports Common_Types Go_Runtime
begin

text \<open>
  \<^verbatim>\<open>internal/metadata/metadata.go\<close>: the tracker of segments. The segment structs are shared by
  pointer between the map, the ordered slice, the plans of the director and the callers, so
  they live in an explicit store: a non-nil pointer is a reference, and every reference has a
  cell. A method runs under the tracker's lock, and is one step on store and tracker.
\<close>

record store =
  cells :: "ref \<Rightarrow> segment_meta"
  fresh :: ref

definition zero_meta :: segment_meta where
  "zero_meta = \<lparr>ID = [], Level = 0, Offset = 0, Length = 0, MinKey = [], MaxKey = [],
     Strategy = TIERED, readCount = 0, writeCount = 0, OverlapCount = 0, TotalComparisons = 0,
     CreatedAt = 0, lastRewriteAt = 0, obsolete = False, InCompaction = False,
     SparseIndex = None, DataStartOffset = 0, SparseIndexOffset = 0\<rparr>"

definition empty_store :: store where
  "empty_store = \<lparr>cells = (\<lambda>_. zero_meta), fresh = 0\<rparr>"

text \<open>\<^verbatim>\<open>&common.SegmentMeta{...}\<close> and assignment through a pointer.\<close>

definition alloc :: "segment_meta \<Rightarrow> store \<Rightarrow> ref \<times> store" where
  "alloc m st = (fresh st, st\<lparr>cells := (cells st)(fresh st := m), fresh := Suc (fresh st)\<rparr>)"

definition upd_cell :: "ref \<Rightarrow> (segment_meta \<Rightarrow> segment_meta) \<Rightarrow> store \<Rightarrow> store" where
  "upd_cell r f st = st\<lparr>cells := (cells st)(r := f (cells st r))\<rparr>"

record tracker =
  segments :: "(gostring \<times> ref) list"
  ordered :: "ref list"

definition NewTracker :: tracker where
  "NewTracker = \<lparr>segments = [], ordered = []\<rparr>"

text \<open>Two key ranges overlap when neither lies entirely to one side of the other.\<close>

definition ranges_overlap :: "segment_meta \<Rightarrow> segment_meta \<Rightarrow> bool" where
  "ranges_overlap a b \<longleftrightarrow> \<not> (MaxKey a < MinKey b \<or> MaxKey b < MinKey a)"

fun count_overlaps :: "store \<Rightarrow> segment_meta \<Rightarrow> (gostring \<times> ref) list \<Rightarrow> int \<Rightarrow> int" where
  "count_overlaps st meta [] overlaps = overlaps"
| "count_overlaps st meta ((k, other) # rest) overlaps =
     (if IsObsolete (cells st other) then count_overlaps st meta rest overlaps
      else if ranges_overlap meta (cells st other)
      then count_overlaps st meta rest (i64 (overlaps + 1))
      else count_overlaps st meta rest overlaps)"

definition RegisterSegment :: "runtime \<Rightarrow> ref \<Rightarrow> store \<times> tracker \<Rightarrow> store \<times> tracker" where
  "RegisterSegment rt r stt =
     (case stt of (st, t) \<Rightarrow>
        (let overlaps = count_overlaps st (cells st r) (range_refs rt (segments t)) 0;
             st' = upd_cell r (\<lambda>m. m\<lparr>OverlapCount := overlaps\<rparr>) st
         in (st', t\<lparr>segments := AList.update (ID (cells st' r)) r (segments t),
                    ordered := r # ordered t\<rparr>)))"

fun collect_overlaps :: "store \<Rightarrow> segment_meta \<Rightarrow> (gostring \<times> ref) list \<Rightarrow> ref list" where
  "collect_overlaps st target [] = []"
| "collect_overlaps st target ((k, seg) # rest) =
     (if ID (cells st seg) = ID target \<or> IsObsolete (cells st seg)
      then collect_overlaps st target rest
      else if ranges_overlap target (cells st seg)
      then seg # collect_overlaps st target rest
      else collect_overlaps st target rest)"

definition GetOverlappingSegments :: "runtime \<Rightarrow> ref \<Rightarrow> store \<times> tracker \<Rightarrow> ref list" where
  "GetOverlappingSegments rt target stt =
     (case stt of (st, t) \<Rightarrow>
        collect_overlaps st (cells st target) (range_refs rt (segments t)))"

text \<open>The order of both listings: by level, and the newest first inside a level.\<close>

definition seg_less :: "store \<Rightarrow> ref \<Rightarrow> ref \<Rightarrow> bool" where
  "seg_less st i j \<longleftrightarrow>
     (if Level (cells st i) \<noteq> Level (cells st j) then Level (cells st i) < Level (cells st j)
      else CreatedAt (cells st j) < CreatedAt (cells st i))"

definition in_key_range :: "gostring \<Rightarrow> segment_meta \<Rightarrow> bool" where
  "in_key_range key m \<longleftrightarrow> MinKey m \<le> key \<and> key \<le> MaxKey m"

definition GetSegmentsForKey :: "runtime \<Rightarrow> gostring \<Rightarrow> store \<times> tracker \<Rightarrow> ref list" where
  "GetSegmentsForKey rt key stt =
     (case stt of (st, t) \<Rightarrow>
        sort_slice rt (seg_less st)
          (filter (\<lambda>r. \<not> IsObsolete (cells st r) \<and> in_key_range key (cells st r)) (ordered t)))"

definition GetAllSegments :: "runtime \<Rightarrow> store \<times> tracker \<Rightarrow> ref list" where
  "GetAllSegments rt stt =
     (case stt of (st, t) \<Rightarrow>
        sort_slice rt (seg_less st) (filter (\<lambda>r. \<not> IsObsolete (cells st r)) (ordered t)))"

definition tracker_MarkObsolete :: "gostring \<Rightarrow> store \<times> tracker \<Rightarrow> store \<times> tracker" where
  "tracker_MarkObsolete sid stt =
     (case stt of (st, t) \<Rightarrow>
        (case map_of (segments t) sid of
           None \<Rightarrow> (st, t)
         | Some r \<Rightarrow> (upd_cell r MarkObsolete st, t)))"

definition UpdateStats :: "gostring \<Rightarrow> int \<Rightarrow> int \<Rightarrow> store \<times> tracker \<Rightarrow> store \<times> tracker" where
  "UpdateStats sid reads writes stt =
     (case stt of (st, t) \<Rightarrow>
        (case map_of (segments t) sid of
           None \<Rightarrow> (st, t)
         | Some r \<Rightarrow> (upd_cell r (\<lambda>m. AddWrites writes (AddReads reads m)) st, t)))"

section \<open>Lemmas on the store\<close>

lemma cells_upd_cell [simp]:
  "cells (upd_cell r f st) r' = (if r' = r then f (cells st r) else cells st r')"
  "fresh (upd_cell r f st) = fresh st"
  by (simp_all add: upd_cell_def)

lemma cells_alloc [simp]:
  "fst (alloc m st) = fresh st"
  "cells (snd (alloc m st)) r = (if r = fresh st then m else cells st r)"
  "fresh (snd (alloc m st)) = Suc (fresh st)"
  by (simp_all add: alloc_def)

section \<open>The listing order\<close>

lemma seg_less_strict_weak: "strict_weak (seg_less st)"
  unfolding strict_weak_def seg_less_def by (auto split: if_splits)

lemma seg_less_iff:
  "\<not> seg_less st j i \<longleftrightarrow>
     Level (cells st i) < Level (cells st j) \<or>
     Level (cells st i) = Level (cells st j) \<and> CreatedAt (cells st j) \<le> CreatedAt (cells st i)"
  by (auto simp: seg_less_def)

context go_runtime
begin

lemma GetSegmentsForKey_sorted:
  "sorted_wrt (\<lambda>i j. \<not> seg_less st j i) (GetSegmentsForKey rt key (st, t))"
  using sort_slice_sorted [OF seg_less_strict_weak]
  by (simp add: GetSegmentsForKey_def slice_sorted_def)

lemma GetSegmentsForKey_set:
  "set (GetSegmentsForKey rt key (st, t)) =
     {r \<in> set (ordered t). \<not> obsolete (cells st r) \<and> in_key_range key (cells st r)}"
  by (auto simp: GetSegmentsForKey_def IsObsolete_def)

lemma GetSegmentsForKey_distinct:
  "distinct (ordered t) \<Longrightarrow> distinct (GetSegmentsForKey rt key (st, t))"
  by (simp add: GetSegmentsForKey_def distinct_sort_slice)

lemma GetAllSegments_sorted:
  "sorted_wrt (\<lambda>i j. \<not> seg_less st j i) (GetAllSegments rt (st, t))"
  using sort_slice_sorted [OF seg_less_strict_weak]
  by (simp add: GetAllSegments_def slice_sorted_def)

lemma GetAllSegments_set:
  "set (GetAllSegments rt (st, t)) = {r \<in> set (ordered t). \<not> obsolete (cells st r)}"
  by (auto simp: GetAllSegments_def IsObsolete_def)

end

section \<open>Counting and collecting overlaps\<close>

definition overlapping :: "store \<Rightarrow> segment_meta \<Rightarrow> ref \<Rightarrow> bool" where
  "overlapping st m r \<longleftrightarrow> \<not> obsolete (cells st r) \<and> ranges_overlap m (cells st r)"

lemma ranges_overlap_iff:
  "MinKey a \<le> MaxKey a \<Longrightarrow> MinKey b \<le> MaxKey b \<Longrightarrow>
   ranges_overlap a b \<longleftrightarrow> (\<exists>k. in_key_range k a \<and> in_key_range k b)"
  unfolding ranges_overlap_def in_key_range_def
  by (meson le_less_trans linear not_less order_trans)

lemma ranges_overlap_sym: "ranges_overlap a b = ranges_overlap b a"
  by (auto simp: ranges_overlap_def)

lemma count_overlaps_eq:
  "0 \<le> n \<Longrightarrow> n + int (length segs) < 2 ^ 63 \<Longrightarrow>
   count_overlaps st m segs n = n + int (length (filter (\<lambda>(k, r). overlapping st m r) segs))"
proof (induction segs arbitrary: n)
  case (Cons p segs)
  obtain k r where p: "p = (k, r)" by fastforce
  have "i64 (n + 1) = n + 1" using Cons.prems by (intro i64_id) auto
  then show ?case
    using Cons.IH [of n] Cons.IH [of "n + 1"] Cons.prems
    by (simp add: p overlapping_def IsObsolete_def)
qed simp

lemma collect_overlaps_set:
  "set (collect_overlaps st m segs) =
     {r \<in> snd ` set segs. ID (cells st r) \<noteq> ID m \<and> overlapping st m r}"
  by (induction st m segs rule: collect_overlaps.induct) (auto simp: overlapping_def IsObsolete_def)

lemma collect_overlaps_distinct:
  "distinct (map snd segs) \<Longrightarrow> distinct (collect_overlaps st m segs)"
  by (induction st m segs rule: collect_overlaps.induct)
    (auto simp: collect_overlaps_set image_iff)

section \<open>The tracker's invariant\<close>

text \<open>
  Every registered segment is in the map under its own identifier and in the ordered slice
  once, and nothing else is; the references are allocated.
\<close>

definition tracker_inv :: "store \<times> tracker \<Rightarrow> bool" where
  "tracker_inv stt \<longleftrightarrow>
     (case stt of (st, t) \<Rightarrow>
        distinct (map fst (segments t)) \<and> distinct (ordered t) \<and>
        snd ` set (segments t) = set (ordered t) \<and>
        (\<forall>(k, r) \<in> set (segments t). ID (cells st r) = k) \<and>
        (\<forall>r \<in> set (ordered t). r < fresh st))"

lemma tracker_inv_New: "tracker_inv (st, NewTracker)"
  by (simp add: tracker_inv_def NewTracker_def)

lemma tracker_inv_lookup:
  assumes "tracker_inv (st, t)"
  shows "map_of (segments t) k = Some r \<longleftrightarrow> r \<in> set (ordered t) \<and> ID (cells st r) = k"
proof -
  from assms have d: "distinct (map fst (segments t))" and img: "snd ` set (segments t) = set (ordered t)"
    and id: "\<And>k r. (k, r) \<in> set (segments t) \<Longrightarrow> ID (cells st r) = k"
    by (auto simp: tracker_inv_def)
  have "map_of (segments t) k = Some r \<longleftrightarrow> (k, r) \<in> set (segments t)"
    using d by (rule map_of_eq_Some_iff)
  also have "\<dots> \<longleftrightarrow> r \<in> snd ` set (segments t) \<and> ID (cells st r) = k"
    using id by force
  also have "\<dots> \<longleftrightarrow> r \<in> set (ordered t) \<and> ID (cells st r) = k" unfolding img ..
  finally show ?thesis .
qed

lemma tracker_inv_upd_cell:
  assumes "tracker_inv (st, t)" "\<And>m. ID (f m) = ID m"
  shows "tracker_inv (upd_cell r f st, t)"
  using assms by (auto simp: tracker_inv_def)

lemma tracker_inv_Mark: "tracker_inv stt \<Longrightarrow> tracker_inv (tracker_MarkObsolete k stt)"
  by (auto simp: tracker_MarkObsolete_def MarkObsolete_def split: prod.splits option.splits
      intro!: tracker_inv_upd_cell)

lemma tracker_inv_Update: "tracker_inv stt \<Longrightarrow> tracker_inv (UpdateStats k rd wr stt)"
  by (auto simp: UpdateStats_def AddReads_def AddWrites_def split: prod.splits option.splits
      intro!: tracker_inv_upd_cell)

lemma update_new: "k \<notin> fst ` set al \<Longrightarrow> AList.update k v al = al @ [(k, v)]"
  by (induction al) auto

lemma tracker_inv_Register:
  assumes "tracker_inv (st, t)" "r < fresh st" "r \<notin> set (ordered t)"
    "\<forall>r' \<in> set (ordered t). ID (cells st r') \<noteq> ID (cells st r)"
  shows "tracker_inv (RegisterSegment rt r (st, t))"
proof -
  let ?k = "ID (cells st r)"
  have new: "?k \<notin> fst ` set (segments t)"
  proof
    assume "?k \<in> fst ` set (segments t)"
    then obtain r' where r': "(?k, r') \<in> set (segments t)" by auto
    then have "r' \<in> set (ordered t)" "ID (cells st r') = ?k"
      using assms(1) unfolding tracker_inv_def prod.case by (metis image_eqI snd_conv, blast)
    then show False using assms(4) by simp
  qed
  then have upd: "AList.update ?k r (segments t) = segments t @ [(?k, r)]"
    by (rule update_new)
  define n where "n = count_overlaps st (cells st r) (range_refs rt (segments t)) 0"
  have ids: "ID (cells (upd_cell r (\<lambda>m. m\<lparr>OverlapCount := n\<rparr>) st) x) = ID (cells st x)" for x
    by simp
  have eq: "RegisterSegment rt r (st, t) =
    (upd_cell r (\<lambda>m. m\<lparr>OverlapCount := n\<rparr>) st,
     t\<lparr>segments := segments t @ [(?k, r)], ordered := r # ordered t\<rparr>)"
    by (simp add: RegisterSegment_def Let_def n_def upd)
  show ?thesis
    using assms new unfolding eq tracker_inv_def prod.case ids by auto
qed

section \<open>Runs of the tracker\<close>

datatype tracker_op =
  Track segment_meta
| Retire gostring
| Count gostring int int

fun tracker_step :: "runtime \<Rightarrow> tracker_op \<Rightarrow> store \<times> tracker \<Rightarrow> store \<times> tracker" where
  "tracker_step rt (Track m) stt =
     (case alloc m (fst stt) of (r, st') \<Rightarrow> RegisterSegment rt r (st', snd stt))"
| "tracker_step rt (Retire k) stt = tracker_MarkObsolete k stt"
| "tracker_step rt (Count k n m) stt = UpdateStats k n m stt"

definition tracked_ids :: "tracker_op list \<Rightarrow> gostring list" where
  "tracked_ids ops = [ID m. Track m \<leftarrow> ops]"

text \<open>The specification: the identifiers of the segments that should be listed.\<close>

fun spec_live :: "tracker_op list \<Rightarrow> gostring set \<Rightarrow> gostring set" where
  "spec_live [] L = L"
| "spec_live (Track m # ops) L = spec_live ops (if obsolete m then L else insert (ID m) L)"
| "spec_live (Retire k # ops) L = spec_live ops (L - {k})"
| "spec_live (Count k n m # ops) L = spec_live ops L"

definition live_ids :: "store \<times> tracker \<Rightarrow> gostring set" where
  "live_ids stt = (\<lambda>r. ID (cells (fst stt) r)) ` {r \<in> set (ordered (snd stt)). \<not> obsolete (cells (fst stt) r)}"

definition all_ids :: "store \<times> tracker \<Rightarrow> gostring set" where
  "all_ids stt = (\<lambda>r. ID (cells (fst stt) r)) ` set (ordered (snd stt))"

lemma RegisterSegment_new:
  assumes "tracker_inv (st, t)" "alloc m st = (r, st1)"
    "\<forall>r' \<in> set (ordered t). ID (cells st r') \<noteq> ID m"
  shows "\<exists>st2 t2 n. RegisterSegment rt r (st1, t) = (st2, t2) \<and> tracker_inv (st2, t2) \<and>
    ordered t2 = r # ordered t \<and> fresh st2 = Suc (fresh st) \<and> r = fresh st \<and>
    cells st2 r = m\<lparr>OverlapCount := n\<rparr> \<and> (\<forall>r'. r' \<noteq> r \<longrightarrow> cells st2 r' = cells st r')"
proof -
  have r: "r = fresh st" and c: "\<And>r'. cells st1 r' = (if r' = r then m else cells st r')"
    and f: "fresh st1 = Suc (fresh st)"
    using assms(2) by (auto simp: alloc_def)
  have old: "r' < r" if "r' \<in> set (ordered t)" for r' using assms(1) that r by (auto simp: tracker_inv_def)
  have "tracker_inv (st1, t)"
    using assms(1) old unfolding tracker_inv_def by (fastforce simp: c f)
  then have inv: "tracker_inv (RegisterSegment rt r (st1, t))"
    using assms(3) old r f by (intro tracker_inv_Register) (auto simp: c)
  then show ?thesis
    using r f by (auto simp: RegisterSegment_def Let_def c split: prod.splits)
qed

lemma step_Track:
  assumes "tracker_inv stt" "ID m \<notin> all_ids stt"
  shows "tracker_inv (tracker_step rt (Track m) stt)"
    "live_ids (tracker_step rt (Track m) stt) = (if obsolete m then live_ids stt else insert (ID m) (live_ids stt))"
    "all_ids (tracker_step rt (Track m) stt) = insert (ID m) (all_ids stt)"
proof -
  obtain st t where stt: "stt = (st, t)" by fastforce
  obtain r st1 where al: "alloc m st = (r, st1)" by fastforce
  have "\<forall>r' \<in> set (ordered t). ID (cells st r') \<noteq> ID m"
    using assms(2) unfolding all_ids_def stt fst_conv snd_conv by (metis image_eqI)
  from RegisterSegment_new [OF assms(1) [unfolded stt] al this, of rt] obtain st2 t2 n where
    new: "RegisterSegment rt r (st1, t) = (st2, t2)" "tracker_inv (st2, t2)" "ordered t2 = r # ordered t"
    "r = fresh st" "cells st2 r = m\<lparr>OverlapCount := n\<rparr>" "\<And>r'. r' \<noteq> r \<Longrightarrow> cells st2 r' = cells st r'" by auto
  have step: "tracker_step rt (Track m) stt = (st2, t2)" by (simp add: stt al new(1))
  show "tracker_inv (tracker_step rt (Track m) stt)" unfolding step by (rule new(2))
  have old: "r' \<noteq> r" if "r' \<in> set (ordered t)" for r'
    using assms(1) that new(4) by (auto simp: tracker_inv_def stt)
  have "{x \<in> set (ordered t2). \<not> obsolete (cells st2 x)} =
      (if obsolete m then {} else {r}) \<union> {x \<in> set (ordered t). \<not> obsolete (cells st x)}"
    using old by (auto simp: new(3,5,6))
  then show "live_ids (tracker_step rt (Track m) stt) = (if obsolete m then live_ids stt else insert (ID m) (live_ids stt))"
    unfolding step live_ids_def using old by (auto simp: stt new(5,6) image_iff)
  show "all_ids (tracker_step rt (Track m) stt) = insert (ID m) (all_ids stt)"
    unfolding step all_ids_def using old by (auto simp: stt new(3,5,6) image_iff)
qed

lemma step_Retire:
  assumes "tracker_inv stt"
  shows "tracker_inv (tracker_MarkObsolete k stt)" "live_ids (tracker_MarkObsolete k stt) = live_ids stt - {k}"
    "all_ids (tracker_MarkObsolete k stt) = all_ids stt"
proof -
  obtain st t where stt: "stt = (st, t)" by fastforce
  show "tracker_inv (tracker_MarkObsolete k stt)" using assms by (rule tracker_inv_Mark)
  note look = tracker_inv_lookup [OF assms [unfolded stt], of k]
  have "live_ids (tracker_MarkObsolete k stt) = live_ids stt - {k} \<and>
    all_ids (tracker_MarkObsolete k stt) = all_ids stt"
  proof (cases "map_of (segments t) k")
    case None
    then have "k \<notin> all_ids stt" using look by (auto simp: all_ids_def stt)
    moreover have "live_ids stt \<subseteq> all_ids stt" by (auto simp: live_ids_def all_ids_def)
    ultimately show ?thesis using None by (auto simp: stt tracker_MarkObsolete_def)
  next
    case (Some r)
    then have r: "r \<in> set (ordered t)" "ID (cells st r) = k"
      and only: "\<And>x. x \<in> set (ordered t) \<Longrightarrow> ID (cells st x) = k \<Longrightarrow> x = r"
      using look tracker_inv_lookup [OF assms [unfolded stt], of k] by (blast, blast, metis option.inject)
    have st': "tracker_MarkObsolete k (st, t) = (upd_cell r MarkObsolete st, t)"
      by (simp add: tracker_MarkObsolete_def Some)
    have ids: "ID (cells (upd_cell r MarkObsolete st) x) = ID (cells st x)"
      and obs: "obsolete (cells (upd_cell r MarkObsolete st) x) \<longleftrightarrow> x = r \<or> obsolete (cells st x)" for x
      by (simp_all add: MarkObsolete_def)
    show ?thesis
      unfolding stt st' live_ids_def all_ids_def fst_conv snd_conv ids obs using only r(2) by auto
  qed
  then show "live_ids (tracker_MarkObsolete k stt) = live_ids stt - {k}"
    "all_ids (tracker_MarkObsolete k stt) = all_ids stt" by simp_all
qed

lemma step_Count:
  assumes "tracker_inv stt"
  shows "tracker_inv (UpdateStats k n m stt)" "live_ids (UpdateStats k n m stt) = live_ids stt"
    "all_ids (UpdateStats k n m stt) = all_ids stt"
proof -
  have keep: "live_ids (upd_cell r f st, t) = live_ids (st, t) \<and> all_ids (upd_cell r f st, t) = all_ids (st, t)"
    if "\<And>x. ID (f x) = ID x" "\<And>x. obsolete (f x) = obsolete x" for r f st t
  proof -
    have "ID (cells (upd_cell r f st) x) = ID (cells st x)" "obsolete (cells (upd_cell r f st) x) = obsolete (cells st x)" for x
      using that by simp_all
    then show ?thesis unfolding live_ids_def all_ids_def fst_conv snd_conv by simp
  qed
  show "tracker_inv (UpdateStats k n m stt)" using assms by (rule tracker_inv_Update)
  obtain st t where stt: "stt = (st, t)" by fastforce
  show "live_ids (UpdateStats k n m stt) = live_ids stt" "all_ids (UpdateStats k n m stt) = all_ids stt"
    using keep [of "\<lambda>m'. AddWrites m (AddReads n m')"]
    by (simp_all add: stt UpdateStats_def AddReads_def AddWrites_def split: option.split)
qed

lemma tracker_run:
  assumes "tracker_inv stt" "distinct (tracked_ids ops)" "set (tracked_ids ops) \<inter> all_ids stt = {}"
  shows "tracker_inv (fold (tracker_step rt) ops stt) \<and>
    live_ids (fold (tracker_step rt) ops stt) = spec_live ops (live_ids stt)"
  using assms
proof (induction ops arbitrary: stt)
  case (Cons x ops)
  show ?case
  proof (cases x)
    case (Track m)
    have "ID m \<notin> all_ids stt" using Cons.prems(3) by (simp add: Track tracked_ids_def)
    note s = step_Track [OF Cons.prems(1) this, of rt]
    have "distinct (tracked_ids ops)" "set (tracked_ids ops) \<inter> all_ids (tracker_step rt x stt) = {}"
      using Cons.prems(2,3) s(3) by (auto simp: Track tracked_ids_def)
    with Cons.IH [of "tracker_step rt x stt"] s show ?thesis by (simp add: Track)
  next
    case (Retire k)
    then show ?thesis
      using Cons.IH [of "tracker_MarkObsolete k stt"] Cons.prems step_Retire [OF Cons.prems(1), of k]
      by (simp add: tracked_ids_def)
  next
    case (Count k n m)
    then show ?thesis
      using Cons.IH [of "UpdateStats k n m stt"] Cons.prems step_Count [OF Cons.prems(1), of k n m]
      by (simp add: tracked_ids_def)
  qed
qed simp

section \<open>Properties\<close>

text \<open>C24: However segments are registered, retired and counted, as long as their identifiers are
  distinct, the map and the slice of the tracker agree, and \<^verbatim>\<open>GetAllSegments\<close> lists exactly the
  segments that were registered live and not retired since, each once.\<close>

theorem listing_is_registered_minus_retired:
  assumes "go_runtime rt" "distinct (tracked_ids ops)"
  shows "let stt = fold (tracker_step rt) ops (empty_store, NewTracker)
    in tracker_inv stt \<and> distinct (GetAllSegments rt stt) \<and>
       (\<lambda>r. ID (cells (fst stt) r)) ` set (GetAllSegments rt stt) = spec_live ops {}"
proof -
  obtain st t where stt: "fold (tracker_step rt) ops (empty_store, NewTracker) = (st, t)" by fastforce
  have "live_ids (empty_store, NewTracker) = {}" "all_ids (empty_store, NewTracker) = {}"
    by (simp_all add: live_ids_def all_ids_def NewTracker_def)
  then have run: "tracker_inv (st, t)" "live_ids (st, t) = spec_live ops {}"
    using tracker_run [OF tracker_inv_New [of empty_store] assms(2), of rt] by (simp_all add: stt)
  have "distinct (GetAllSegments rt (st, t))"
    using run(1) by (simp add: tracker_inv_def GetAllSegments_def go_runtime.distinct_sort_slice [OF assms(1)])
  then show ?thesis
    using run by (simp add: stt live_ids_def go_runtime.GetAllSegments_set [OF assms(1)])
qed

definition sample_tracker_ops :: "tracker_op list" where
  "sample_tracker_ops =
     [Track (zero_meta\<lparr>ID := [1]\<rparr>), Track (zero_meta\<lparr>ID := [2]\<rparr>), Count [1] 1 0, Retire [1]]"

lemma sample_tracker_spec: "distinct (tracked_ids sample_tracker_ops)" "spec_live sample_tracker_ops {} = {[2]}"
  by (auto simp: sample_tracker_ops_def tracked_ids_def zero_meta_def)

lemma listing_is_registered_minus_retired_witness:
  "let stt = fold (tracker_step short_runtime) sample_tracker_ops (empty_store, NewTracker)
   in (\<lambda>r. ID (cells (fst stt) r)) ` set (GetAllSegments short_runtime stt) = {[2]}"
  using listing_is_registered_minus_retired [OF short_rt.go_runtime_axioms sample_tracker_spec(1)]
  unfolding sample_tracker_spec(2) Let_def by simp

text \<open>When a segment is registered, its \<^verbatim>\<open>OverlapCount\<close> becomes the number of live segments
  already tracked whose key range overlaps its own, in whatever order the runtime visits the
  map.\<close>

theorem overlap_count_exact:
  assumes "go_runtime rt" "tracker_inv (st, t)" "length (segments t) < 2 ^ 62"
  shows "OverlapCount (cells (fst (RegisterSegment rt r (st, t))) r) =
    int (card {r' \<in> set (ordered t). overlapping st (cells st r) r'})"
proof -
  let ?P = "\<lambda>(k, x). overlapping st (cells st r) x"
  have inj: "inj_on snd (set (segments t))" and d: "distinct (segments t)"
    and img: "snd ` set (segments t) = set (ordered t)"
  proof -
    have "ID (cells st (snd p)) = fst p" if "p \<in> set (segments t)" for p
      using assms(2) that by (auto simp: tracker_inv_def)
    then show "inj_on snd (set (segments t))" by (metis inj_onI prod.expand)
    show "distinct (segments t)" "snd ` set (segments t) = set (ordered t)"
      using assms(2) by (auto simp: tracker_inv_def distinct_map)
  qed
  have len: "length (range_refs rt (segments t)) = length (segments t)"
    using go_runtime.range_refs_perm [OF assms(1)] by (metis size_mset)
  have "count_overlaps st (cells st r) (range_refs rt (segments t)) 0 =
      int (length (filter ?P (segments t)))"
    using count_overlaps_eq [of 0 "range_refs rt (segments t)" st "cells st r"] assms(3) len
      go_runtime.filter_range_refs_size [OF assms(1), of ?P] by simp
  also have "length (filter ?P (segments t)) = card (set (filter ?P (segments t)))"
    by (rule distinct_card [OF distinct_filter [OF d], symmetric])
  also have "\<dots> = card (snd ` set (filter ?P (segments t)))"
    using inj by (intro card_image [symmetric]) (auto simp: inj_on_def)
  also have "snd ` set (filter ?P (segments t)) = {r' \<in> set (ordered t). overlapping st (cells st r) r'}"
    unfolding img [symmetric] by force
  finally show ?thesis by (simp add: RegisterSegment_def Let_def)
qed

definition sample_state :: "store \<times> tracker" where
  "sample_state = (\<lparr>cells = (\<lambda>_. zero_meta)(2 := zero_meta\<lparr>ID := [1], MinKey := [1], MaxKey := [6]\<rparr>,
      3 := zero_meta\<lparr>ID := [2], MinKey := [5], MaxKey := [9]\<rparr>), fresh = 4\<rparr>,
    \<lparr>segments = [([1], 2)], ordered = [2]\<rparr>)"

lemma sample_state_inv: "tracker_inv (fst sample_state, snd sample_state)"
  by (auto simp: tracker_inv_def sample_state_def)

lemma overlap_count_exact_witness:
  "OverlapCount (cells (fst (RegisterSegment backward_runtime 3 sample_state)) 3) = 1"
proof -
  have "{r' \<in> set (ordered (snd sample_state)). overlapping (fst sample_state) (cells (fst sample_state) 3) r'} = {2}"
    by (auto simp: sample_state_def overlapping_def ranges_overlap_def zero_meta_def)
  moreover have "length (segments (snd sample_state)) < 2 ^ 62" by (simp add: sample_state_def)
  ultimately show ?thesis
    using overlap_count_exact [OF backward_rt.go_runtime_axioms sample_state_inv, of 3] by simp
qed

text \<open>C25: The candidates for a key are exactly the live tracked segments whose range contains it, each
  once, ordered by level and, inside a level, from newer to older creation time.\<close>

theorem candidates_for_key:
  assumes "go_runtime rt" "tracker_inv (st, t)"
  shows "set (GetSegmentsForKey rt key (st, t)) =
      {r \<in> set (ordered t). \<not> obsolete (cells st r) \<and> MinKey (cells st r) \<le> key \<and> key \<le> MaxKey (cells st r)} \<and>
    distinct (GetSegmentsForKey rt key (st, t)) \<and>
    sorted_wrt (\<lambda>i j. Level (cells st i) < Level (cells st j) \<or>
      Level (cells st i) = Level (cells st j) \<and> CreatedAt (cells st j) \<le> CreatedAt (cells st i))
      (GetSegmentsForKey rt key (st, t))"
proof -
  have "distinct (ordered t)" using assms(2) by (simp add: tracker_inv_def)
  then show ?thesis
    using go_runtime.GetSegmentsForKey_set [OF assms(1), of key st t]
      go_runtime.GetSegmentsForKey_distinct [OF assms(1), of t key st]
      go_runtime.GetSegmentsForKey_sorted [OF assms(1), of st key t]
    by (simp add: seg_less_iff in_key_range_def)
qed


lemma candidates_for_key_witness:
  "set (GetSegmentsForKey backward_runtime [4] sample_state) = {2}"
proof -
  have "{r \<in> set (ordered (snd sample_state)). \<not> obsolete (cells (fst sample_state) r) \<and>
      MinKey (cells (fst sample_state) r) \<le> [4] \<and> [4] \<le> MaxKey (cells (fst sample_state) r)} = {2}"
    by (auto simp: sample_state_def zero_meta_def)
  then show ?thesis using candidates_for_key [OF backward_rt.go_runtime_axioms sample_state_inv, of "[4]"] by simp
qed

end
