(* ===== verification/Float64.thy ===== *)
theory Float64
  imports Amethyst_Prelude Complex_Main
begin

text \<open>
  The part of IEEE 754 binary64 that the program computes with: conversion from \<^verbatim>\<open>int64\<close>,
  addition, subtraction, multiplication and division, each the exact rational result rounded to
  53 significant bits, ties to even. Every value the program forms is an \<^verbatim>\<open>int64\<close>, a ratio of
  two, or a short chain of these operations on them, so the exponent range of the format
  (infinities and subnormals) is never left and is not modelled; a division by zero is guarded
  where it happens. The locale \<open>rounding\<close> states the laws that the clients use.
\<close>

definition round_half_even :: "rat \<Rightarrow> int" where
  "round_half_even m =
     (let f = \<lfloor>m\<rfloor>; d = m - of_int f
      in if d < 1 / 2 then f else if 1 / 2 < d then f + 1 else if even f then f else f + 1)"

text \<open>The binary exponent of a positive rational, from the bit lengths of its quotient.\<close>

definition binary_exponent :: "rat \<Rightarrow> int" where
  "binary_exponent a =
     (case quotient_of a of (p, q) \<Rightarrow>
        (let e = bitlen p - bitlen q in if a < 2 powi e then e - 1 else e))"

definition fl_pos :: "rat \<Rightarrow> rat" where
  "fl_pos a = (let u = 2 powi (binary_exponent a - 52) in of_int (round_half_even (a / u)) * u)"

definition fl64 :: "rat \<Rightarrow> rat" where
  "fl64 x = (if x = 0 then 0 else if 0 < x then fl_pos x else - fl_pos (- x))"

definition of_int64 :: "int \<Rightarrow> rat" where
  "of_int64 n = fl64 (of_int n)"

definition fadd :: "rat \<Rightarrow> rat \<Rightarrow> rat" where
  "fadd x y = fl64 (x + y)"

definition fsub :: "rat \<Rightarrow> rat \<Rightarrow> rat" where
  "fsub x y = fl64 (x - y)"

definition fmul :: "rat \<Rightarrow> rat \<Rightarrow> rat" where
  "fmul x y = fl64 (x * y)"

definition fdiv :: "rat \<Rightarrow> rat \<Rightarrow> rat" where
  "fdiv x y = fl64 (x / y)"

section \<open>Rounding to the nearest integer\<close>

lemma round_half_even_bounds: "\<lfloor>m\<rfloor> \<le> round_half_even m" "round_half_even m \<le> \<lfloor>m\<rfloor> + 1"
  by (simp_all add: round_half_even_def Let_def)

lemma round_half_even_int [simp]: "round_half_even (of_int n) = n"
  by (simp add: round_half_even_def)

lemma round_half_even_mono:
  assumes "m \<le> n"
  shows "round_half_even m \<le> round_half_even n"
proof (cases "\<lfloor>m\<rfloor> = \<lfloor>n\<rfloor>")
  case True
  then show ?thesis using assms by (auto simp: round_half_even_def Let_def)
next
  case False
  then have "\<lfloor>m\<rfloor> + 1 \<le> \<lfloor>n\<rfloor>" using floor_mono [OF assms] by simp
  then show ?thesis using round_half_even_bounds [of m] round_half_even_bounds [of n] by linarith
qed

section \<open>The exponent\<close>

lemma powi_2_less: "a < b \<Longrightarrow> (2::rat) powi a < 2 powi b"
  by (rule power_int_strict_increasing) simp_all

lemma powi_2_le: "a \<le> b \<Longrightarrow> (2::rat) powi a \<le> 2 powi b"
  using powi_2_less [of a b] by (cases "a = b") auto

lemma powi_2_lessD: "(2::rat) powi a < 2 powi b \<Longrightarrow> a < b"
  using powi_2_le [of b a] by (meson leD leI)

lemma powi_2_add: "(2::rat) powi (a + b) = 2 powi a * 2 powi b"
  by (simp add: power_int_add)

lemma powi_2_pos: "0 < (2::rat) powi a"
  by simp

lemma bitlen_powi:
  assumes "0 < (p::int)"
  shows "(2::rat) powi (bitlen p - 1) \<le> of_int p" "of_int p < (2::rat) powi (bitlen p)"
proof -
  have b: "2 ^ nat (bitlen p - 1) \<le> p" "p < 2 ^ nat (bitlen p)" using bitlen_bounds [OF assms] by auto
  have pos: "0 < bitlen p" using assms by (simp add: bitlen_eq_zero_iff bitlen_nonneg less_le)
  have "(2::rat) powi (bitlen p - 1) = of_int (2 ^ nat (bitlen p - 1))"
    "(2::rat) powi (bitlen p) = of_int (2 ^ nat (bitlen p))"
    using pos by (simp_all add: power_int_def)
  then show "(2::rat) powi (bitlen p - 1) \<le> of_int p" "of_int p < (2::rat) powi (bitlen p)"
    using b by (metis of_int_le_iff, metis of_int_less_iff)
qed


lemma binary_exponent_spec:
  assumes "0 < a"
  shows "2 powi (binary_exponent a) \<le> a" "a < 2 powi (binary_exponent a + 1)"
proof -
  obtain p q where pq: "quotient_of a = (p, q)" by fastforce
  have q: "0 < q" and a: "a = of_int p / of_int q"
    using pq by (simp_all add: quotient_of_denom_pos quotient_of_div)
  have p: "0 < p" using assms q a by (simp add: zero_less_divide_iff)
  let ?e = "bitlen p - bitlen q"
  note bp = bitlen_powi [OF p] and bq = bitlen_powi [OF q]
  have qpos: "(0::rat) < of_int q" using q by simp
  have split: "(2::rat) powi (x - y) * 2 powi y = 2 powi x" for x y
    by (simp add: powi_2_add [symmetric])
  have low: "2 powi (?e - 1) \<le> a"
  proof -
    have "(2::rat) powi (?e - 1) * of_int q \<le> 2 powi (?e - 1) * 2 powi (bitlen q)"
      using bq(2) by (intro mult_left_mono) auto
    also have "\<dots> = 2 powi (bitlen p - 1)" using split [of "bitlen p - 1" "bitlen q"] by (simp add: algebra_simps)
    also have "\<dots> \<le> of_int p" by (rule bp(1))
    finally show ?thesis using qpos by (simp add: a le_divide_eq)
  qed
  have high: "a < 2 powi (?e + 1)"
  proof -
    have "(of_int p :: rat) < 2 powi (bitlen p)" by (rule bp(2))
    also have "\<dots> = 2 powi (?e + 1) * 2 powi (bitlen q - 1)"
      using split [of "bitlen p" "bitlen q - 1"] by (simp add: algebra_simps)
    also have "\<dots> \<le> 2 powi (?e + 1) * of_int q"
      using bq(1) by (intro mult_left_mono) auto
    finally show ?thesis using qpos by (simp add: a divide_less_eq)
  qed
  show "2 powi (binary_exponent a) \<le> a" "a < 2 powi (binary_exponent a + 1)"
    using low high by (auto simp: binary_exponent_def pq Let_def not_less)
qed

lemma binary_exponent_mono: "0 < a \<Longrightarrow> a \<le> b \<Longrightarrow> binary_exponent a \<le> binary_exponent b"
  using binary_exponent_spec [of a] binary_exponent_spec [of b]
    powi_2_lessD [of "binary_exponent a" "binary_exponent b + 1"] by auto

lemma binary_exponent_unique:
  "2 powi k \<le> a \<Longrightarrow> a < 2 powi (k + 1) \<Longrightarrow> binary_exponent a = k"
proof -
  assume k: "2 powi k \<le> a" "a < 2 powi (k + 1)"
  have "0 < a" using k(1) powi_2_pos [of k] by (meson less_le_trans)
  note s = binary_exponent_spec [OF this]
  show ?thesis
    using powi_2_lessD [OF le_less_trans [OF k(1) s(2)]] powi_2_lessD [OF le_less_trans [OF s(1) k(2)]]
    by simp
qed

section \<open>Rounding positive values\<close>

text \<open>The scaled significand lies between \<open>2 ^ 52\<close> and \<open>2 ^ 53\<close>.\<close>

lemma significand_bounds:
  assumes "0 < a"
  defines "u \<equiv> 2 powi (binary_exponent a - 52)"
  shows "0 < u" "2 ^ 52 \<le> a / u" "a / u < 2 ^ 53" "2 ^ 52 * u = 2 powi (binary_exponent a)"
    "2 ^ 53 * u = 2 powi (binary_exponent a + 1)"
proof -
  show u: "0 < u" by (simp add: u_def)
  have p: "(2::rat) ^ 52 = 2 powi 52" "(2::rat) ^ 53 = 2 powi 53" by (simp_all add: power_int_def)
  show e: "2 ^ 52 * u = 2 powi (binary_exponent a)" "2 ^ 53 * u = 2 powi (binary_exponent a + 1)"
    unfolding p u_def by (simp_all add: powi_2_add [symmetric] add.commute del: power_int_numeral)
  show "2 ^ 52 \<le> a / u" using binary_exponent_spec(1) [OF assms(1)] u by (simp add: le_divide_eq e del: power_numeral)
  show "a / u < 2 ^ 53" using binary_exponent_spec(2) [OF assms(1)] u by (simp add: divide_less_eq e del: power_numeral)
qed

lemma round_significand:
  assumes "2 ^ 52 \<le> m" "m < 2 ^ 53"
  shows "2 ^ 52 \<le> round_half_even m" "round_half_even m \<le> 2 ^ 53"
proof -
  have "round_half_even (of_int (2 ^ 52)) \<le> round_half_even m"
    by (rule round_half_even_mono) (use assms(1) in simp)
  then show "2 ^ 52 \<le> round_half_even m" unfolding round_half_even_int .
  have "round_half_even m \<le> round_half_even (of_int (2 ^ 53))"
    by (rule round_half_even_mono) (use assms(2) in simp)
  then show "round_half_even m \<le> 2 ^ 53" unfolding round_half_even_int .
qed

lemma fl_pos_range:
  assumes "0 < a"
  shows "2 powi (binary_exponent a) \<le> fl_pos a" "fl_pos a \<le> 2 powi (binary_exponent a + 1)"
proof -
  let ?u = "2 powi (binary_exponent a - 52) :: rat"
  note sb = significand_bounds [OF assms]
  note r = round_significand [OF sb(2,3)]
  have "of_int (2 ^ 52) * ?u \<le> of_int (round_half_even (a / ?u)) * ?u"
    by (rule mult_right_mono) (use r(1) in \<open>simp only: of_int_le_iff\<close>, simp)
  then show "2 powi (binary_exponent a) \<le> fl_pos a"
    unfolding fl_pos_def Let_def sb(4) [symmetric] by simp
  have "of_int (round_half_even (a / ?u)) * ?u \<le> of_int (2 ^ 53) * ?u"
    by (rule mult_right_mono) (use r(2) in \<open>simp only: of_int_le_iff\<close>, simp)
  then show "fl_pos a \<le> 2 powi (binary_exponent a + 1)"
    unfolding fl_pos_def Let_def sb(5) [symmetric] by simp
qed

lemma fl_pos_pos: "0 < a \<Longrightarrow> 0 < fl_pos a"
  using fl_pos_range(1) [of a] powi_2_pos [of "binary_exponent a"] by (rule less_le_trans [rotated])

lemma fl_pos_mono:
  assumes "0 < a" "a \<le> b"
  shows "fl_pos a \<le> fl_pos b"
proof (cases "binary_exponent a = binary_exponent b")
  case True
  have "round_half_even (a / 2 powi (binary_exponent b - 52)) \<le> round_half_even (b / 2 powi (binary_exponent b - 52))"
    using assms(2) by (intro round_half_even_mono divide_right_mono) auto
  then show ?thesis
    unfolding fl_pos_def Let_def True by (intro mult_right_mono) auto
next
  case False
  then have "binary_exponent a + 1 \<le> binary_exponent b"
    using binary_exponent_mono [OF assms] by simp
  then have "(2::rat) powi (binary_exponent a + 1) \<le> 2 powi (binary_exponent b)"
    by (rule powi_2_le)
  moreover have "0 < b" using assms by simp
  ultimately show ?thesis
    using fl_pos_range(2) [OF assms(1)] fl_pos_range(1) [of b] by (meson order_trans)
qed

text \<open>A value with at most 53 significant bits is left alone.\<close>

lemma fl_pos_exact:
  assumes "0 < j" "j < 2 ^ 53" "a = of_int j * 2 powi e"
  shows "fl_pos a = a"
proof -
  let ?k = "binary_exponent a"
  have apos: "0 < a" using assms by simp
  have "(2::rat) powi ?k \<le> a" by (rule binary_exponent_spec [OF apos])
  also have "a < of_int (2 ^ 53) * 2 powi e"
    unfolding assms(3) by (rule mult_strict_right_mono) (use assms(2) in \<open>simp only: of_int_less_iff\<close>, simp)
  also have "\<dots> = 2 powi (53 + e)"
  proof -
    have "(2::rat) powi 53 = of_int (2 ^ 53)" by (simp add: power_int_def)
    then show ?thesis by (simp only: powi_2_add)
  qed
  finally have "?k < 53 + e" by (rule powi_2_lessD)
  have "a / 2 powi (?k - 52) = of_int j * 2 powi (e - (?k - 52))"
    unfolding assms(3) by (simp add: power_int_diff)
  also have "\<dots> = of_int (j * 2 ^ nat (e - (?k - 52)))"
    using \<open>?k < 53 + e\<close> by (simp add: power_int_def)
  finally have q: "a / 2 powi (?k - 52) = of_int (j * 2 ^ nat (e - (?k - 52)))" .
  then have "round_half_even (a / 2 powi (?k - 52)) = j * 2 ^ nat (e - (?k - 52))"
    by (simp only: round_half_even_int)
  then have "fl_pos a = of_int (j * 2 ^ nat (e - (?k - 52))) * 2 powi (?k - 52)"
    by (simp add: fl_pos_def Let_def)
  also have "\<dots> = (a / 2 powi (?k - 52)) * 2 powi (?k - 52)"
    by (simp only: q)
  finally show ?thesis by simp
qed

lemma fl_pos_idem:
  assumes "0 < a"
  shows "fl_pos (fl_pos a) = fl_pos a"
proof -
  let ?u = "2 powi (binary_exponent a - 52) :: rat"
  let ?r = "round_half_even (a / ?u)"
  note r = round_significand [OF significand_bounds(2,3) [OF assms]]
  show ?thesis
  proof (cases "?r = 2 ^ 53")
    case False
    then show ?thesis
      using r by (intro fl_pos_exact [of ?r]) (auto simp: fl_pos_def Let_def)
  next
    case True
    have "fl_pos a = of_int 1 * 2 powi (binary_exponent a + 1)"
      unfolding fl_pos_def Let_def True using significand_bounds(5) [OF assms] by simp
    then show ?thesis by (intro fl_pos_exact [of 1]) auto
  qed
qed

section \<open>The interface of rounding\<close>

locale rounding =
  fixes fl :: "rat \<Rightarrow> rat"
  assumes fl_zero: "fl 0 = 0"
    and fl_mono: "x \<le> y \<Longrightarrow> fl x \<le> fl y"
    and fl_idem: "fl (fl x) = fl x"
    and fl_small: "\<bar>n\<bar> < 2 ^ 53 \<Longrightarrow> fl (of_int n) = of_int n"
    and fl_error: "0 \<le> x \<Longrightarrow> \<bar>fl x - x\<bar> \<le> x / 2 ^ 53"
begin

lemma fl_one: "fl 1 = 1"
  using fl_small [of 1] by simp

lemma fl_nonneg: "0 \<le> x \<Longrightarrow> 0 \<le> fl x"
  using fl_mono [of 0 x] by (simp add: fl_zero)

lemma fl_le_rep: "x \<le> y \<Longrightarrow> fl y = y \<Longrightarrow> fl x \<le> y"
  using fl_mono [of x y] by simp

lemma fl_ge_rep: "y \<le> x \<Longrightarrow> fl y = y \<Longrightarrow> y \<le> fl x"
  using fl_mono [of y x] by simp

text \<open>A quotient of a rounded difference by its minuend stays in the unit interval.\<close>

lemma relative_difference:
  assumes "0 < v" "fl v = v" "0 \<le> e"
  shows "fl (fl (v - e) / v) \<le> 1"
proof -
  have "fl (v - e) \<le> v" using assms by (intro fl_le_rep) auto
  then have "fl (v - e) / v \<le> 1" using assms(1) by simp
  then show ?thesis by (rule fl_le_rep) (rule fl_one)
qed

text \<open>Bounds on the relative error that are coarse enough to calculate with.\<close>

lemma fl_fine:
  assumes "0 \<le> x"
  shows "999999 / 1000000 * x \<le> fl x" "fl x \<le> 1000001 / 1000000 * x"
proof -
  have "x / 2 ^ 53 \<le> x / 1000000" using assms by (intro divide_left_mono) auto
  then show "999999 / 1000000 * x \<le> fl x" "fl x \<le> 1000001 / 1000000 * x"
    using fl_error [OF assms] by linarith+
qed

lemma fl_coarse:
  assumes "0 \<le> x"
  shows "999 / 1000 * x \<le> fl x" "fl x \<le> 1001 / 1000 * x"
  using fl_fine [OF assms] assms by linarith+

end

text \<open>Half a unit in the last place bounds the error.\<close>

lemma round_half_even_error: "\<bar>of_int (round_half_even m) - m\<bar> \<le> 1 / 2"
proof -
  have "of_int \<lfloor>m\<rfloor> \<le> m" "m < of_int \<lfloor>m\<rfloor> + 1" by linarith+
  then show ?thesis by (auto simp: round_half_even_def Let_def abs_le_iff)
qed

lemma fl_pos_error:
  assumes "0 < a"
  shows "\<bar>fl_pos a - a\<bar> \<le> a / 2 ^ 53"
proof -
  let ?u = "2 powi (binary_exponent a - 52) :: rat"
  note sb = significand_bounds [OF assms]
  have "\<bar>fl_pos a - a\<bar> = \<bar>of_int (round_half_even (a / ?u)) - a / ?u\<bar> * ?u"
  proof -
    have "fl_pos a - a = (of_int (round_half_even (a / ?u)) - a / ?u) * ?u"
      by (simp add: fl_pos_def Let_def left_diff_distrib)
    then show ?thesis by (simp only: abs_mult abs_of_pos [OF sb(1)])
  qed
  also have "\<dots> \<le> 1 / 2 * ?u"
    by (intro mult_right_mono round_half_even_error) simp
  also have "\<dots> \<le> 1 / 2 * (a / 2 ^ 52)"
    using sb(2) sb(1) by (intro mult_left_mono) (simp_all add: field_simps)
  finally show ?thesis by simp
qed

lemma fl64_pos: "0 < x \<Longrightarrow> fl64 x = fl_pos x"
  by (simp add: fl64_def)

lemma fl64_neg: "fl64 (- x) = - fl64 x"
  by (simp add: fl64_def)

lemma fl64_zero [simp]: "fl64 0 = 0"
  by (simp add: fl64_def)

lemma fl64_mono: "x \<le> y \<Longrightarrow> fl64 x \<le> fl64 y"
proof -
  assume le: "x \<le> y"
  consider "0 < x" | "x \<le> 0" "0 \<le> y" | "y < 0" by linarith
  then show ?thesis
  proof cases
    case 1
    then show ?thesis using le fl_pos_mono by (simp add: fl64_def)
  next
    case 2
    have "fl64 x \<le> 0" using 2 fl_pos_pos [of "- x"] by (auto simp: fl64_def)
    moreover have "0 \<le> fl64 y" using 2 fl_pos_pos [of y] by (auto simp: fl64_def)
    ultimately show ?thesis by simp
  next
    case 3
    then show ?thesis using le fl_pos_mono [of "- y" "- x"] by (simp add: fl64_def)
  qed
qed

lemma fl64_idem: "fl64 (fl64 x) = fl64 x"
proof -
  consider "0 < x" | "x = 0" | "x < 0" by linarith
  then show ?thesis
  proof cases
    case 1
    then show ?thesis using fl_pos_pos fl_pos_idem by (simp add: fl64_def)
  next
    case 3
    then show ?thesis using fl_pos_pos [of "- x"] fl_pos_idem [of "- x"] by (simp add: fl64_def)
  qed simp
qed

lemma fl64_small: "\<bar>n\<bar> < 2 ^ 53 \<Longrightarrow> fl64 (of_int n) = of_int n"
  using fl_pos_exact [of n "of_int n" 0] fl_pos_exact [of "- n" "of_int (- n)" 0]
  by (auto simp: fl64_def)

lemma fl64_error: "0 \<le> x \<Longrightarrow> \<bar>fl64 x - x\<bar> \<le> x / 2 ^ 53"
  using fl_pos_error [of x] by (cases "x = 0") (simp_all add: fl64_def)

interpretation fl: rounding fl64
  by unfold_locales (simp_all add: fl64_mono fl64_idem fl64_small fl64_error del: power_numeral)

end
