(* ===== verification/Adaptive.thy ===== *)
theory Adaptive
  imports Common_Types Float64
begin

text \<open>
  \<^verbatim>\<open>internal/adaptive/controller.go\<close>: the controller that decides from a segment's counters
  when it changes its compaction strategy. A reading of \<^verbatim>\<open>time.Now()\<close> has a wall clock part
  (\<^verbatim>\<open>Unix\<close> seconds) and a monotonic part (nanoseconds), which is what \<^verbatim>\<open>time.Since\<close> subtracts;
  one call makes up to four readings, which are its argument. Floating point operations round
  as in \<open>Float64\<close>, each on its own (the language also allows a fused multiply and add).
  \<^verbatim>\<open>ReadWriteRatio\<close> of \<^verbatim>\<open>internal/common/types.go\<close> is here because it needs \<^verbatim>\<open>float64\<close> too.
\<close>

definition MinSegmentSize :: int where
  "MinSegmentSize = 4 * 1024"

definition MinRewriteInterval :: int where
  "MinRewriteInterval = 2"

definition MinSwitchInterval :: int where
  "MinSwitchInterval = 2 * 1000000000"

definition WindowSize :: nat where
  "WindowSize = 5"

definition ReadWriteRatio :: "segment_meta \<Rightarrow> rat" where
  "ReadWriteRatio s =
     (if GetWriteCount s = 0 then of_int64 (GetReadCount s)
      else fdiv (of_int64 (GetReadCount s)) (of_int64 (GetWriteCount s)))"

record metric_snapshot =
  Timestamp :: int
  ReadCount :: int
  WriteCount :: int

record instant =
  unix :: int
  mono :: int

text \<open>The readings of one call: at its start, in the snapshot, in \<^verbatim>\<open>Since\<close>, at the switch.\<close>

record clock =
  at_start :: instant
  at_snapshot :: instant
  at_since :: instant
  at_switch :: instant

record fsm =
  segmentHistory :: "gostring \<rightharpoonup> metric_snapshot list"
  lastSwitch :: instant

definition NewFSMController :: "instant \<Rightarrow> fsm" where
  "NewFSMController t = \<lparr>segmentHistory = Map.empty, lastSwitch = t\<rparr>"

text \<open>\<^verbatim>\<open>c.segmentHistory[id]\<close>: the zero value of a missing key is the nil slice.\<close>

definition history_of :: "fsm \<Rightarrow> gostring \<Rightarrow> metric_snapshot list" where
  "history_of c k = (case segmentHistory c k of None \<Rightarrow> [] | Some h \<Rightarrow> h)"

definition updateSegmentHistory :: "instant \<Rightarrow> segment_meta \<Rightarrow> fsm \<Rightarrow> fsm" where
  "updateSegmentHistory t meta c =
     (let snapshot = \<lparr>Timestamp = unix t, ReadCount = GetReadCount meta,
                      WriteCount = GetWriteCount meta\<rparr>;
          history = history_of c (ID meta) @ [snapshot];
          history' = (if WindowSize < length history
                      then drop (length history - WindowSize) history else history)
      in c\<lparr>segmentHistory := (segmentHistory c)(ID meta \<mapsto> history')\<rparr>)"

text \<open>The \<^verbatim>\<open>float64\<close> constants \<^verbatim>\<open>0.2\<close>, \<^verbatim>\<open>0.3\<close> and \<^verbatim>\<open>100\<close>.\<close>

definition alpha :: rat where
  "alpha = fl64 (1 / 5)"

definition threshold :: rat where
  "threshold = fl64 (3 / 10)"

definition metric_value :: "string \<Rightarrow> metric_snapshot \<Rightarrow> rat" where
  "metric_value metric s =
     (if metric = ''read'' then of_int64 (ReadCount s) else of_int64 (WriteCount s))"

fun trend_loop :: "string \<Rightarrow> metric_snapshot list \<Rightarrow> rat \<Rightarrow> rat \<Rightarrow> rat \<times> rat" where
  "trend_loop metric [] ema latest = (ema, latest)"
| "trend_loop metric (s # ss) ema latest =
     (let value = metric_value metric s
      in trend_loop metric ss (fadd (fmul alpha value) (fmul (fsub 1 alpha) ema)) value)"

definition calculateTrend :: "metric_snapshot list \<Rightarrow> string \<Rightarrow> rat" where
  "calculateTrend history metric =
     (case history of
        [] \<Rightarrow> 0
      | h # rest \<Rightarrow>
          (case trend_loop metric rest (metric_value metric h) 0 of
             (ema, latest) \<Rightarrow>
               if latest = 0 then 0
               else let trend = fdiv (fsub latest ema) latest
                    in if trend < 0 then 0 else trend))"

text \<open>The reasons, with the arguments of their format strings.\<close>

datatype switch_reason =
  NoReason
| SustainedReads rat int
| SustainedWrites rat int

definition ShouldRewrite ::
  "clock \<Rightarrow> segment_meta \<Rightarrow> fsm \<Rightarrow> (bool \<times> CompactionType \<times> switch_reason) \<times> fsm" where
  "ShouldRewrite clk meta c =
     (if \<not> CooldownExpired meta (unix (at_start clk)) MinRewriteInterval
      then ((False, Strategy meta, NoReason), c)
      else if Size meta < MinSegmentSize then ((False, Strategy meta, NoReason), c)
      else
        let c1 = updateSegmentHistory (at_snapshot clk) meta c;
            history = history_of c1 (ID meta)
        in if length history < 3 then ((False, Strategy meta, NoReason), c1)
           else if mono (at_since clk) - mono (lastSwitch c1) < MinSwitchInterval
           then ((False, Strategy meta, NoReason), c1)
           else
             let readTrend = calculateTrend history ''read'';
                 writeTrend = calculateTrend history ''write''
             in case Strategy meta of
                  TIERED \<Rightarrow>
                    if threshold < readTrend \<and> 500 < GetReadCount meta
                    then ((True, LEVELED, SustainedReads (fmul readTrend 100) (GetReadCount meta)),
                          c1\<lparr>lastSwitch := at_switch clk\<rparr>)
                    else ((False, Strategy meta, NoReason), c1)
                | LEVELED \<Rightarrow>
                    if threshold < writeTrend \<and> 10 < GetWriteCount meta
                    then ((True, TIERED, SustainedWrites (fmul writeTrend 100) (GetWriteCount meta)),
                          c1\<lparr>lastSwitch := at_switch clk\<rparr>)
                    else ((False, Strategy meta, NoReason), c1))"

section \<open>The window of snapshots\<close>

definition snapshot_of :: "instant \<Rightarrow> segment_meta \<Rightarrow> metric_snapshot" where
  "snapshot_of t meta = \<lparr>Timestamp = unix t, ReadCount = readCount meta, WriteCount = writeCount meta\<rparr>"

definition last_n :: "nat \<Rightarrow> 'a list \<Rightarrow> 'a list" where
  "last_n n xs = drop (length xs - n) xs"

lemma last_n_snoc: "last_n n (last_n n xs @ [x]) = last_n n (xs @ [x])"
proof (cases n)
  case (Suc m)
  then show ?thesis
    by (cases "length xs \<le> m") (auto simp: last_n_def Suc_diff_Suc not_le)
qed (simp add: last_n_def)

lemma length_last_n [simp]: "length (last_n n xs) = min n (length xs)"
  by (simp add: last_n_def)

lemma history_of_update:
  "history_of (updateSegmentHistory t meta c) k =
     (if k = ID meta then last_n WindowSize (history_of c k @ [snapshot_of t meta]) else history_of c k)"
  by (auto simp: updateSegmentHistory_def history_of_def Let_def last_n_def snapshot_of_def
      GetReadCount_def GetWriteCount_def)

lemma lastSwitch_update [simp]: "lastSwitch (updateSegmentHistory t meta c) = lastSwitch c"
  by (simp add: updateSegmentHistory_def Let_def)

text \<open>Recording any sequence of observations keeps, per segment, the last five.\<close>

definition record_all :: "(instant \<times> segment_meta) list \<Rightarrow> fsm \<Rightarrow> fsm" where
  "record_all obs c = fold (\<lambda>(t, m). updateSegmentHistory t m) obs c"

definition observed :: "gostring \<Rightarrow> (instant \<times> segment_meta) list \<Rightarrow> metric_snapshot list" where
  "observed k obs = [snapshot_of t m. (t, m) \<leftarrow> obs, ID m = k]"

lemma history_of_record_all:
  "history_of (record_all obs (NewFSMController t0)) k = last_n WindowSize (observed k obs)"
proof (induction obs rule: rev_induct)
  case Nil
  show ?case by (simp add: record_all_def NewFSMController_def history_of_def observed_def last_n_def)
next
  case (snoc p obs)
  obtain t m where p: "p = (t, m)" by fastforce
  have rec: "record_all (obs @ [p]) c = updateSegmentHistory t m (record_all obs c)" for c
    by (simp add: record_all_def p)
  have obs: "observed k (obs @ [p]) = observed k obs @ (if ID m = k then [snapshot_of t m] else [])"
    by (simp add: observed_def p)
  show ?case
    unfolding rec history_of_update obs snoc.IH by (auto simp: last_n_snoc)
qed

section \<open>The trend\<close>

lemma metric_value_eq: "metric_value metric s = of_int64 (if metric = ''read'' then ReadCount s else WriteCount s)"
  by (simp add: metric_value_def)

definition metric_count :: "string \<Rightarrow> metric_snapshot \<Rightarrow> int" where
  "metric_count metric s = (if metric = ''read'' then ReadCount s else WriteCount s)"

lemma metric_value_count: "metric_value metric s = of_int64 (metric_count metric s)"
  by (simp add: metric_value_def metric_count_def)

lemma trend_loop_snoc:
  "trend_loop metric (ss @ [s]) ema l =
     (fadd (fmul alpha (metric_value metric s)) (fmul (fsub 1 alpha) (fst (trend_loop metric ss ema l))),
      metric_value metric s)"
  by (induction ss arbitrary: ema l) (simp_all add: Let_def)

lemma alpha_bounds: "1999 / 10000 \<le> alpha" "alpha \<le> 2001 / 10000"
  "7998 / 10000 \<le> fsub 1 alpha" "fsub 1 alpha \<le> 8002 / 10000"
proof -
  have a: "199999 / 1000000 \<le> alpha" "alpha \<le> 200001 / 1000000"
    unfolding alpha_def using fl.fl_fine [of "1 / 5"] by simp_all
  then show "1999 / 10000 \<le> alpha" "alpha \<le> 2001 / 10000" by simp_all
  show "7998 / 10000 \<le> fsub 1 alpha" "fsub 1 alpha \<le> 8002 / 10000"
    using a fl.fl_fine [of "1 - alpha"] unfolding fsub_def by simp_all
qed

lemma threshold_bounds: "299 / 1000 \<le> threshold" "threshold \<le> 301 / 1000"
  unfolding threshold_def using fl.fl_fine [of "3 / 10"] by simp_all

definition ema_step :: "rat \<Rightarrow> rat \<Rightarrow> rat" where
  "ema_step v e = fadd (fmul alpha v) (fmul (fsub 1 alpha) e)"

lemma two_products:
  fixes v e a b fa fb s :: rat
  assumes "1999 / 10000 * v \<le> a" "a \<le> 2001 / 10000 * v"
    "7998 / 10000 * e \<le> b" "b \<le> 8002 / 10000 * e"
    "999 / 1000 * a \<le> fa" "fa \<le> 1001 / 1000 * a" "999 / 1000 * b \<le> fb" "fb \<le> 1001 / 1000 * b"
    "999 / 1000 * (fa + fb) \<le> s" "s \<le> 1001 / 1000 * (fa + fb)" "0 \<le> v" "0 \<le> e"
  shows "998 / 1000 * (1999 / 10000 * v + 7998 / 10000 * e) \<le> s"
    "s \<le> 10021 / 10000 * (2001 / 10000 * v + 8002 / 10000 * e)"
proof -
  have "998 / 1000 * (a + b) \<le> s" "s \<le> 10021 / 10000 * (a + b)"
    using assms by (simp_all add: field_simps)
  then show "998 / 1000 * (1999 / 10000 * v + 7998 / 10000 * e) \<le> s"
    "s \<le> 10021 / 10000 * (2001 / 10000 * v + 8002 / 10000 * e)"
    using assms(1-4) by (simp_all add: field_simps)
qed

lemma ema_step_bounds:
  assumes "0 \<le> v" "0 \<le> e"
  shows "998 / 1000 * (1999 / 10000 * v + 7998 / 10000 * e) \<le> ema_step v e"
    "ema_step v e \<le> 10021 / 10000 * (2001 / 10000 * v + 8002 / 10000 * e)"
proof -
  let ?a = "alpha * v" and ?b = "fsub 1 alpha * e"
  have a: "1999 / 10000 * v \<le> ?a" "?a \<le> 2001 / 10000 * v"
    and b: "7998 / 10000 * e \<le> ?b" "?b \<le> 8002 / 10000 * e"
    using alpha_bounds assms by (blast intro: mult_right_mono)+
  have pos: "0 \<le> ?a" "0 \<le> ?b" using a b assms by linarith+
  note fa = fl.fl_coarse [OF pos(1)] and fb = fl.fl_coarse [OF pos(2)]
  have s: "0 \<le> fl64 ?a + fl64 ?b" using fl.fl_nonneg pos by simp
  note fs = fl.fl_coarse [OF s]
  show "998 / 1000 * (1999 / 10000 * v + 7998 / 10000 * e) \<le> ema_step v e"
    "ema_step v e \<le> 10021 / 10000 * (2001 / 10000 * v + 8002 / 10000 * e)"
    unfolding ema_step_def fadd_def fmul_def
    by (rule two_products [OF a b fa fb fs assms])+
qed

lemma trend_loop_step:
  "trend_loop metric (s # ss) e l =
     trend_loop metric ss (ema_step (metric_value metric s) e) (metric_value metric s)"
  by (simp add: ema_step_def Let_def)

text \<open>Both bounds are kept by a step, whatever the number of steps.\<close>

lemma ema_lower:
  assumes "0 \<le> L" "72 / 100 * L \<le> e" "\<forall>s \<in> set ss. 748 / 1000 * L \<le> metric_value metric s"
  shows "72 / 100 * L \<le> fst (trend_loop metric ss e l)"
  using assms(2,3)
proof (induction ss arbitrary: e l)
  case (Cons s ss)
  have "0 \<le> metric_value metric s" "0 \<le> e" using Cons.prems assms(1) by auto
  then have "72 / 100 * L \<le> ema_step (metric_value metric s) e"
    using ema_step_bounds(1) [of "metric_value metric s" e] Cons.prems assms(1) by simp
  then show ?case unfolding trend_loop_step using Cons.IH Cons.prems(2) by simp
qed simp

lemma ema_upper:
  assumes "0 \<le> L" "0 \<le> e" "e \<le> 51 / 100 * L"
    "\<forall>s \<in> set ss. 0 \<le> metric_value metric s \<and> metric_value metric s \<le> 502 / 1000 * L"
  shows "0 \<le> fst (trend_loop metric ss e l) \<and> fst (trend_loop metric ss e l) \<le> 51 / 100 * L"
  using assms(2-)
proof (induction ss arbitrary: e l)
  case (Cons s ss)
  have "0 \<le> ema_step (metric_value metric s) e" "ema_step (metric_value metric s) e \<le> 51 / 100 * L"
    using ema_step_bounds [of "metric_value metric s" e] Cons.prems assms(1) by simp_all
  then show ?case unfolding trend_loop_step using Cons.IH Cons.prems(3) by simp
qed simp

lemma of_int64_coarse:
  assumes "0 \<le> n"
  shows "999 / 1000 * of_int n \<le> of_int64 n" "of_int64 n \<le> 1001 / 1000 * of_int n"
  unfolding of_int64_def using assms by (simp_all only: fl.fl_coarse of_int_0_le_iff)

lemma calculateTrend_snoc:
  "calculateTrend (h # ss @ [s]) metric =
     (let L = metric_value metric s;
          e = ema_step L (fst (trend_loop metric ss (metric_value metric h) 0))
      in if L = 0 then 0 else max 0 (fdiv (fsub L e) L))"
  by (simp add: calculateTrend_def trend_loop_snoc ema_step_def Let_def max_def)

lemma of_int64_pos: "0 < n \<Longrightarrow> 0 < of_int64 n"
  unfolding of_int64_def by (simp add: fl64_pos fl_pos_pos)


lemma values_coarse:
  assumes "0 \<le> n" "0 \<le> m"
  shows "3 * m \<le> 4 * n \<Longrightarrow> 748 / 1000 * of_int64 m \<le> of_int64 n"
    "2 * n \<le> m \<Longrightarrow> of_int64 n \<le> 502 / 1000 * of_int64 m"
proof -
  note c = of_int64_coarse [OF assms(1)] of_int64_coarse [OF assms(2)]
  have pos: "0 \<le> (of_int m :: rat)" "0 \<le> (of_int n :: rat)" using assms by simp_all
  show "748 / 1000 * of_int64 m \<le> of_int64 n" if "3 * m \<le> 4 * n"
  proof -
    have "3 * of_int m \<le> (4 * of_int n :: rat)" using that by (metis of_int_le_iff of_int_mult of_int_numeral)
    then show ?thesis using c pos by (simp add: field_simps)
  qed
  show "of_int64 n \<le> 502 / 1000 * of_int64 m" if "2 * n \<le> m"
  proof -
    have "2 * of_int n \<le> (of_int m :: rat)" using that by (metis of_int_le_iff of_int_mult of_int_numeral)
    then show ?thesis using c pos by (simp add: field_simps)
  qed
qed

lemma fdiv_coarse:
  assumes "0 < y" "0 \<le> x"
  shows "x \<le> q * y \<Longrightarrow> fdiv x y \<le> 1001 / 1000 * q" "q * y \<le> x \<Longrightarrow> 999 / 1000 * q \<le> fdiv x y"
proof -
  have "0 \<le> x / y" using assms by simp
  note c = fl.fl_coarse [OF this]
  show "fdiv x y \<le> 1001 / 1000 * q" if "x \<le> q * y"
  proof -
    have "x / y \<le> q" using that assms(1) by (simp add: pos_divide_le_eq)
    then show ?thesis using c(2) unfolding fdiv_def by linarith
  qed
  show "999 / 1000 * q \<le> fdiv x y" if "q * y \<le> x"
  proof -
    have "q \<le> x / y" using that assms(1) by (simp add: pos_le_divide_eq)
    then show ?thesis using c(1) unfolding fdiv_def by simp
  qed
qed

text \<open>Counters that have not grown by a third in the window stay below the threshold.\<close>

lemma calculateTrend_small:
  assumes "\<forall>x \<in> set (h # ss @ [s]). 0 \<le> metric_count metric x \<and>
      3 * metric_count metric s \<le> 4 * metric_count metric x"
  shows "calculateTrend (h # ss @ [s]) metric \<le> threshold"
proof -
  let ?L = "metric_value metric s"
  let ?e = "ema_step ?L (fst (trend_loop metric ss (metric_value metric h) 0))"
  have pos: "0 \<le> ?L" using assms by (simp add: metric_value_count of_int64_def fl.fl_nonneg)
  have low: "748 / 1000 * ?L \<le> metric_value metric x" if "x \<in> set (h # ss @ [s])" for x
  proof -
    have "0 \<le> metric_count metric x" "0 \<le> metric_count metric s"
      "3 * metric_count metric s \<le> 4 * metric_count metric x" using assms that by auto
    then show ?thesis unfolding metric_value_count by (rule values_coarse(1))
  qed
  have "72 / 100 * ?L \<le> metric_value metric h" using low [of h] pos by simp
  then have "72 / 100 * ?L \<le> fst (trend_loop metric (ss @ [s]) (metric_value metric h) 0)"
    using low by (intro ema_lower [OF pos]) auto
  then have e: "?L - ?e \<le> 28 / 100 * ?L" by (simp add: trend_loop_snoc ema_step_def)
  have "fdiv (fsub ?L ?e) ?L \<le> 299 / 1000" if "0 < ?L"
  proof (cases "0 \<le> ?L - ?e")
    case True
    then have "0 \<le> fsub ?L ?e" "fsub ?L ?e \<le> 281 / 1000 * ?L"
      using fl.fl_coarse(2) [of "?L - ?e"] e that fl.fl_nonneg by (auto simp: fsub_def)
    then show ?thesis using fdiv_coarse(1) [OF that, of "fsub ?L ?e" "281 / 1000"] by simp
  next
    case False
    then have "fsub ?L ?e \<le> 0" using fl64_mono [of "?L - ?e" 0] by (simp add: fsub_def)
    then have "fdiv (fsub ?L ?e) ?L \<le> 0"
      using fl64_mono [of "fsub ?L ?e / ?L" 0] that by (simp add: fdiv_def divide_le_0_iff)
    then show ?thesis by simp
  qed
  then show ?thesis
    using threshold_bounds(1) pos by (auto simp: calculateTrend_snoc Let_def)
qed

text \<open>A counter that the last snapshot finds doubled exceeds it.\<close>

lemma calculateTrend_large:
  assumes "0 < metric_count metric s"
    "\<forall>x \<in> set (h # ss). 0 \<le> metric_count metric x \<and> 2 * metric_count metric x \<le> metric_count metric s"
  shows "threshold < calculateTrend (h # ss @ [s]) metric"
proof -
  let ?L = "metric_value metric s"
  let ?f = "fst (trend_loop metric ss (metric_value metric h) 0)"
  have pos: "0 < ?L" using assms(1) by (simp add: metric_value_count of_int64_pos)
  have up: "0 \<le> metric_value metric x \<and> metric_value metric x \<le> 502 / 1000 * ?L" if "x \<in> set (h # ss)" for x
  proof -
    have "0 \<le> metric_count metric x" "2 * metric_count metric x \<le> metric_count metric s"
      using assms(2) that by auto
    then show ?thesis
      using assms(1) values_coarse(2) [of "metric_count metric x" "metric_count metric s"]
      unfolding metric_value_count by (simp add: of_int64_def fl.fl_nonneg)
  qed
  have "0 \<le> ?f \<and> ?f \<le> 51 / 100 * ?L"
  proof (rule ema_upper)
    show "metric_value metric h \<le> 51 / 100 * ?L" using up [of h] pos by simp
  qed (use up pos in auto)
  then have "ema_step ?L ?f \<le> 61 / 100 * ?L"
    using ema_step_bounds(2) [of ?L ?f] pos by simp
  then have d: "39 / 100 * ?L \<le> ?L - ema_step ?L ?f" by simp
  then have "0 \<le> fsub ?L (ema_step ?L ?f)" "38 / 100 * ?L \<le> fsub ?L (ema_step ?L ?f)"
    using fl.fl_coarse(1) [of "?L - ema_step ?L ?f"] pos by (simp_all add: fsub_def fl.fl_nonneg)
  then have "999 / 1000 * (38 / 100) \<le> fdiv (fsub ?L (ema_step ?L ?f)) ?L"
    by (intro fdiv_coarse(2) [OF pos])
  then show ?thesis
    using threshold_bounds(2) pos by (simp add: calculateTrend_snoc Let_def)
qed

lemma calculateTrend_range:
  assumes "\<forall>x \<in> set history. 0 \<le> metric_count metric x"
  shows "0 \<le> calculateTrend history metric" "calculateTrend history metric \<le> 1"
proof -
  consider "history = []" | h where "history = [h]" | h ss s where "history = h # ss @ [s]"
    by (metis neq_Nil_conv rev_exhaust)
  then have "0 \<le> calculateTrend history metric \<and> calculateTrend history metric \<le> 1"
  proof cases
    case (3 h ss s)
    let ?v = "metric_value metric"
    have v: "0 \<le> ?v x" if "x \<in> set history" for x
      using assms that by (simp add: metric_value_count of_int64_def fl.fl_nonneg)
    have step: "0 \<le> ema_step a b" if "0 \<le> a" "0 \<le> b" for a b
      using ema_step_bounds(1) [OF that] that by simp
    have "0 \<le> fst (trend_loop metric xs e l)" if "0 \<le> e" "\<forall>x \<in> set xs. 0 \<le> ?v x" for xs e l
      using that
    proof (induction xs arbitrary: e l)
      case (Cons x xs)
      then show ?case unfolding trend_loop_step by (intro Cons.IH step) auto
    qed simp
    then have e: "0 \<le> ema_step (?v s) (fst (trend_loop metric ss (?v h) 0))"
      using v 3 by (intro step) auto
    have "0 \<le> ?v s" "fl64 (?v s) = ?v s" using v 3 by (auto simp: metric_value_count of_int64_def fl64_idem)
    then show ?thesis
      unfolding 3 calculateTrend_snoc Let_def
      using fl.relative_difference [OF _ _ e, of "?v s"] by (auto simp: fdiv_def fsub_def)
  qed (simp_all add: calculateTrend_def)
  then show "0 \<le> calculateTrend history metric" "calculateTrend history metric \<le> 1" by simp_all
qed

section \<open>The decision\<close>

text \<open>What must hold for a switch, apart from the trend, and the counter that it looks at.\<close>

definition may_switch :: "clock \<Rightarrow> segment_meta \<Rightarrow> fsm \<Rightarrow> bool" where
  "may_switch clk m c \<longleftrightarrow>
     MinRewriteInterval \<le> i64 (unix (at_start clk) - lastRewriteAt m) \<and>
     MinSegmentSize \<le> Length m \<and> 2 \<le> length (history_of c (ID m)) \<and>
     MinSwitchInterval \<le> mono (at_since clk) - mono (lastSwitch c) \<and>
     (case Strategy m of TIERED \<Rightarrow> 500 < readCount m | LEVELED \<Rightarrow> 10 < writeCount m)"

definition other_strategy :: "CompactionType \<Rightarrow> CompactionType" where
  "other_strategy s = (case s of TIERED \<Rightarrow> LEVELED | LEVELED \<Rightarrow> TIERED)"

definition driving_metric :: "CompactionType \<Rightarrow> string" where
  "driving_metric s = (case s of TIERED \<Rightarrow> ''read'' | LEVELED \<Rightarrow> ''write'')"

definition seen_history :: "clock \<Rightarrow> segment_meta \<Rightarrow> fsm \<Rightarrow> metric_snapshot list" where
  "seen_history clk m c = last_n WindowSize (history_of c (ID m) @ [snapshot_of (at_snapshot clk) m])"

lemma ShouldRewrite_iff:
  "fst (fst (ShouldRewrite clk m c)) \<longleftrightarrow>
     may_switch clk m c \<and>
     threshold < calculateTrend (seen_history clk m c) (driving_metric (Strategy m))"
  by (cases "Strategy m")
    (auto simp: ShouldRewrite_def may_switch_def seen_history_def driving_metric_def CooldownExpired_def
      history_of_update Let_def accessor_defs WindowSize_def)

lemma ShouldRewrite_strategy:
  "fst (snd (fst (ShouldRewrite clk m c))) =
     (if fst (fst (ShouldRewrite clk m c)) then other_strategy (Strategy m) else Strategy m)"
  by (auto simp: ShouldRewrite_def Let_def other_strategy_def split: CompactionType.split)

lemma ShouldRewrite_lastSwitch:
  "lastSwitch (snd (ShouldRewrite clk m c)) =
     (if fst (fst (ShouldRewrite clk m c)) then at_switch clk else lastSwitch c)"
  by (auto simp: ShouldRewrite_def Let_def split: CompactionType.split)

lemma ShouldRewrite_history:
  "history_of (snd (ShouldRewrite clk m c)) k =
     (if k = ID m \<and> CooldownExpired m (unix (at_start clk)) MinRewriteInterval \<and> MinSegmentSize \<le> Length m
      then seen_history clk m c else history_of c k)"
proof -
  have upd: "history_of (c\<lparr>lastSwitch := t\<rparr>) = history_of c" for c t
    by (simp add: history_of_def fun_eq_iff)
  show ?thesis
    by (auto simp: ShouldRewrite_def Let_def upd history_of_update seen_history_def Size_def
        split: CompactionType.split)
qed

section \<open>Runs of the controller\<close>

fun fsm_run :: "(clock \<times> segment_meta) list \<Rightarrow> fsm \<Rightarrow> bool list \<times> fsm" where
  "fsm_run [] c = ([], c)"
| "fsm_run ((clk, m) # xs) c =
     (case ShouldRewrite clk m c of
        ((b, _, _), c') \<Rightarrow> (case fsm_run xs c' of (bs, c'') \<Rightarrow> (b # bs, c'')))"

text \<open>The instants of the switches of a run.\<close>

definition switch_times :: "(clock \<times> segment_meta) list \<Rightarrow> fsm \<Rightarrow> int list" where
  "switch_times xs c = [mono (at_switch clk). (b, clk, _) \<leftarrow> zip (fst (fsm_run xs c)) xs, b]"

lemma switch_times_Cons:
  "switch_times ((clk, m) # xs) c =
     (if fst (fst (ShouldRewrite clk m c)) then [mono (at_switch clk)] else []) @
     switch_times xs (snd (ShouldRewrite clk m c))"
  by (simp add: switch_times_def split: prod.split)

lemma switch_times_spaced:
  assumes "\<forall>(clk, m) \<in> set xs. mono (at_since clk) \<le> mono (at_switch clk)"
  shows "sorted_wrt (\<lambda>s t. s + MinSwitchInterval \<le> t) (mono (lastSwitch c) # switch_times xs c)"
  using assms
proof (induction xs arbitrary: c)
  case (Cons x xs)
  obtain clk m where x: "x = (clk, m)" by fastforce
  let ?c = "snd (ShouldRewrite clk m c)"
  have IH: "sorted_wrt (\<lambda>s t. s + MinSwitchInterval \<le> t) (mono (lastSwitch ?c) # switch_times xs ?c)"
    using Cons by auto
  show ?case
  proof (cases "fst (fst (ShouldRewrite clk m c))")
    case True
    then have "mono (lastSwitch c) + MinSwitchInterval \<le> mono (at_switch clk)"
      using Cons.prems by (auto simp: ShouldRewrite_iff may_switch_def x)
    then show ?thesis
      using IH True by (auto simp: x switch_times_Cons ShouldRewrite_lastSwitch MinSwitchInterval_def
          dest: order_trans)
  next
    case False
    then show ?thesis using IH by (simp add: x switch_times_Cons ShouldRewrite_lastSwitch)
  qed
qed (simp add: switch_times_def)

lemma seen_history_snoc:
  "seen_history clk m c = last_n 4 (history_of c (ID m)) @ [snapshot_of (at_snapshot clk) m]"
  by (simp add: seen_history_def last_n_def WindowSize_def)

lemma seen_history_split:
  assumes "history_of c (ID m) \<noteq> []"
  obtains h ss where "last_n 4 (history_of c (ID m)) = h # ss"
    "seen_history clk m c = h # ss @ [snapshot_of (at_snapshot clk) m]"
proof -
  have "length (last_n 4 (history_of c (ID m))) \<noteq> 0" unfolding length_last_n using assms by simp
  then have "last_n 4 (history_of c (ID m)) \<noteq> []" by (metis list.size(3))
  then show thesis using that by (metis seen_history_snoc append_Cons neq_Nil_conv)
qed

text \<open>The calls that take a snapshot, and what they record for a segment.\<close>

definition sampled_call :: "clock \<times> segment_meta \<Rightarrow> bool" where
  "sampled_call p \<longleftrightarrow> (case p of (clk, m) \<Rightarrow>
     CooldownExpired m (unix (at_start clk)) MinRewriteInterval \<and> MinSegmentSize \<le> Length m)"

definition snapshots_for :: "gostring \<Rightarrow> (clock \<times> segment_meta) list \<Rightarrow> metric_snapshot list" where
  "snapshots_for k xs = [snapshot_of (at_snapshot clk) m. (clk, m) \<leftarrow> filter sampled_call xs, ID m = k]"

lemma last_n_append: "last_n n (last_n n xs @ ys) = last_n n (xs @ ys)"
proof (induction ys rule: rev_induct)
  case (snoc y ys)
  show ?case using snoc by (metis append_assoc last_n_snoc)
qed (simp add: last_n_def)

lemma fsm_run_history:
  "history_of (snd (fsm_run xs c)) k =
     (if snapshots_for k xs = [] then history_of c k
      else last_n WindowSize (history_of c k @ snapshots_for k xs))"
proof (induction xs arbitrary: c)
  case (Cons x xs)
  obtain clk m where x: "x = (clk, m)" by fastforce
  let ?c = "snd (ShouldRewrite clk m c)"
  have run: "snd (fsm_run (x # xs) c) = snd (fsm_run xs ?c)" by (simp add: x split: prod.split)
  have sn: "snapshots_for k (x # xs) =
      (if sampled_call x \<and> ID m = k then [snapshot_of (at_snapshot clk) m] else []) @ snapshots_for k xs"
    by (simp add: snapshots_for_def x)
  have h: "history_of ?c k = (if sampled_call x \<and> ID m = k
      then last_n WindowSize (history_of c k @ [snapshot_of (at_snapshot clk) m]) else history_of c k)"
    by (auto simp: ShouldRewrite_history seen_history_def sampled_call_def x)
  show ?case unfolding run Cons.IH sn h by (simp add: last_n_append)
qed (simp add: snapshots_for_def)

section \<open>Properties\<close>

text \<open>A trend computed from counters that are not negative lies between 0 and 1, rounding
  included.\<close>

theorem trend_unit_interval:
  assumes "\<forall>x \<in> set history. 0 \<le> ReadCount x \<and> 0 \<le> WriteCount x"
  shows "0 \<le> calculateTrend history metric \<and> calculateTrend history metric \<le> 1"
  using calculateTrend_range [of history metric] assms by (simp add: metric_count_def)

definition sample_history :: "metric_snapshot list" where
  "sample_history = map (\<lambda>n. \<lparr>Timestamp = 0, ReadCount = n, WriteCount = 3\<rparr>) [100, 150, 700]"

lemma trend_unit_interval_witness:
  "0 \<le> calculateTrend sample_history ''read'' \<and> calculateTrend sample_history ''read'' \<le> 1"
  by (rule trend_unit_interval) (simp add: sample_history_def)

text \<open>C31: A segment keeps its strategy as long as the counter that drives it, the reads of a
  tiered segment or the writes of a leveled one, has not grown by more than a third over the
  snapshots in the window: the floating point moving average never mistakes it for a trend.\<close>

theorem steady_segment_keeps_strategy:
  assumes "\<forall>x \<in> set (seen_history clk m c).
      0 \<le> metric_count (driving_metric (Strategy m)) x \<and>
      3 * metric_count (driving_metric (Strategy m)) (snapshot_of (at_snapshot clk) m)
        \<le> 4 * metric_count (driving_metric (Strategy m)) x"
  shows "fst (ShouldRewrite clk m c) = (False, Strategy m, NoReason)"
proof -
  have "\<not> fst (fst (ShouldRewrite clk m c))"
  proof (cases "history_of c (ID m) = []")
    case True
    then show ?thesis by (simp add: ShouldRewrite_iff may_switch_def)
  next
    case False
    obtain h ss where h: "seen_history clk m c = h # ss @ [snapshot_of (at_snapshot clk) m]"
      by (rule seen_history_split [OF False])
    show ?thesis
      using calculateTrend_small [OF assms [unfolded h]] by (simp add: ShouldRewrite_iff h)
  qed
  then show ?thesis by (auto simp: ShouldRewrite_def Let_def split: CompactionType.splits if_splits)
qed

definition sample_meta :: "CompactionType \<Rightarrow> int \<Rightarrow> int \<Rightarrow> segment_meta" where
  "sample_meta s r w = \<lparr>ID = [], Level = 0, Offset = 0, Length = 8192, MinKey = [], MaxKey = [],
     Strategy = s, readCount = r, writeCount = w, OverlapCount = 0, TotalComparisons = 0,
     CreatedAt = 0, lastRewriteAt = 0, obsolete = False, InCompaction = False,
     SparseIndex = None, DataStartOffset = 0, SparseIndexOffset = 0\<rparr>"

definition tick :: "int \<Rightarrow> clock" where
  "tick n = (let i = \<lparr>unix = n, mono = n * 1000000000\<rparr>
     in \<lparr>at_start = i, at_snapshot = i, at_since = i, at_switch = i\<rparr>)"

definition sample_fsm :: "int list \<Rightarrow> fsm" where
  "sample_fsm rs = \<lparr>segmentHistory =
       [[] \<mapsto> map (\<lambda>n. \<lparr>Timestamp = 0, ReadCount = n, WriteCount = 3\<rparr>) rs],
     lastSwitch = \<lparr>unix = 0, mono = 0\<rparr>\<rparr>"

lemmas fsm_samples = sample_meta_def tick_def sample_fsm_def Let_def seen_history_snoc last_n_def
  history_of_def snapshot_of_def driving_metric_def metric_count_def

lemma steady_segment_keeps_strategy_witness:
  "fst (ShouldRewrite (tick 9) (sample_meta TIERED 1000 0) (sample_fsm [800, 900, 990])) =
     (False, TIERED, NoReason)"
  using steady_segment_keeps_strategy [of "tick 9" "sample_meta TIERED 1000 0" "sample_fsm [800, 900, 990]"]
  by (simp add: fsm_samples)

text \<open>C29: When the guards hold (cooldown, size, at least three snapshots, two seconds since the
  last switch, enough traffic) and the driving counter is at least twice what every earlier
  snapshot in the window saw, the controller does ask for the other strategy, and records the
  instant of the switch.\<close>

theorem doubled_counter_switches:
  assumes "may_switch clk m c"
    "0 < metric_count (driving_metric (Strategy m)) (snapshot_of (at_snapshot clk) m)"
    "\<forall>x \<in> set (last_n 4 (history_of c (ID m))).
      0 \<le> metric_count (driving_metric (Strategy m)) x \<and>
      2 * metric_count (driving_metric (Strategy m)) x
        \<le> metric_count (driving_metric (Strategy m)) (snapshot_of (at_snapshot clk) m)"
  shows "\<exists>reason c'. ShouldRewrite clk m c = ((True, other_strategy (Strategy m), reason), c') \<and>
    lastSwitch c' = at_switch clk"
proof -
  have "history_of c (ID m) \<noteq> []" using assms(1) by (auto simp: may_switch_def)
  then obtain h ss where h: "last_n 4 (history_of c (ID m)) = h # ss"
    "seen_history clk m c = h # ss @ [snapshot_of (at_snapshot clk) m]" by (rule seen_history_split)
  have "fst (fst (ShouldRewrite clk m c))"
    using calculateTrend_large [OF assms(2) assms(3) [unfolded h(1)]] assms(1)
    by (simp add: ShouldRewrite_iff h(2))
  then show ?thesis
    using ShouldRewrite_strategy [of clk m c] ShouldRewrite_lastSwitch [of clk m c]
    by (cases "ShouldRewrite clk m c") (auto split: prod.splits)
qed

lemma doubled_counter_switches_witness:
  "\<exists>reason c'. ShouldRewrite (tick 9) (sample_meta TIERED 1000 0) (sample_fsm [100, 400]) =
     ((True, LEVELED, reason), c') \<and> lastSwitch c' = at_switch (tick 9)"
  using doubled_counter_switches [of "tick 9" "sample_meta TIERED 1000 0" "sample_fsm [100, 400]"]
  by (simp add: fsm_samples may_switch_def MinRewriteInterval_def MinSegmentSize_def
      MinSwitchInterval_def i64_def other_strategy_def)

text \<open>C30: Over any run of the controller, the switches of all segments together are at least two
  seconds apart, and the first is two seconds after the controller was made.\<close>

theorem switches_are_spaced:
  assumes "\<forall>(clk, m) \<in> set calls. mono (at_since clk) \<le> mono (at_switch clk)"
  shows "sorted_wrt (\<lambda>s t. s + 2000000000 \<le> t) (mono t0 # switch_times calls (NewFSMController t0))"
  using switch_times_spaced [OF assms, of "NewFSMController t0"]
  by (simp add: NewFSMController_def MinSwitchInterval_def)

lemma switches_are_spaced_witness:
  "sorted_wrt (\<lambda>s t. s + 2000000000 \<le> t)
     (mono (at_start (tick 0)) # switch_times
        (map (\<lambda>n. (tick n, sample_meta TIERED (n * 1000) 0)) [3, 4, 8]) (NewFSMController (at_start (tick 0))))"
  by (rule switches_are_spaced) (simp add: tick_def Let_def)

text \<open>After any run of a fresh controller, the history of a segment is the last five of the
  snapshots taken for it, one per call that passed the cooldown and the size check.\<close>

theorem history_is_last_five:
  "history_of (snd (fsm_run calls (NewFSMController t0))) k =
     (let xs = snapshots_for k calls in drop (length xs - 5) xs)"
  using fsm_run_history [of calls "NewFSMController t0" k]
  by (simp add: NewFSMController_def history_of_def last_n_def WindowSize_def Let_def)

end
