(* ===== verification/Director.thy ===== *)
theory Director
  imports Metadata Adaptive
begin

text \<open>
  \<^verbatim>\<open>internal/compaction/director.go\<close>: the choice of the segments to merge next. The director
  asks the controller about each live segment in the tracker's order, and falls back on the
  current policy. The clock readings of the n-th question are an argument; the order in which
  a loop visits the tracker's map is the runtime's. Only one such loop of a call can influence
  its result, so one runtime serves the whole call.
\<close>

datatype plan_reason =
  ControllerReason switch_reason
| SimilarSizedRuns
| OverlappingRanges

record plan =
  Inputs :: "ref option list"
  OutputStrategy :: CompactionType
  Reason :: plan_reason
  TargetLevel :: int

record director =
  dir_fsm :: "fsm option"
  currentPolicy :: CompactionType

definition NewDirector :: "fsm option \<Rightarrow> director" where
  "NewDirector c = \<lparr>dir_fsm = c, currentPolicy = TIERED\<rparr>"

definition UpdateMetrics :: "rat \<Rightarrow> rat \<Rightarrow> director \<Rightarrow> director" where
  "UpdateMetrics readAmp writeAmp d = d"

definition GetCurrentPolicy :: "director \<Rightarrow> CompactionType" where
  "GetCurrentPolicy d = currentPolicy d"

text \<open>The loop of \<^verbatim>\<open>collectLimitedOverlaps\<close>, with the slice and the set of identifiers built so far.\<close>

fun limit_loop :: "store \<Rightarrow> int \<Rightarrow> ref list \<Rightarrow> ref list \<Rightarrow> gostring list \<Rightarrow> ref list" where
  "limit_loop st maxSegments [] inputs seen = inputs"
| "limit_loop st maxSegments (overlap # rest) inputs seen =
     (if ID (cells st overlap) \<notin> set seen \<and> \<not> IsObsolete (cells st overlap)
      then let inputs' = inputs @ [overlap]
           in if maxSegments \<le> int (length inputs') then inputs'
              else limit_loop st maxSegments rest inputs' (ID (cells st overlap) # seen)
      else limit_loop st maxSegments rest inputs seen)"

definition collectLimitedOverlaps :: "runtime \<Rightarrow> ref \<Rightarrow> int \<Rightarrow> store \<times> tracker \<Rightarrow> ref list" where
  "collectLimitedOverlaps rt target maxSegments stt =
     (let m = (if 50 < maxSegments then 50 else maxSegments)
      in limit_loop (fst stt) m (GetOverlappingSegments rt target stt) [target]
           [ID (cells (fst stt) target)])"

text \<open>
  \<^verbatim>\<open>sizeRatio < 2.0 && sizeRatio > 0.5\<close>; an infinity or a NaN, from a candidate of length 0,
  fails one of the comparisons.
\<close>

definition similar_size :: "segment_meta \<Rightarrow> segment_meta \<Rightarrow> bool" where
  "similar_size a b \<longleftrightarrow>
     Length b \<noteq> 0 \<and>
     (let sizeRatio = fdiv (of_int64 (Length a)) (of_int64 (Length b))
      in sizeRatio < 2 \<and> 1 / 2 < sizeRatio)"

fun find_candidate :: "store \<Rightarrow> ref \<Rightarrow> ref list \<Rightarrow> ref option" where
  "find_candidate st seg [] = None"
| "find_candidate st seg (candidate # rest) =
     (if IsObsolete (cells st candidate) then find_candidate st seg rest
      else if Level (cells st seg) \<noteq> Level (cells st candidate) then find_candidate st seg rest
      else if similar_size (cells st seg) (cells st candidate) then Some candidate
      else find_candidate st seg rest)"

fun planTieredCompaction :: "store \<Rightarrow> ref list \<Rightarrow> plan option" where
  "planTieredCompaction st [] = None"
| "planTieredCompaction st (seg # rest) =
     (if IsObsolete (cells st seg) then planTieredCompaction st rest
      else (case find_candidate st seg rest of
              None \<Rightarrow> planTieredCompaction st rest
            | Some candidate \<Rightarrow>
                Some \<lparr>Inputs = [Some seg, Some candidate], OutputStrategy = TIERED,
                      Reason = SimilarSizedRuns, TargetLevel = Level (cells st seg)\<rparr>))"

fun planLeveledCompaction :: "runtime \<Rightarrow> store \<times> tracker \<Rightarrow> ref list \<Rightarrow> plan option" where
  "planLeveledCompaction rt stt [] = None"
| "planLeveledCompaction rt stt (seg # rest) =
     (if IsObsolete (cells (fst stt) seg) then planLeveledCompaction rt stt rest
      else if GetOverlappingSegments rt seg stt \<noteq> []
      then Some \<lparr>Inputs = map Some (collectLimitedOverlaps rt seg 50 stt), OutputStrategy = LEVELED,
                 Reason = OverlappingRanges, TargetLevel = i64 (Level (cells (fst stt) seg) + 1)\<rparr>
      else planLeveledCompaction rt stt rest)"

text \<open>The loop that asks the controller; it stops at the first segment that should switch.\<close>

fun ask_controller ::
  "(nat \<Rightarrow> clock) \<Rightarrow> nat \<Rightarrow> store \<Rightarrow> ref list \<Rightarrow> fsm \<Rightarrow>
   (ref \<times> CompactionType \<times> switch_reason) option \<times> fsm" where
  "ask_controller clk n st [] c = (None, c)"
| "ask_controller clk n st (seg # rest) c =
     (if IsObsolete (cells st seg) then ask_controller clk n st rest c
      else (case ShouldRewrite (clk n) (cells st seg) c of
              ((shouldSwitch, newStrategy, reason), c') \<Rightarrow>
                if shouldSwitch then (Some (seg, newStrategy, reason), c')
                else ask_controller clk (Suc n) st rest c'))"

definition MaybePlan ::
  "runtime \<Rightarrow> (nat \<Rightarrow> clock) \<Rightarrow> store \<times> tracker \<Rightarrow> director \<Rightarrow> plan option \<times> director" where
  "MaybePlan rt clk stt d =
     (let segs = GetAllSegments rt stt;
          fallback = (case currentPolicy d of
             TIERED \<Rightarrow> (case planTieredCompaction (fst stt) segs of
                 Some p \<Rightarrow> Some p | None \<Rightarrow> planLeveledCompaction rt stt segs)
           | LEVELED \<Rightarrow> planLeveledCompaction rt stt segs)
      in if segs = [] then (None, d)
         else case dir_fsm d of
           None \<Rightarrow> (fallback, d)
         | Some c \<Rightarrow>
             (case ask_controller clk 0 (fst stt) segs c of
                (None, c') \<Rightarrow> (fallback, d\<lparr>dir_fsm := Some c'\<rparr>)
              | (Some (seg, newStrategy, reason), c') \<Rightarrow>
                  let inputs = (case newStrategy of
                        LEVELED \<Rightarrow> collectLimitedOverlaps rt seg 50 stt | TIERED \<Rightarrow> [seg]);
                      targetLevel = (case newStrategy of
                        LEVELED \<Rightarrow> i64 (Level (cells (fst stt) seg) + 1)
                      | TIERED \<Rightarrow> Level (cells (fst stt) seg))
                  in (Some \<lparr>Inputs = map Some inputs, OutputStrategy = newStrategy,
                            Reason = ControllerReason reason, TargetLevel = targetLevel\<rparr>,
                      d\<lparr>dir_fsm := Some c', currentPolicy := newStrategy\<rparr>)))"

section \<open>The limited set of overlaps\<close>

text \<open>
  With distinct identifiers, the loop appends the live overlaps in the order given, up to the
  limit.
\<close>

lemma limit_loop_take:
  assumes "\<forall>r \<in> set os. \<not> obsolete (cells st r) \<and> ID (cells st r) \<notin> set seen"
    "distinct (map (\<lambda>r. ID (cells st r)) os)" "int (length inputs) < m"
  shows "limit_loop st m os inputs seen = inputs @ take (nat m - length inputs) os"
  using assms
proof (induction os arbitrary: inputs seen)
  case (Cons r os)
  have step: "limit_loop st m (r # os) inputs seen =
      (if m \<le> int (length inputs) + 1 then inputs @ [r]
       else limit_loop st m os (inputs @ [r]) (ID (cells st r) # seen))"
    using Cons.prems(1) by (simp add: IsObsolete_def Let_def add.commute)
  show ?case
  proof (cases "m \<le> int (length inputs) + 1")
    case True
    then have "nat m - length inputs = 1" using Cons.prems(3) by simp
    then show ?thesis unfolding step using True by simp
  next
    case False
    have "limit_loop st m os (inputs @ [r]) (ID (cells st r) # seen) =
        (inputs @ [r]) @ take (nat m - length (inputs @ [r])) os"
      using Cons.prems False by (intro Cons.IH) (fastforce simp: image_iff)+
    moreover have "nat m - length inputs = Suc (nat m - length (inputs @ [r]))" using False by simp
    ultimately show ?thesis unfolding step using False by simp
  qed
qed simp

lemma tracker_inv_ids:
  assumes "tracker_inv (st, t)"
  shows "inj_on (\<lambda>r. ID (cells st r)) (set (ordered t))"
proof (rule inj_onI)
  fix a b assume "a \<in> set (ordered t)" "b \<in> set (ordered t)" "ID (cells st a) = ID (cells st b)"
  then show "a = b" using tracker_inv_lookup [OF assms, of "ID (cells st a)"] by (metis option.inject)
qed

context go_runtime
begin

lemma GetOverlapping_set:
  assumes "tracker_inv (st, t)" "r \<in> set (ordered t)"
  shows "set (GetOverlappingSegments rt r (st, t)) =
    {r' \<in> set (ordered t). r' \<noteq> r \<and> overlapping st (cells st r) r'}"
proof -
  have img: "snd ` set (segments t) = set (ordered t)" using assms(1) by (simp add: tracker_inv_def)
  have "ID (cells st r') \<noteq> ID (cells st r) \<longleftrightarrow> r' \<noteq> r" if "r' \<in> set (ordered t)" for r'
    using inj_onD [OF tracker_inv_ids [OF assms(1)]] that assms(2) by auto
  then show ?thesis by (auto simp: GetOverlappingSegments_def collect_overlaps_set img)
qed

lemma GetOverlapping_distinct:
  assumes "tracker_inv (st, t)"
  shows "distinct (GetOverlappingSegments rt r (st, t))"
proof -
  have "distinct (map fst (range_refs rt (segments t)))"
    using assms by (intro distinct_range_refs) (simp add: tracker_inv_def)
  moreover have "inj_on snd (set (range_refs rt (segments t)))"
  proof (rule inj_onI)
    fix p q assume pq: "p \<in> set (range_refs rt (segments t))" "q \<in> set (range_refs rt (segments t))" "snd p = snd q"
    have "ID (cells st (snd x)) = fst x" if "x \<in> set (segments t)" for x
      using assms that by (auto simp: tracker_inv_def)
    then show "p = q" using pq by (metis prod.expand set_range_refs)
  qed
  ultimately have "distinct (map snd (range_refs rt (segments t)))"
    by (simp add: distinct_map)
  then show ?thesis by (simp add: GetOverlappingSegments_def collect_overlaps_distinct)
qed

lemma collectLimited_eq:
  assumes "tracker_inv (st, t)" "r \<in> set (ordered t)"
  shows "collectLimitedOverlaps rt r 50 (st, t) = r # take 49 (GetOverlappingSegments rt r (st, t))"
proof -
  let ?os = "GetOverlappingSegments rt r (st, t)"
  note set = GetOverlapping_set [OF assms]
  have "inj_on (\<lambda>r. ID (cells st r)) (set ?os)"
    by (rule inj_on_subset [OF tracker_inv_ids [OF assms(1)]]) (auto simp: set)
  then have "distinct (map (\<lambda>r. ID (cells st r)) ?os)"
    using GetOverlapping_distinct [OF assms(1)] by (simp add: distinct_map)
  moreover have "\<forall>x \<in> set ?os. \<not> obsolete (cells st x) \<and> ID (cells st x) \<notin> set [ID (cells st r)]"
    using inj_onD [OF tracker_inv_ids [OF assms(1)]] assms(2) by (auto simp: set overlapping_def)
  ultimately show ?thesis
    using limit_loop_take [of ?os st "[ID (cells st r)]" "[r]" 50]
    by (simp add: collectLimitedOverlaps_def)
qed

end

section \<open>Plans\<close>

text \<open>A plan that names distinct, live, tracked segments, and at most fifty of them.\<close>

definition plan_ok :: "store \<times> tracker \<Rightarrow> plan \<Rightarrow> bool" where
  "plan_ok stt p \<longleftrightarrow>
     (\<exists>rs. Inputs p = map Some rs \<and> rs \<noteq> [] \<and> distinct rs \<and> length rs \<le> 50 \<and>
        (\<forall>r \<in> set rs. r \<in> set (ordered (snd stt)) \<and> \<not> obsolete (cells (fst stt) r)))"

lemma plan_okI:
  "distinct rs \<Longrightarrow> rs \<noteq> [] \<Longrightarrow> length rs \<le> 50 \<Longrightarrow>
   \<forall>r \<in> set rs. r \<in> set (ordered (snd stt)) \<and> \<not> obsolete (cells (fst stt) r) \<Longrightarrow>
   Inputs p = map Some rs \<Longrightarrow> plan_ok stt p"
  unfolding plan_ok_def by blast

lemma find_candidate_Some:
  "find_candidate st seg cs = Some c \<Longrightarrow>
   \<exists>pre post. cs = pre @ c # post \<and> \<not> obsolete (cells st c) \<and> Level (cells st c) = Level (cells st seg) \<and>
     similar_size (cells st seg) (cells st c)"
proof (induction cs)
  case (Cons x cs)
  show ?case
  proof (cases "find_candidate st seg cs = Some c")
    case True
    then obtain pre post where "cs = pre @ c # post" "\<not> obsolete (cells st c)"
      "Level (cells st c) = Level (cells st seg)" "similar_size (cells st seg) (cells st c)"
      using Cons.IH by blast
    then show ?thesis by (intro exI [of _ "x # pre"] exI [of _ post]) simp
  next
    case False
    then have "x = c" "\<not> obsolete (cells st x)" "Level (cells st seg) = Level (cells st x)"
      "similar_size (cells st seg) (cells st x)"
      using Cons.prems by (auto simp: IsObsolete_def split: if_splits)
    then show ?thesis by (intro exI [of _ "[]"] exI [of _ cs]) auto
  qed
qed simp

lemma find_candidate_None:
  "find_candidate st seg cs = None \<Longrightarrow> c \<in> set cs \<Longrightarrow> \<not> obsolete (cells st c) \<Longrightarrow>
   Level (cells st c) = Level (cells st seg) \<Longrightarrow> \<not> similar_size (cells st seg) (cells st c)"
  by (induction cs) (auto simp: IsObsolete_def split: if_splits)

lemma planTiered_Some:
  assumes "planTieredCompaction st segs = Some p"
  obtains pre a mid b post where "segs = pre @ a # mid @ b # post" "Inputs p = [Some a, Some b]"
    "\<not> obsolete (cells st a)" "\<not> obsolete (cells st b)" "Level (cells st b) = Level (cells st a)"
    "similar_size (cells st a) (cells st b)" "TargetLevel p = Level (cells st a)" "OutputStrategy p = TIERED"
  using assms
proof (induction segs arbitrary: thesis)
  case (Cons x segs)
  show ?case
  proof (cases "planTieredCompaction st segs = Some p \<and> (obsolete (cells st x) \<or> find_candidate st x segs = None)")
    case True
    then show ?thesis using Cons.IH Cons.prems(1) [of "x # pre" for pre] by (metis append_Cons)
  next
    case False
    then obtain b where b: "\<not> obsolete (cells st x)" "find_candidate st x segs = Some b"
      "p = \<lparr>Inputs = [Some x, Some b], OutputStrategy = TIERED,
            Reason = SimilarSizedRuns, TargetLevel = Level (cells st x)\<rparr>"
      using Cons.prems(2) by (auto simp: IsObsolete_def split: if_splits option.splits)
    obtain pre post where "segs = pre @ b # post" "\<not> obsolete (cells st b)"
      "Level (cells st b) = Level (cells st x)" "similar_size (cells st x) (cells st b)"
      using find_candidate_Some [OF b(2)] by blast
    then show ?thesis using Cons.prems(1) [of "[]" x pre b post] b by simp
  qed
qed simp

lemma planTiered_None:
  assumes "planTieredCompaction st segs = None" "segs = pre @ a # mid @ b # post"
    "\<not> obsolete (cells st a)" "\<not> obsolete (cells st b)" "Level (cells st b) = Level (cells st a)"
  shows "\<not> similar_size (cells st a) (cells st b)"
  using assms(1,2)
proof (induction pre arbitrary: segs)
  case Nil
  then have "find_candidate st a (mid @ b # post) = None"
    using assms(3) by (auto simp: IsObsolete_def split: option.splits)
  then show ?case using find_candidate_None assms(4,5) by simp
next
  case (Cons x pre)
  then show ?case by (auto split: if_splits option.splits)
qed

lemma planLeveled_Some:
  assumes "planLeveledCompaction rt stt segs = Some p"
  obtains r where "r \<in> set segs" "\<not> obsolete (cells (fst stt) r)" "GetOverlappingSegments rt r stt \<noteq> []"
    "p = \<lparr>Inputs = map Some (collectLimitedOverlaps rt r 50 stt), OutputStrategy = LEVELED,
          Reason = OverlappingRanges, TargetLevel = i64 (Level (cells (fst stt) r) + 1)\<rparr>"
  using assms by (induction segs) (auto simp: IsObsolete_def split: if_splits)

lemma planLeveled_None:
  "planLeveledCompaction rt stt segs = None \<Longrightarrow> r \<in> set segs \<Longrightarrow> \<not> obsolete (cells (fst stt) r) \<Longrightarrow>
   GetOverlappingSegments rt r stt = []"
  by (induction segs) (auto simp: IsObsolete_def split: if_splits)

lemma ask_controller_Some:
  "ask_controller clk n st segs c = (Some (r, s, reason), c') \<Longrightarrow>
   r \<in> set segs \<and> \<not> obsolete (cells st r) \<and> s = other_strategy (Strategy (cells st r))"
proof (induction segs arbitrary: n c)
  case (Cons x segs)
  obtain b s' rs c1 where w: "ShouldRewrite (clk n) (cells st x) c = ((b, s', rs), c1)"
    by (metis prod.collapse)
  show ?case
    using Cons ShouldRewrite_strategy [of "clk n" "cells st x" c] unfolding w
    by (cases "obsolete (cells st x)"; cases b) (auto simp: IsObsolete_def w)
qed simp

lemma MaybePlan_cases:
  assumes "MaybePlan rt clk stt d = (r, d')"
  obtains (empty) "GetAllSegments rt stt = []" "r = None" "d' = d"
  | (switch) c seg reason c' where "dir_fsm d = Some c"
      "ask_controller clk 0 (fst stt) (GetAllSegments rt stt) c =
         (Some (seg, other_strategy (Strategy (cells (fst stt) seg)), reason), c')"
      "seg \<in> set (GetAllSegments rt stt)" "\<not> obsolete (cells (fst stt) seg)"
      "d' = d\<lparr>dir_fsm := Some c', currentPolicy := other_strategy (Strategy (cells (fst stt) seg))\<rparr>"
      "r = Some (case Strategy (cells (fst stt) seg) of
           TIERED \<Rightarrow> \<lparr>Inputs = map Some (collectLimitedOverlaps rt seg 50 stt), OutputStrategy = LEVELED,
              Reason = ControllerReason reason, TargetLevel = i64 (Level (cells (fst stt) seg) + 1)\<rparr>
         | LEVELED \<Rightarrow> \<lparr>Inputs = [Some seg], OutputStrategy = TIERED,
              Reason = ControllerReason reason, TargetLevel = Level (cells (fst stt) seg)\<rparr>)"
  | (tiered) p where "currentPolicy d = TIERED" "currentPolicy d' = TIERED" "r = Some p"
      "planTieredCompaction (fst stt) (GetAllSegments rt stt) = Some p"
  | (leveled) "currentPolicy d' = currentPolicy d"
      "r = planLeveledCompaction rt stt (GetAllSegments rt stt)"
      "currentPolicy d = TIERED \<Longrightarrow> planTieredCompaction (fst stt) (GetAllSegments rt stt) = None"
proof (cases "GetAllSegments rt stt = []")
  case True
  then show thesis using assms empty by (simp add: MaybePlan_def Let_def)
next
  case False
  let ?segs = "GetAllSegments rt stt"
  define fb where "fb = (case currentPolicy d of
             TIERED \<Rightarrow> (case planTieredCompaction (fst stt) ?segs of
                 Some p \<Rightarrow> Some p | None \<Rightarrow> planLeveledCompaction rt stt ?segs)
           | LEVELED \<Rightarrow> planLeveledCompaction rt stt ?segs)"
  have fallback: thesis if "r = fb" "currentPolicy d' = currentPolicy d"
  proof (cases "currentPolicy d = TIERED \<and> planTieredCompaction (fst stt) ?segs \<noteq> None")
    case True
    then show thesis using that by (auto simp: fb_def intro: tiered)
  next
    case False
    then show thesis using that by (cases "currentPolicy d") (auto simp: fb_def intro: leveled)
  qed
  show thesis
  proof (cases "dir_fsm d")
    case None
    then show thesis using assms False by (intro fallback) (auto simp: MaybePlan_def Let_def fb_def)
  next
    case (Some c)
    obtain q c' where ask: "ask_controller clk 0 (fst stt) ?segs c = (q, c')" by fastforce
    show thesis
    proof (cases q)
      case None
      then show thesis
        using assms False ask Some by (intro fallback) (auto simp: MaybePlan_def Let_def fb_def)
    next
      case (Some q')
      obtain seg ns reason where q: "q = Some (seg, ns, reason)" using Some by (metis prod.collapse)
      note a = ask_controller_Some [OF ask [unfolded q]]
      show thesis
        by (rule switch [OF \<open>dir_fsm d = Some c\<close>, of seg reason c'])
          (use assms False ask q a \<open>dir_fsm d = Some c\<close> in
            \<open>auto simp: MaybePlan_def Let_def other_strategy_def split: CompactionType.splits\<close>)
    qed
  qed
qed

lemma fl64_half: "fl64 (1 / 2) = 1 / 2"
  using fl_pos_exact [of 1 "1 / 2" "- 1"] by (simp add: fl64_def power_int_minus)

lemma similar_size_factor:
  assumes "similar_size a b" "0 < Length a" "Length a < 2 ^ 53" "0 < Length b" "Length b < 2 ^ 53"
  shows "Length a < 2 * Length b" "Length b < 2 * Length a"
proof -
  let ?q = "of_int (Length a) / of_int (Length b) :: rat"
  have "of_int64 (Length a) = of_int (Length a)" "of_int64 (Length b) = of_int (Length b)"
    using assms by (simp_all only: of_int64_def fl.fl_small abs_of_pos)
  then have q: "fl64 ?q < 2" "1 / 2 < fl64 ?q"
    using assms(1) by (simp_all add: similar_size_def fdiv_def Let_def)
  have "?q < 2"
    using q(1) fl64_mono [of 2 ?q] fl64_small [of 2] by (cases "?q < 2") auto
  then have "(of_int (Length a) :: rat) < of_int (2 * Length b)"
    using assms(4) by (simp add: divide_less_eq)
  then show "Length a < 2 * Length b" by (simp only: of_int_less_iff)
  have "1 / 2 < ?q"
    using q(2) fl64_mono [of ?q "1 / 2"] by (cases "1 / 2 < ?q") (auto simp: fl64_half not_less)
  then have "(of_int (Length b) :: rat) < of_int (2 * Length a)"
    using assms(4) by (simp add: less_divide_eq field_simps)
  then show "Length b < 2 * Length a" by (simp only: of_int_less_iff)
qed

lemma similar_size_close:
  assumes "0 < Length a" "0 < Length b" "5 * Length a \<le> 9 * Length b" "5 * Length b \<le> 9 * Length a"
  shows "similar_size a b"
proof -
  let ?a = "of_int64 (Length a)" and ?b = "of_int64 (Length b)"
  note ca = of_int64_coarse [of "Length a"] and cb = of_int64_coarse [of "Length b"]
  have pos: "0 < ?a" "0 < ?b" "0 < (of_int (Length a) :: rat)" "0 < (of_int (Length b) :: rat)"
    using assms by (simp_all add: of_int64_pos)
  have i: "5 * of_int (Length a) \<le> (9 * of_int (Length b) :: rat)"
    "5 * of_int (Length b) \<le> (9 * of_int (Length a) :: rat)"
    using assms(3,4) by (metis of_int_le_iff of_int_mult of_int_numeral)+
  have "?a \<le> 19 / 10 * ?b" "51 / 100 * ?b \<le> ?a" using i ca cb assms(1,2) pos by simp_all
  then have "fdiv ?a ?b \<le> 1001 / 1000 * (19 / 10)" "999 / 1000 * (51 / 100) \<le> fdiv ?a ?b"
    using fdiv_coarse(1) [OF pos(2), of ?a "19 / 10"] fdiv_coarse(2) [OF pos(2), of ?a "51 / 100"] pos(1)
    by simp_all
  then show ?thesis using assms(2) by (simp add: similar_size_def Let_def)
qed

context go_runtime
begin

lemma MaybePlan_ok:
  assumes "tracker_inv (st, t)" "MaybePlan rt clk (st, t) d = (Some p, d')"
  shows "plan_ok (st, t) p"
proof -
  let ?segs = "GetAllSegments rt (st, t)"
  have live: "r \<in> set ?segs \<longleftrightarrow> r \<in> set (ordered t) \<and> \<not> obsolete (cells st r)" for r
    by (simp add: GetAllSegments_set)
  have limited: "plan_ok (st, t) p" if "Inputs p = map Some (collectLimitedOverlaps rt r 50 (st, t))"
    "r \<in> set (ordered t)" "\<not> obsolete (cells st r)" for r p
  proof (rule plan_okI [OF _ _ _ _ that(1)])
    note eq = collectLimited_eq [OF assms(1) that(2)]
    have sub: "set (take 49 (GetOverlappingSegments rt r (st, t))) \<subseteq>
        {r' \<in> set (ordered t). r' \<noteq> r \<and> overlapping st (cells st r) r'}"
      using set_take_subset [of 49 "GetOverlappingSegments rt r (st, t)"]
      unfolding GetOverlapping_set [OF assms(1) that(2)] .
    show "distinct (collectLimitedOverlaps rt r 50 (st, t))" "collectLimitedOverlaps rt r 50 (st, t) \<noteq> []"
      "length (collectLimitedOverlaps rt r 50 (st, t)) \<le> 50"
      "\<forall>x \<in> set (collectLimitedOverlaps rt r 50 (st, t)).
        x \<in> set (ordered (snd (st, t))) \<and> \<not> obsolete (cells (fst (st, t)) x)"
      unfolding eq using GetOverlapping_distinct [OF assms(1), of r] sub that(2,3)
      by (auto simp: distinct_take overlapping_def)
  qed
  from assms(2) show ?thesis
  proof (cases rule: MaybePlan_cases)
    case (switch c seg reason c')
    then show ?thesis
      using limited [of p seg] plan_okI [of "[seg]" "(st, t)" p] live [of seg]
      by (cases "Strategy (cells st seg)") auto
  next
    case (tiered q)
    then obtain pre a mid b post where ab: "?segs = pre @ a # mid @ b # post" "Inputs q = [Some a, Some b]"
      "\<not> obsolete (cells st a)" "\<not> obsolete (cells st b)"
      by (metis planTiered_Some fst_conv)
    have "distinct ?segs" using assms(1) by (simp add: tracker_inv_def GetAllSegments_def distinct_sort_slice)
    then have "a \<noteq> b" unfolding ab(1) by auto
    then show ?thesis
      using tiered ab live [of a] live [of b] by (intro plan_okI [of "[a, b]"]) auto
  next
    case leveled
    then obtain r where "r \<in> set ?segs" "\<not> obsolete (cells st r)"
      "Inputs p = map Some (collectLimitedOverlaps rt r 50 (st, t))"
      using planLeveled_Some [OF leveled(2) [symmetric]] by (metis fst_conv plan.select_convs(1))
    then show ?thesis using live by (intro limited) auto
  qed simp
qed

end

section \<open>Properties\<close>

text \<open>C27: Every plan is one that the executor can run on the current tracker: its inputs are one
  to fifty distinct, non-nil segments, all tracked and none obsolete.\<close>

theorem plans_are_valid:
  assumes "go_runtime rt" "tracker_inv (st, t)" "MaybePlan rt clk (st, t) d = (Some p, d')"
  shows "plan_ok (st, t) p"
  by (rule go_runtime.MaybePlan_ok [OF assms])

text \<open>A tracker of segments given by level, length, creation time and key range.\<close>

definition plain_meta :: "gostring \<Rightarrow> int \<Rightarrow> int \<Rightarrow> int \<Rightarrow> gostring \<Rightarrow> gostring \<Rightarrow> segment_meta" where
  "plain_meta sid level len created kmin kmax =
     zero_meta\<lparr>ID := sid, Level := level, Length := len, CreatedAt := created,
       MinKey := kmin, MaxKey := kmax\<rparr>"

definition sample_store :: store where
  "sample_store = \<lparr>cells = (\<lambda>_. zero_meta)(2 := plain_meta [1] 0 100 10 [5] [9],
     3 := plain_meta [2] 0 120 20 [1] [3], 4 := plain_meta [3] 1 900 30 [10] [20]), fresh = 5\<rparr>"

definition sample_tracker :: tracker where
  "sample_tracker = \<lparr>segments = [([1], 2), ([2], 3), ([3], 4)], ordered = [4, 3, 2]\<rparr>"

lemma plain_meta_fields [simp]:
  "ID (plain_meta i l n c a b) = i" "Level (plain_meta i l n c a b) = l" "Length (plain_meta i l n c a b) = n"
  "CreatedAt (plain_meta i l n c a b) = c" "MinKey (plain_meta i l n c a b) = a"
  "MaxKey (plain_meta i l n c a b) = b" "\<not> obsolete (plain_meta i l n c a b)"
  by (simp_all add: plain_meta_def zero_meta_def)

lemma sample_cells [simp]:
  "cells sample_store 2 = plain_meta [1] 0 100 10 [5] [9]"
  "cells sample_store 3 = plain_meta [2] 0 120 20 [1] [3]"
  "cells sample_store 4 = plain_meta [3] 1 900 30 [10] [20]" "fresh sample_store = 5"
  "segments sample_tracker = [([1], 2), ([2], 3), ([3], 4)]" "ordered sample_tracker = [4, 3, 2]"
  by (simp_all add: sample_store_def sample_tracker_def)

lemmas plan_eval = MaybePlan_def NewDirector_def GetAllSegments_def insertion_sort_def seg_less_def
  IsObsolete_def GetOverlappingSegments_def collectLimitedOverlaps_def i64_def
  short_runtime_def ranges_overlap_def

lemma sample_inv: "tracker_inv (sample_store, sample_tracker)"
  by (auto simp: tracker_inv_def)

lemma sample_similar: "similar_size (cells sample_store 3) (cells sample_store 2)"
  by (rule similar_size_close) simp_all

lemma sample_plan:
  "MaybePlan short_runtime clk (sample_store, sample_tracker) (NewDirector None) =
     (Some \<lparr>Inputs = [Some 3, Some 2], OutputStrategy = TIERED, Reason = SimilarSizedRuns,
        TargetLevel = 0\<rparr>, NewDirector None)"
  using sample_similar by (simp add: plan_eval)

lemma plans_are_valid_witness:
  "plan_ok (sample_store, sample_tracker)
     \<lparr>Inputs = [Some 3, Some 2], OutputStrategy = TIERED, Reason = SimilarSizedRuns, TargetLevel = 0\<rparr>"
  by (rule plans_are_valid [OF short_rt.go_runtime_axioms sample_inv sample_plan])

text \<open>C28: The director is only idle when there is nothing to merge: if it returns no plan, then no
  key lies in the ranges of two live segments, so that every key has at most one place.\<close>

theorem idle_means_disjoint:
  assumes "go_runtime rt" "tracker_inv (st, t)" "MaybePlan rt clk (st, t) d = (None, d')"
    "a \<in> set (ordered t)" "b \<in> set (ordered t)" "a \<noteq> b"
    "\<not> obsolete (cells st a)" "\<not> obsolete (cells st b)"
  shows "\<not> (in_key_range k (cells st a) \<and> in_key_range k (cells st b))"
proof -
  have a: "a \<in> set (GetAllSegments rt (st, t))"
    using assms(4,7) by (simp add: go_runtime.GetAllSegments_set [OF assms(1)])
  have "planLeveledCompaction rt (st, t) (GetAllSegments rt (st, t)) = None"
    using assms(3) a by (cases rule: MaybePlan_cases) auto
  with a have "GetOverlappingSegments rt a (st, t) = []"
    using planLeveled_None assms(7) by (metis fst_conv)
  then have "\<not> ranges_overlap (cells st a) (cells st b)"
    using go_runtime.GetOverlapping_set [OF assms(1,2,4)] assms(5-8) by (auto simp: overlapping_def)
  then show ?thesis by (auto simp: ranges_overlap_def in_key_range_def)
qed

lemma sample_idle:
  "MaybePlan short_runtime clk (sample_store, sample_tracker) (NewDirector None\<lparr>currentPolicy := LEVELED\<rparr>) =
     (None, NewDirector None\<lparr>currentPolicy := LEVELED\<rparr>)"
  by (simp add: plan_eval)

lemma idle_means_disjoint_witness:
  "\<not> (in_key_range [2] (cells sample_store 3) \<and> in_key_range [2] (cells sample_store 2))"
  by (rule idle_means_disjoint [OF short_rt.go_runtime_axioms sample_inv sample_idle]) simp_all

text \<open>A plan for similar-sized runs names two live segments of one level whose exact lengths
  are within a factor of two of each other, although the code compares rounded quotients; the
  first of the two is the newer one, and the level stays the same.\<close>

theorem tiered_pair_similar_newest_first:
  assumes "go_runtime rt" "MaybePlan rt clk (st, t) d = (Some p, d')" "Reason p = SimilarSizedRuns"
    "\<forall>r \<in> set (ordered t). 0 < Length (cells st r) \<and> Length (cells st r) < 2 ^ 53"
  shows "\<exists>a b. Inputs p = [Some a, Some b] \<and> Level (cells st a) = TargetLevel p \<and>
    Level (cells st b) = TargetLevel p \<and> CreatedAt (cells st b) \<le> CreatedAt (cells st a) \<and>
    Length (cells st a) < 2 * Length (cells st b) \<and> Length (cells st b) < 2 * Length (cells st a)"
proof -
  have "planTieredCompaction st (GetAllSegments rt (st, t)) = Some p"
    using assms(2)
  proof (cases rule: MaybePlan_cases)
    case (switch c seg reason c')
    then show ?thesis using assms(3) by (auto split: CompactionType.splits)
  next
    case leveled
    from leveled(2) [symmetric] show ?thesis by (rule planLeveled_Some) (use assms(3) in simp)
  qed simp_all
  then obtain pre a mid b post where ab: "GetAllSegments rt (st, t) = pre @ a # mid @ b # post"
    "Inputs p = [Some a, Some b]" "Level (cells st b) = Level (cells st a)"
    "similar_size (cells st a) (cells st b)" "TargetLevel p = Level (cells st a)"
    by (rule planTiered_Some)
  have "\<not> seg_less st b a"
    using go_runtime.GetAllSegments_sorted [OF assms(1), of st t] by (simp add: ab(1) sorted_wrt_append)
  moreover have "a \<in> set (ordered t)" "b \<in> set (ordered t)"
    using go_runtime.GetAllSegments_set [OF assms(1), of st t] by (auto simp: ab(1))
  ultimately show ?thesis
    using similar_size_factor [OF ab(4)] ab assms(4) by (auto simp: seg_less_iff)
qed

lemma tiered_pair_similar_newest_first_witness:
  "CreatedAt (cells sample_store 2) \<le> CreatedAt (cells sample_store 3) \<and>
   Length (cells sample_store 3) < 2 * Length (cells sample_store 2)"
  using tiered_pair_similar_newest_first [OF short_rt.go_runtime_axioms sample_plan]
  by simp

text \<open>A plan for overlapping ranges starts with a live segment and continues with live
  segments that overlap it, with all of them unless there are more than 49; its output goes one
  level down.\<close>

theorem leveled_plan_takes_all_overlaps:
  assumes "go_runtime rt" "tracker_inv (st, t)" "MaybePlan rt clk (st, t) d = (Some p, d')"
    "OutputStrategy p = LEVELED"
  shows "\<exists>r os. Inputs p = Some r # map Some os \<and> r \<in> set (ordered t) \<and> \<not> obsolete (cells st r) \<and>
    TargetLevel p = i64 (Level (cells st r) + 1) \<and> distinct os \<and>
    (let all = {r' \<in> set (ordered t). r' \<noteq> r \<and> overlapping st (cells st r) r'}
     in set os \<subseteq> all \<and> (card all \<le> 49 \<longrightarrow> set os = all) \<and> (49 < card all \<longrightarrow> length os = 49))"
proof -
  have "\<exists>r. r \<in> set (GetAllSegments rt (st, t)) \<and> TargetLevel p = i64 (Level (cells st r) + 1) \<and>
      Inputs p = map Some (collectLimitedOverlaps rt r 50 (st, t))"
    using assms(3)
  proof (cases rule: MaybePlan_cases)
    case (switch c seg reason c')
    then show ?thesis using assms(4) by (auto split: CompactionType.splits)
  next
    case (tiered q)
    from tiered(4) have "OutputStrategy q = TIERED" by (rule planTiered_Some)
    then show ?thesis using tiered(3) assms(4) by simp
  next
    case leveled
    from leveled(2) [symmetric] show ?thesis by (rule planLeveled_Some) auto
  qed simp
  then obtain r where r: "r \<in> set (ordered t)" "\<not> obsolete (cells st r)"
    "TargetLevel p = i64 (Level (cells st r) + 1)"
    "Inputs p = map Some (collectLimitedOverlaps rt r 50 (st, t))"
    by (auto simp: go_runtime.GetAllSegments_set [OF assms(1)])
  let ?os = "GetOverlappingSegments rt r (st, t)"
  note set = go_runtime.GetOverlapping_set [OF assms(1,2) r(1)]
  note dist = go_runtime.GetOverlapping_distinct [OF assms(1,2), of r]
  have "card (set ?os) = length ?os" using dist by (rule distinct_card)
  then have "(card (set ?os) \<le> 49 \<longrightarrow> set (take 49 ?os) = set ?os) \<and>
      (49 < card (set ?os) \<longrightarrow> length (take 49 ?os) = 49)" by simp
  moreover have "Inputs p = Some r # map Some (take 49 ?os)"
    by (simp add: r(4) go_runtime.collectLimited_eq [OF assms(1,2) r(1)])
  moreover have "distinct (take 49 ?os)" using dist by simp
  ultimately show ?thesis
    using r(1-3) set_take_subset [of 49 ?os] unfolding set Let_def
    by (intro exI [of _ r] exI [of _ "take 49 ?os"] conjI) simp_all
qed

definition overlap_store :: store where
  "overlap_store = \<lparr>cells = (\<lambda>_. zero_meta)(2 := plain_meta [1] 0 100 10 [5] [9],
     3 := plain_meta [2] 0 900 20 [1] [6]), fresh = 4\<rparr>"

definition overlap_tracker :: tracker where
  "overlap_tracker = \<lparr>segments = [([1], 2), ([2], 3)], ordered = [3, 2]\<rparr>"

lemma overlap_cells [simp]:
  "cells overlap_store 2 = plain_meta [1] 0 100 10 [5] [9]"
  "cells overlap_store 3 = plain_meta [2] 0 900 20 [1] [6]" "fresh overlap_store = 4"
  "segments overlap_tracker = [([1], 2), ([2], 3)]" "ordered overlap_tracker = [3, 2]"
  by (simp_all add: overlap_store_def overlap_tracker_def)

lemma overlap_inv: "tracker_inv (overlap_store, overlap_tracker)"
  by (auto simp: tracker_inv_def)

lemma overlap_plan:
  "MaybePlan short_runtime clk (overlap_store, overlap_tracker)
     (NewDirector None\<lparr>currentPolicy := LEVELED\<rparr>) =
   (Some \<lparr>Inputs = [Some 3, Some 2], OutputStrategy = LEVELED, Reason = OverlappingRanges,
      TargetLevel = 1\<rparr>, NewDirector None\<lparr>currentPolicy := LEVELED\<rparr>)"
  by (simp add: plan_eval)

lemma leveled_plan_takes_all_overlaps_witness:
  "\<exists>r os. [Some 3, Some 2] = Some r # map Some os \<and> r \<in> set (ordered overlap_tracker) \<and> distinct os"
  using leveled_plan_takes_all_overlaps [OF short_rt.go_runtime_axioms overlap_inv overlap_plan]
  unfolding plan.select_convs Let_def by metis

text \<open>The director's policy changes only when the controller asks for a switch, and then it
  becomes the strategy of that plan's output, which is not the one the segment had.\<close>

theorem policy_follows_controller:
  assumes "MaybePlan rt clk (st, t) d = (r, d')"
  shows "currentPolicy d' = currentPolicy d \<or>
    (\<exists>p seg reason. r = Some p \<and> Reason p = ControllerReason reason \<and> Some seg \<in> set (Inputs p) \<and>
       OutputStrategy p = other_strategy (Strategy (cells st seg)) \<and> currentPolicy d' = OutputStrategy p)"
  using assms
proof (cases rule: MaybePlan_cases)
  case (switch c seg reason c')
  have head: "seg \<in> set (collectLimitedOverlaps rt seg 50 (st, t))"
  proof -
    have "set inputs \<subseteq> set (limit_loop st m os inputs seen)" for m os inputs seen
      by (induction st m os inputs seen rule: limit_loop.induct) (auto simp: Let_def)
    then show ?thesis unfolding collectLimitedOverlaps_def Let_def fst_conv by fastforce
  qed
  then show ?thesis
    using switch by (cases "Strategy (cells st seg)") (auto simp: other_strategy_def)
qed auto

lemma policy_follows_controller_witness:
  "currentPolicy (NewDirector None\<lparr>currentPolicy := LEVELED\<rparr>) = LEVELED"
  using policy_follows_controller [OF overlap_plan] by (simp add: NewDirector_def)

end
