(* ===== verification/Sstable_Reader.thy ===== *)
theory Sstable_Reader
  imports Sstable_Writer
begin

text \<open>
  \<^verbatim>\<open>internal/sstable/reader/reader.go\<close>: the point lookup and the scan of one segment, over the
  bytes that the mapping shows. Both parse the same frames with \<^verbatim>\<open>binary.Read\<close> (which fails on a
  short read) and \<^verbatim>\<open>bytes.Reader.Read\<close> (which does not, but reports the end of the data even to
  an empty buffer), and differ in what they do with a frame that does not parse. The lemmas
  show that on a segment the writer made both return the entries of the run.
\<close>

section \<open>Parsing a frame\<close>

definition bin_read :: "nat \<Rightarrow> byte list \<Rightarrow> (byte list \<times> byte list) option" where
  "bin_read n bs = (if length bs < n then None else Some (take n bs, drop n bs))"

text \<open>\<^verbatim>\<open>buf.Read(p)\<close> into a fresh buffer of \<open>n\<close> bytes: a short read leaves zeros.\<close>

definition buf_read :: "nat \<Rightarrow> byte list \<Rightarrow> (byte list \<times> byte list) option" where
  "buf_read n bs =
     (if bs = [] then None
      else Some (take n bs @ replicate (n - length bs) 0, drop n bs))"

datatype frame_result =
  Torn
| Oversize
| Frame gostring slice byte "byte list"

definition parse_frame :: "byte list \<Rightarrow> frame_result" where
  "parse_frame bs =
     (case bin_read 4 bs of None \<Rightarrow> Torn | Some (kb, r1) \<Rightarrow>
      case bin_read 4 r1 of None \<Rightarrow> Torn | Some (vb, r2) \<Rightarrow>
      case bin_read 1 r2 of None \<Rightarrow> Torn | Some (tb, r3) \<Rightarrow>
        (let kLen = unat (get_u32 kb); vLen = unat (get_u32 vb); tomb = hd tb
         in if 1024 * 1024 < kLen \<or> 10 * 1024 * 1024 < vLen then Oversize
            else case buf_read kLen r3 of None \<Rightarrow> Torn | Some (key, r4) \<Rightarrow>
              if 0 < vLen then
                (case buf_read vLen r4 of None \<Rightarrow> Torn | Some (val, r5) \<Rightarrow> Frame key (Some val) tomb r5)
              else Frame key None tomb r4))"

text \<open>The same with the limits compared as integers, for evaluation.\<close>

lemma parse_frame_code [code]:
  "parse_frame bs =
     (case bin_read 4 bs of None \<Rightarrow> Torn | Some (kb, r1) \<Rightarrow>
      case bin_read 4 r1 of None \<Rightarrow> Torn | Some (vb, r2) \<Rightarrow>
      case bin_read 1 r2 of None \<Rightarrow> Torn | Some (tb, r3) \<Rightarrow>
        (let kw = uint (get_u32 kb); vw = uint (get_u32 vb); tomb = hd tb
         in if 1048576 < kw \<or> 10485760 < vw then Oversize
            else case buf_read (nat kw) r3 of None \<Rightarrow> Torn | Some (key, r4) \<Rightarrow>
              if 0 < vw then
                (case buf_read (nat vw) r4 of None \<Rightarrow> Torn | Some (val, r5) \<Rightarrow> Frame key (Some val) tomb r5)
              else Frame key None tomb r4))"
proof -
  have "n < unat w \<longleftrightarrow> int n < uint w" for n and w :: "32 word"
    by (simp flip: of_nat_less_iff [where 'a = int])
  then show ?thesis
    by (simp add: parse_frame_def Let_def unat_eq_nat_uint [symmetric] split: option.split prod.split)
qed

lemma parse_frame_shorter: "parse_frame bs = Frame k v t rest \<Longrightarrow> length rest < length bs"
  by (auto simp: parse_frame_def bin_read_def buf_read_def Let_def split: if_splits option.splits prod.splits)

section \<open>Get\<close>

text \<open>
  The loop of \<^verbatim>\<open>Get\<close>: what it returns, its count of comparisons, and whether it reached one of
  the exits that add the count to the segment's total.
\<close>

function get_loop :: "gostring \<Rightarrow> byte list \<Rightarrow> int \<Rightarrow> (slice \<times> bool) \<times> int \<times> bool" where
  "get_loop target buf cmps =
     (if buf = [] then ((None, False), cmps, True)
      else
        let c = i64 (cmps + 1)
        in case parse_frame buf of
             Torn \<Rightarrow> ((None, False), c, False)
           | Oversize \<Rightarrow> ((None, False), c, False)
           | Frame key val tomb rest \<Rightarrow>
               if key = target then ((if tomb = 1 then (None, False) else (val, True)), c, True)
               else if target < key then ((None, False), c, True)
               else get_loop target rest c)"
  by pat_completeness auto
termination
  by (relation "measure (\<lambda>(t, buf, c). length buf)") (auto dest: parse_frame_shorter)

declare get_loop.simps [simp del]

text \<open>
  \<^verbatim>\<open>mmapData[start:end]\<close>: the bytes between two offsets, and the expression, which panics when the
  offsets are out of range or out of order.
\<close>

definition sub_slice :: "byte list \<Rightarrow> int \<Rightarrow> int \<Rightarrow> byte list" where
  "sub_slice d start stop = take (nat (stop - start)) (drop (nat start) d)"

definition go_slice :: "byte list \<Rightarrow> int \<Rightarrow> int \<Rightarrow> byte list option" where
  "go_slice d start stop =
     (if 0 \<le> start \<and> start \<le> stop \<and> stop \<le> int (length d) then Some (sub_slice d start stop) else None)"

text \<open>
  The method up to its deferred count: the value, the comparisons and whether to commit them.
  \<open>None\<close> is a panic, of \<open>Seek\<close> or of the slice expression.
\<close>

definition get_body ::
  "outcome \<times> outcome \<times> outcome \<Rightarrow> segment_meta option \<Rightarrow> gostring \<Rightarrow> segfile \<Rightarrow>
   (((slice \<times> bool) \<times> int \<times> bool) \<times> segfile) option" where
  "get_body os meta target s =
     (let miss = (((None, False), 0, False), s)
      in case meta of
           None \<Rightarrow> Some miss
         | Some m \<Rightarrow>
             if IsObsolete m then Some miss
             else if target < MinKey m \<or> MaxKey m < target then Some miss
             else case SparseIndex m of
                    None \<Rightarrow> Some miss
                  | Some idx \<Rightarrow>
                      (case mmap_bytes os s of
                         (Inl e, s') \<Rightarrow> Some (((None, False), 0, False), s')
                       | (Inr d, s') \<Rightarrow>
                           let miss' = (((None, False), 0, False), s')
                           in if Offset m < 0 \<or> Length m \<le> 0 then Some miss'
                              else if int (length d) < i64 (Offset m + Length m) then Some miss'
                              else case Seek idx target of
                                     None \<Rightarrow> None
                                   | Some (off, calls) \<Rightarrow>
                                       let cmps = i64 (int calls);
                                           start = i64 (i64 (Offset m + DataStartOffset m) + off);
                                           stop = i64 (Offset m + SparseIndexOffset m)
                                       in if start < 0 \<or> int (length d) < stop \<or> stop < start
                                          then Some (((None, False), cmps, False), s')
                                          else if start < Offset m \<or> i64 (Offset m + Length m) < stop
                                          then Some (((None, False), cmps, False), s')
                                          else (case go_slice d start stop of
                                                  None \<Rightarrow> None
                                                | Some data \<Rightarrow> Some (get_loop target data cmps, s'))))"

definition reader_Get ::
  "outcome \<times> outcome \<times> outcome \<Rightarrow> segment_meta option \<Rightarrow> gostring \<Rightarrow> segfile \<Rightarrow> counters \<Rightarrow>
   ((slice \<times> bool) \<times> segment_meta option \<times> segfile \<times> counters) option" where
  "reader_Get os meta target s g =
     (case get_body os meta target s of
        None \<Rightarrow> None
      | Some ((r, cmps, commit), s') \<Rightarrow>
          let g' = (if 0 < cmps then g\<lparr>GlobalReadComparisons := i64 (GlobalReadComparisons g + cmps)\<rparr> else g);
              meta' = (if commit
                       then map_option (\<lambda>m. m\<lparr>TotalComparisons := i64 (TotalComparisons m + cmps)\<rparr>) meta
                       else meta)
          in Some (r, meta', s', g'))"

section \<open>Scan\<close>

datatype scan_error =
  NilMeta
| ScanObsolete gostring
| InvalidBounds int int
| MmapFailed io_error
| ExceedsFile int int int
| InvalidDataBounds int int int
| OutsideSegment int int int int
| DataTooLarge int
| RefetchFailed io_error
| FileShrank
| OutOfBounds
| InvalidLengths

text \<open>The loop of \<^verbatim>\<open>Scan\<close>: a torn frame ends it, an oversized one is an error.\<close>

function scan_loop ::
  "byte list \<Rightarrow> (gostring \<times> slice) list \<Rightarrow> scan_error + (gostring \<times> slice) list" where
  "scan_loop buf result =
     (if buf = [] then Inr result
      else case parse_frame buf of
             Torn \<Rightarrow> Inr result
           | Oversize \<Rightarrow> Inl InvalidLengths
           | Frame key val tomb rest \<Rightarrow>
               scan_loop rest (AList.update key (if tomb = 1 then None else val) result))"
  by pat_completeness auto
termination
  by (relation "measure (\<lambda>(buf, result). length buf)") (auto dest: parse_frame_shorter)

declare scan_loop.simps [simp del]

text \<open>
  The method: \<open>None\<close> is a panic, of the slice expression or of \<^verbatim>\<open>make\<close> with a negative length. The
  lemma after it says that the checks before them exclude it.
\<close>

definition scan_method ::
  "outcome \<times> outcome \<times> outcome \<Rightarrow> outcome \<times> outcome \<times> outcome \<Rightarrow> segment_meta option \<Rightarrow> segfile \<Rightarrow>
   ((scan_error + (gostring \<times> slice) list) \<times> segfile) option" where
  "scan_method os os2 meta s =
     (case meta of
        None \<Rightarrow> Some (Inl NilMeta, s)
      | Some m \<Rightarrow>
          if IsObsolete m then Some (Inl (ScanObsolete (ID m)), s)
          else if Offset m < 0 \<or> Length m \<le> 0 then Some (Inl (InvalidBounds (Offset m) (Length m)), s)
          else case mmap_bytes os s of
                 (Inl e, s1) \<Rightarrow> Some (Inl (MmapFailed e), s1)
               | (Inr d, s1) \<Rightarrow>
                   let size1 = int (length d);
                       start = i64 (Offset m + DataStartOffset m);
                       stop = i64 (Offset m + SparseIndexOffset m)
                   in if size1 < i64 (Offset m + Length m)
                      then Some (Inl (ExceedsFile (Offset m) (Length m) size1), s1)
                      else if start < 0 \<or> size1 < stop \<or> stop < start
                      then Some (Inl (InvalidDataBounds start stop size1), s1)
                      else if start < Offset m \<or> i64 (Offset m + Length m) < stop
                      then Some (Inl (OutsideSegment start stop (Offset m) (i64 (Offset m + Length m))), s1)
                      else
                        let dataLen = i64 (stop - start)
                        in if 500 * 1024 * 1024 < dataLen then Some (Inl (DataTooLarge dataLen), s1)
                           else case mmap_bytes os2 s1 of
                                  (Inl e, s2) \<Rightarrow> Some (Inl (RefetchFailed e), s2)
                                | (Inr d2, s2) \<Rightarrow>
                                    if length d2 < length d then Some (Inl FileShrank, s2)
                                    else if int (length d2) < stop then Some (Inl OutOfBounds, s2)
                                    else if dataLen < 0 then None
                                    else (case go_slice d2 start stop of
                                            None \<Rightarrow> None
                                          | Some data \<Rightarrow> Some (scan_loop (take (nat dataLen) data) [], s2)))"

lemma i64_range: "- (2 ^ 63) \<le> i64 x \<and> i64 x < 2 ^ 63"
  using in_i64_i64 [of x] by (simp add: in_i64_def)

lemma data_length: "0 \<le> start \<Longrightarrow> start \<le> i64 x \<Longrightarrow> i64 (i64 x - start) = i64 x - start"
  using i64_range [of x] by (intro i64_id) auto

lemma scan_method_returns: "scan_method os os2 meta s \<noteq> None"
  by (auto simp: scan_method_def go_slice_def Let_def data_length not_less split: option.split prod.split sum.split)

text \<open>What its callers get.\<close>

definition reader_Scan ::
  "outcome \<times> outcome \<times> outcome \<Rightarrow> outcome \<times> outcome \<times> outcome \<Rightarrow> segment_meta option \<Rightarrow> segfile \<Rightarrow>
   (scan_error + (gostring \<times> slice) list) \<times> segfile" where
  "reader_Scan os os2 meta s = the (scan_method os os2 meta s)"

lemma scan_method_eq: "scan_method os os2 meta s = Some (reader_Scan os os2 meta s)"
  using scan_method_returns [of os os2 meta s] by (simp add: reader_Scan_def)

lemma scan_method_file:
  assumes "sf_inv s" "scan_method os os2 meta s = Some (r, s')"
  shows "sf_inv s' \<and> sf_bytes s' = sf_bytes s \<and> sf_closed s' = sf_closed s"
proof -
  obtain x s1 where x: "mmap_bytes os s = (x, s1)" by fastforce
  obtain y s2 where y: "mmap_bytes os2 s1 = (y, s2)" by fastforce
  have "s' = s \<or> s' = s1 \<or> s' = s2"
    using assms(2) unfolding scan_method_def x y
    by (cases meta; cases x; cases y) (auto simp: y Let_def split: option.splits if_splits)
  moreover have "sf_inv s1 \<and> sf_bytes s1 = sf_bytes s \<and> sf_closed s1 = sf_closed s" by (rule mmap_bytes_keeps [OF assms(1) x])
  moreover from this have "sf_inv s2 \<and> sf_bytes s2 = sf_bytes s1 \<and> sf_closed s2 = sf_closed s1"
    using mmap_bytes_keeps [OF _ y] by blast
  ultimately show ?thesis using assms(1) by metis
qed

section \<open>Frames that the writer made\<close>

definition readable :: "kv_entry \<Rightarrow> bool" where
  "readable e \<longleftrightarrow> length (Key e) \<le> 1024 * 1024 \<and> length (slice_bytes (Value e)) \<le> 10 * 1024 * 1024"

text \<open>
  A segment whose only entry has an empty key and an empty value cannot be parsed: the end of
  the data is reported to the read of the empty key.
\<close>

definition lone_empty :: "kv_entry list \<Rightarrow> bool" where
  "lone_empty es \<longleftrightarrow> (\<exists>e. es = [e] \<and> Key e = [] \<and> slice_bytes (Value e) = [])"

definition parsable :: "kv_entry list \<Rightarrow> bool" where
  "parsable es \<longleftrightarrow> (\<forall>e \<in> set es. readable e) \<and> \<not> lone_empty es"

text \<open>An empty value reads back as nil.\<close>

definition nonempty :: "byte list \<Rightarrow> slice" where
  "nonempty bs = (if bs = [] then None else Some bs)"

lemma bin_read_append: "length a = n \<Longrightarrow> bin_read n (a @ b) = Some (a, b)"
  by (simp add: bin_read_def)

lemma bin_read_1: "bin_read (Suc 0) (x # xs) = Some ([x], xs)"
  by (simp add: bin_read_def)

lemma buf_read_append: "length a = n \<Longrightarrow> a @ b \<noteq> [] \<Longrightarrow> buf_read n (a @ b) = Some (a, b)"
  by (simp add: buf_read_def)

lemma parse_frame_kv:
  assumes "readable e" "Key e @ slice_bytes (Value e) @ rest \<noteq> []"
  shows "parse_frame (kv_frame e @ rest) =
    Frame (Key e) (nonempty (slice_bytes (Value e))) (if Tombstone e then 1 else 0) rest"
proof -
  have fit: "length (Key e) < 2 ^ 32" "length (slice_bytes (Value e)) < 2 ^ 32"
    using assms(1) by (auto simp: readable_def)
  have frame: "kv_frame e @ rest =
    put_u32 (u32_len (Key e)) @ (put_u32 (u32_len (slice_bytes (Value e))) @
      ([if Tombstone e then 1 else 0] @ (Key e @ slice_bytes (Value e) @ rest)))"
    by (simp add: kv_frame_def frame_def frame_header_def)
  have lim: "\<not> 1024 * 1024 < length (Key e)" "\<not> 10 * 1024 * 1024 < length (slice_bytes (Value e))"
    using assms(1) by (simp_all add: readable_def)
  have key: "buf_read (length (Key e)) (Key e @ slice_bytes (Value e) @ rest)
    = Some (Key e, slice_bytes (Value e) @ rest)"
    by (rule buf_read_append [OF refl assms(2)])
  have val: "buf_read (length (slice_bytes (Value e))) (slice_bytes (Value e) @ rest)
    = Some (slice_bytes (Value e), rest)" if "slice_bytes (Value e) \<noteq> []"
    using that by (intro buf_read_append) auto
  show ?thesis
    unfolding parse_frame_def frame
    using lim key val fit
    by (cases "slice_bytes (Value e) = []")
      (simp_all add: bin_read_append bin_read_1 Let_def unat_u32_len nonempty_def)
qed

definition entry_result :: "kv_entry option \<Rightarrow> slice \<times> bool" where
  "entry_result r =
     (case r of None \<Rightarrow> (None, False)
      | Some e \<Rightarrow> if Tombstone e then (None, False) else (nonempty (slice_bytes (Value e)), True))"

lemma parsable_Cons:
  assumes "parsable (e # es)" "sorted_run (e # es)"
  shows "readable e" "Key e @ slice_bytes (Value e) @ frames es \<noteq> []" "parsable es"
proof -
  show "readable e" using assms(1) by (simp add: parsable_def)
  show "Key e @ slice_bytes (Value e) @ frames es \<noteq> []"
  proof (cases es)
    case Nil
    then show ?thesis using assms(1) by (auto simp: parsable_def lone_empty_def)
  next
    case (Cons e' es')
    then show ?thesis by simp
  qed
  have "\<not> lone_empty es"
  proof
    assume "lone_empty es"
    then obtain e' where "es = [e']" "Key e' = []" by (auto simp: lone_empty_def)
    then show False using assms(2) by simp
  qed
  then show "parsable es" using assms(1) by (simp add: parsable_def)
qed

lemma get_loop_frames:
  assumes "sorted_run es" "parsable es"
  shows "\<exists>c. get_loop target (frames es) cmps = (entry_result (run_map es target), c, True)"
  using assms
proof (induction es arbitrary: cmps)
  case Nil
  show ?case by (subst get_loop.simps) (simp add: entry_result_def)
next
  case (Cons e es)
  note p = parsable_Cons [OF Cons.prems(2,1)]
  have tail: "run_map es target = None" if "target \<le> Key e"
    using Cons.prems(1) that by (auto simp: run_map_None_iff)
  have IH: "\<exists>c. get_loop target (frames es) cmps' = (entry_result (run_map es target), c, True)" for cmps'
    using Cons.IH [of cmps'] Cons.prems(1) p(3) by simp
  show ?case
    unfolding frames_simps
    using IH [of "i64 (cmps + 1)"] tail
    by (subst get_loop.simps) (auto simp: parse_frame_kv [OF p(1,2)] Let_def entry_result_def)
qed

section \<open>Get on a segment\<close>

lemma sorted_run_nth: "sorted_run es \<Longrightarrow> i < j \<Longrightarrow> j < length es \<Longrightarrow> Key (es ! i) < Key (es ! j)"
  unfolding sorted_run_def using sorted_wrt_nth_less [of "(<)" "map Key es" i j] by simp

text \<open>
  \<open>Seek\<close> lands on an entry before which the target cannot be and from which it is less than one
  stride away.
\<close>

definition near :: "sparse_builder \<Rightarrow> gostring \<Rightarrow> kv_entry list \<Rightarrow> bool" where
  "near b target es \<longleftrightarrow> (\<forall>e \<in> set (drop (nat (stride b)) es). target < Key e)"

lemma Build_frames:
  "0 < stride b \<Longrightarrow> Build b (map Key es) (map (entry_offset es) [0..<length es]) = Some (sampled_index b es)"
  by (simp add: Build_samples sampled_index_def sampled_less cong: map_cong)

lemma sampled_index_size: "length (Keys (sampled_index b es)) \<le> length es"
  unfolding sampled_index_def sampled_def samples_def
  using length_filter_le [of _ "[0..<length es]"] by simp

lemma Seek_lands:
  assumes "sorted_run es" "es \<noteq> []" "0 < stride b"
  obtains p c where "Seek (sampled_index b es) target = Some (entry_offset es p, c)" "p \<le> length es"
    "run_map (drop p es) target = run_map es target" "2 ^ c \<le> 2 * length es"
    "target < Key (hd es) \<or> near b target (drop p es)"
proof -
  let ?keys = "map Key es" and ?offs = "map (entry_offset es) [0..<length es]"
  obtain off c where seek: "Seek (sampled_index b es) target = Some (off, c)"
    "2 ^ c \<le> 2 * length (Keys (sampled_index b es))" and
    landed: "target < ?keys ! 0 \<and> off = 0 \<or> (\<exists>p < length ?keys. off = ?offs ! p \<and> ?keys ! p \<le> target \<and>
        (\<forall>q < length ?keys. p + nat (stride b) \<le> q \<longrightarrow> target < ?keys ! q))"
    using Seek_floor [of b ?keys ?offs target] Build_frames [of b es] assms by (auto simp: sorted_run_def)
  have c: "2 ^ c \<le> 2 * length es" using seek(2) sampled_index_size [of b es] by simp
  show thesis
  proof (cases "target < Key (hd es)")
    case True
    then have "off = 0"
      using landed assms(1,2) sorted_run_nth [OF assms(1), of 0] by (auto simp: hd_conv_nth)
        (metis leD less_trans not_gr_zero)
    then show thesis using that [of 0 c] seek(1) c True by (simp add: entry_offset_def)
  next
    case False
    then obtain p where p: "p < length es" "off = entry_offset es p" "Key (es ! p) \<le> target"
      "\<And>q. q < length es \<Longrightarrow> p + nat (stride b) \<le> q \<Longrightarrow> target < Key (es ! q)"
      using landed assms(2) by (auto simp: hd_conv_nth)
    have "Key e < Key (es ! p)" if "e \<in> set (take p es)" for e
      using that p sorted_run_nth [OF assms(1)] by (auto simp: in_set_conv_nth)
    then have "run_map (take p es) target = None" using p(3) by (auto simp: run_map_None_iff dest: leD)
    then have "run_map (take p es @ drop p es) target = run_map (drop p es) target"
      unfolding run_map_append by (simp add: map_add_def)
    moreover have "near b target (drop p es)" by (auto simp: near_def in_set_conv_nth less_diff_conv ac_simps intro!: p(4))
    ultimately show thesis using that [of p c] p(1,2) seek(1) c by simp
  qed
qed

lemma parsable_drop: "sorted_run es \<Longrightarrow> parsable es \<Longrightarrow> sorted_run (drop p es) \<and> parsable (drop p es)"
proof (induction p arbitrary: es)
  case (Suc p)
  then show ?case
    using parsable_Cons(3) by (cases es) fastforce+
qed simp

lemma seg_holds_slice:
  assumes "seg_holds b bytes m es" "p \<le> length es"
  shows "sub_slice bytes (Offset m + DataStartOffset m + entry_offset es p) (Offset m + SparseIndexOffset m)
    = frames (drop p es)"
proof -
  let ?o = "length (frames (take p es))"
  let ?a = "nat (Offset m + DataStartOffset m)"
  have le: "?o \<le> length (frames es)" using entry_offset_le [of es p] by (simp add: entry_offset_def)
  have n: "nat (Offset m + DataStartOffset m + int ?o) = ?o + ?a"
    "nat (Offset m + SparseIndexOffset m - (Offset m + DataStartOffset m + int ?o)) = length (frames es) - ?o"
    using assms(1) le by (auto simp: seg_holds_def)
  have "sub_slice bytes (Offset m + DataStartOffset m + entry_offset es p) (Offset m + SparseIndexOffset m)
    = drop ?o (take (length (frames es)) (drop ?a bytes))"
    unfolding sub_slice_def entry_offset_def n by (simp add: drop_take)
  then show ?thesis
    using assms(1) frames_drop by (simp add: seg_holds_def)
qed

lemma out_of_range_None:
  assumes "sorted_run es" "es \<noteq> []" "target < Key (hd es) \<or> Key (last es) < target"
  shows "run_map es target = None"
proof -
  have "Key (hd es) \<le> Key e \<and> Key e \<le> Key (last es)" if "e \<in> set es" for e
  proof -
    from that obtain i where i: "i < length es" "es ! i = e" unfolding in_set_conv_nth by blast
    have "i = 0 \<or> Key (es ! 0) < Key (es ! i)" "i = length es - 1 \<or> Key (es ! i) < Key (es ! (length es - 1))"
      using i(1) sorted_run_nth [OF assms(1), of 0 i] sorted_run_nth [OF assms(1), of i "length es - 1"]
      by linarith+
    then show ?thesis using i assms(2) by (auto simp: hd_conv_nth last_conv_nth)
  qed
  then show ?thesis using assms(3) by (fastforce simp: run_map_None_iff)
qed

text \<open>A key in the range of the segment is looked for in the frames from where \<open>Seek\<close> lands.\<close>

lemma get_body_frames:
  assumes "seg_holds b (sf_bytes s) m es" "\<not> obsolete m" "sf_inv s" "\<not> sf_closed s"
    "\<not> (target < MinKey m \<or> MaxKey m < target)"
  obtains p c s' where
    "get_body all_done (Some m) target s = Some (get_loop target (frames (drop p es)) (i64 (int c)), s')"
    "sf_inv s'" "sf_bytes s' = sf_bytes s" "\<not> sf_closed s'"
    "run_map (drop p es) target = run_map es target" "2 ^ c \<le> 2 * length es" "near b target (drop p es)"
proof -
  obtain s' where s': "mmap_bytes all_done s = (Inr (sf_bytes s), s')" "sf_inv s'"
    "sf_bytes s' = sf_bytes s" "\<not> sf_closed s'"
    by (rule mmap_bytes_done [OF assms(3,4)])
  have run: "sorted_run es" "es \<noteq> []" "0 < stride b" and idx: "SparseIndex m = Some (sampled_index b es)"
    and low: "MinKey m = Key (hd es)"
    using assms(1) by (auto simp: seg_holds_def)
  obtain p c where p: "Seek (sampled_index b es) target = Some (entry_offset es p, c)" "p \<le> length es"
    "run_map (drop p es) target = run_map es target" "2 ^ c \<le> 2 * length es" "near b target (drop p es)"
    using Seek_lands [OF run, of target] assms(5) low by metis
  have off: "0 \<le> entry_offset es p" "entry_offset es p \<le> SparseIndexOffset m - DataStartOffset m"
    using entry_offset_le [of es p] assms(1) by (auto simp: seg_holds_def entry_offset_def)
  have bounds: "0 \<le> Offset m" "0 < Length m" "Offset m + Length m \<le> int (length (sf_bytes s))"
    "0 \<le> DataStartOffset m" "DataStartOffset m \<le> SparseIndexOffset m" "SparseIndexOffset m \<le> Length m"
    "int (length (sf_bytes s)) < 2 ^ 63"
    using assms(1) by (auto simp: seg_holds_def)
  have wrap: "i64 (Offset m + Length m) = Offset m + Length m"
    "i64 (Offset m + DataStartOffset m) = Offset m + DataStartOffset m"
    "i64 (Offset m + DataStartOffset m + entry_offset es p) = Offset m + DataStartOffset m + entry_offset es p"
    "i64 (Offset m + SparseIndexOffset m) = Offset m + SparseIndexOffset m"
    using bounds off by (auto intro!: i64_id)
  have "get_body all_done (Some m) target s = Some (get_loop target (frames (drop p es)) (i64 (int c)), s')"
    using assms(2,5) bounds off s'(1) p seg_holds_slice [OF assms(1) p(2)]
    by (simp add: get_body_def IsObsolete_def idx Let_def wrap go_slice_def)
  then show thesis using that s'(2-) p(3-) by blast
qed

lemma get_body_holds:
  assumes "seg_holds b (sf_bytes s) m es" "parsable es" "\<not> obsolete m" "sf_inv s" "\<not> sf_closed s"
  shows "\<exists>c commit s'. get_body all_done (Some m) target s =
      Some ((entry_result (run_map es target), c, commit), s') \<and>
      sf_inv s' \<and> sf_bytes s' = sf_bytes s \<and> \<not> sf_closed s'"
proof (cases "target < MinKey m \<or> MaxKey m < target")
  case True
  then have "run_map es target = None"
    using assms(1) by (intro out_of_range_None) (auto simp: seg_holds_def)
  then show ?thesis
    using True assms(3-5) by (auto simp: get_body_def IsObsolete_def entry_result_def Let_def)
next
  case False
  obtain p c s' where p: "get_body all_done (Some m) target s =
      Some (get_loop target (frames (drop p es)) (i64 (int c)), s')" "sf_inv s'" "sf_bytes s' = sf_bytes s"
    "\<not> sf_closed s'" "run_map (drop p es) target = run_map es target"
    by (rule get_body_frames [OF assms(1,3-5) False])
  have "sorted_run es" using assms(1) by (simp add: seg_holds_def)
  with p show ?thesis
    using get_loop_frames parsable_drop [OF _ assms(2), of p] by (metis (no_types, lifting))
qed

lemma reader_Get_holds:
  assumes "seg_holds b (sf_bytes s) m es" "parsable es" "\<not> obsolete m" "sf_inv s" "\<not> sf_closed s"
  shows "\<exists>n s' g'. reader_Get all_done (Some m) target s g =
      Some (entry_result (run_map es target), Some (m\<lparr>TotalComparisons := n\<rparr>), s', g') \<and>
      sf_inv s' \<and> sf_bytes s' = sf_bytes s \<and> \<not> sf_closed s'"
proof -
  obtain c commit s' where body: "get_body all_done (Some m) target s =
      Some ((entry_result (run_map es target), c, commit), s')"
    and s': "sf_inv s'" "sf_bytes s' = sf_bytes s" "\<not> sf_closed s'"
    using get_body_holds [OF assms] by blast
  have keep: "\<exists>n. m = m\<lparr>TotalComparisons := n\<rparr>"
    by (rule exI [of _ "TotalComparisons m"]) simp
  then show ?thesis
    using s' unfolding reader_Get_def body by (cases commit) (auto simp: Let_def)
qed

section \<open>Scan of a segment\<close>

text \<open>What a scan makes of an entry: nil for a tombstone, and for an empty value too.\<close>

definition scan_value :: "kv_entry \<Rightarrow> slice" where
  "scan_value e = (if Tombstone e then None else nonempty (slice_bytes (Value e)))"

definition scan_view :: "kv_entry list \<Rightarrow> gostring \<rightharpoonup> slice" where
  "scan_view es k = map_option scan_value (run_map es k)"

lemma scan_loop_frames:
  assumes "sorted_run es" "parsable es"
  shows "\<exists>r. scan_loop (frames es) acc = Inr r \<and> map_of r = map_of acc ++ scan_view es \<and>
    (distinct (map fst acc) \<longrightarrow> distinct (map fst r))"
  using assms
proof (induction es arbitrary: acc)
  case Nil
  show ?case by (subst scan_loop.simps) (auto simp: scan_view_def fun_eq_iff map_add_def)
next
  case (Cons e es)
  note p = parsable_Cons [OF Cons.prems(2,1)]
  let ?acc = "AList.update (Key e) (scan_value e) acc"
  have fresh: "run_map es (Key e) = None" using Cons.prems(1) by (auto simp: run_map_None_iff)
  have step: "scan_loop (frames (e # es)) acc = scan_loop (frames es) ?acc"
    unfolding frames_simps
    by (subst scan_loop.simps) (simp add: parse_frame_kv [OF p(1,2)] scan_value_def)
  have "map_of ?acc ++ scan_view es = map_of acc ++ scan_view (e # es)"
    using fresh by (auto simp: fun_eq_iff update_conv' map_add_def scan_view_def split: option.splits)
  moreover have "distinct (map fst acc) \<Longrightarrow> distinct (map fst ?acc)"
    by (rule distinct_update)
  moreover obtain r where "scan_loop (frames es) ?acc = Inr r" "map_of r = map_of ?acc ++ scan_view es"
    "distinct (map fst ?acc) \<longrightarrow> distinct (map fst r)"
    using Cons.IH [of ?acc] Cons.prems(1) p(3) by auto
  ultimately show ?case unfolding step by auto
qed

definition scannable :: "kv_entry list \<Rightarrow> bool" where
  "scannable es \<longleftrightarrow> parsable es \<and> int (length (frames es)) \<le> 500 * 1024 * 1024"

lemma reader_Scan_holds:
  assumes "seg_holds b (sf_bytes s) m es" "scannable es" "\<not> obsolete m" "sf_inv s" "\<not> sf_closed s"
  shows "\<exists>r s'. reader_Scan all_done all_done (Some m) s = (Inr r, s') \<and>
    map_of r = scan_view es \<and> distinct (map fst r) \<and>
    sf_inv s' \<and> sf_bytes s' = sf_bytes s \<and> \<not> sf_closed s'"
proof -
  obtain s1 where s1: "mmap_bytes all_done s = (Inr (sf_bytes s), s1)" "sf_inv s1"
    "sf_bytes s1 = sf_bytes s" "\<not> sf_closed s1"
    by (rule mmap_bytes_done [OF assms(4,5)])
  obtain s2 where s2: "mmap_bytes all_done s1 = (Inr (sf_bytes s1), s2)" "sf_inv s2"
    "sf_bytes s2 = sf_bytes s1" "\<not> sf_closed s2"
    by (rule mmap_bytes_done [OF s1(2,4)])
  have run: "sorted_run es" using assms(1) by (auto simp: seg_holds_def)
  have bounds: "0 \<le> Offset m" "0 < Length m" "Offset m + Length m \<le> int (length (sf_bytes s))"
    "0 \<le> DataStartOffset m" "DataStartOffset m \<le> SparseIndexOffset m" "SparseIndexOffset m \<le> Length m"
    "int (length (sf_bytes s)) < 2 ^ 63"
    "SparseIndexOffset m - DataStartOffset m = int (length (frames es))"
    using assms(1) by (auto simp: seg_holds_def)
  have wrap: "i64 (Offset m + Length m) = Offset m + Length m"
    "i64 (Offset m + DataStartOffset m) = Offset m + DataStartOffset m"
    "i64 (Offset m + SparseIndexOffset m) = Offset m + SparseIndexOffset m"
    "i64 (Offset m + SparseIndexOffset m - (Offset m + DataStartOffset m)) = int (length (frames es))"
    using bounds by (auto intro!: i64_id [THEN trans])
  have lim: "\<not> 500 * 1024 * 1024 < int (length (frames es))" using assms(2) by (simp add: scannable_def)
  obtain r where r: "scan_loop (frames es) [] = Inr r" "map_of r = scan_view es" "distinct (map fst r)"
    using scan_loop_frames [OF run, of "[]"] assms(2) by (auto simp: scannable_def)
  have sl: "sub_slice (sf_bytes s) (Offset m + DataStartOffset m) (Offset m + SparseIndexOffset m) = frames es"
    using seg_holds_slice [OF assms(1), of 0] by (simp add: entry_offset_def)
  have "length (sub_slice (sf_bytes s) (Offset m + DataStartOffset m) (Offset m + SparseIndexOffset m)) = length (frames es)"
    by (simp add: sl)
  then have "scan_method all_done all_done (Some m) s = Some (Inr r, s2)"
    unfolding scan_method_def Let_def wrap option.case
    using assms(3) bounds s1 s2 lim r(1) sl by (simp add: IsObsolete_def wrap go_slice_def)
  then have "reader_Scan all_done all_done (Some m) s = (Inr r, s2)" by (simp add: reader_Scan_def)
  then show ?thesis using r s1 s2 by auto
qed

section \<open>The interface and its clients\<close>

text \<open>
  \<^verbatim>\<open>SSTableReader\<close>: what the read path and the compaction rely on. \<open>holds\<close> relates a file
  state and a segment's metadata to the run that was written.
\<close>

locale segment_reader =
  fixes ready :: "'s \<Rightarrow> bool"
    and holds :: "'s \<Rightarrow> segment_meta \<Rightarrow> kv_entry list \<Rightarrow> bool"
    and get :: "segment_meta option \<Rightarrow> gostring \<Rightarrow> 's \<Rightarrow> counters \<Rightarrow>
      ((slice \<times> bool) \<times> segment_meta option \<times> 's \<times> counters) option"
    and scan :: "segment_meta option \<Rightarrow> 's \<Rightarrow> (scan_error + (gostring \<times> slice) list) \<times> 's"
  assumes get_ok: "ready s \<Longrightarrow> holds s m es \<Longrightarrow> \<not> obsolete m \<Longrightarrow>
      \<exists>n s' g'. get (Some m) k s g =
        Some (entry_result (run_map es k), Some (m\<lparr>TotalComparisons := n\<rparr>), s', g') \<and>
        ready s' \<and> (\<forall>m' es'. holds s' m' es' = holds s m' es')"
    and scan_ok: "ready s \<Longrightarrow> holds s m es \<Longrightarrow> \<not> obsolete m \<Longrightarrow>
      \<exists>r s'. scan (Some m) s = (Inr r, s') \<and> map_of r = scan_view es \<and> distinct (map fst r) \<and>
        ready s' \<and> (\<forall>m' es'. holds s' m' es' = holds s m' es')"
    and holds_frame: "holds s (m\<lparr>TotalComparisons := n\<rparr>) es = holds s m es"
      "holds s (m\<lparr>readCount := n\<rparr>) es = holds s m es"
      "holds s (m\<lparr>writeCount := n\<rparr>) es = holds s m es"
      "holds s (m\<lparr>OverlapCount := n\<rparr>) es = holds s m es"
      "holds s (m\<lparr>InCompaction := f\<rparr>) es = holds s m es"
      "holds s (m\<lparr>obsolete := f\<rparr>) es = holds s m es"

definition file_ready :: "segfile \<Rightarrow> bool" where
  "file_ready s \<longleftrightarrow> sf_inv s \<and> \<not> sf_closed s"

definition file_holds :: "sparse_builder \<Rightarrow> segfile \<Rightarrow> segment_meta \<Rightarrow> kv_entry list \<Rightarrow> bool" where
  "file_holds b s m es \<longleftrightarrow> seg_holds b (sf_bytes s) m es \<and> scannable es"

lemma seg_holds_frame:
  "seg_holds b bytes (m\<lparr>TotalComparisons := n\<rparr>) es = seg_holds b bytes m es"
  "seg_holds b bytes (m\<lparr>readCount := n\<rparr>) es = seg_holds b bytes m es"
  "seg_holds b bytes (m\<lparr>writeCount := n\<rparr>) es = seg_holds b bytes m es"
  "seg_holds b bytes (m\<lparr>OverlapCount := n\<rparr>) es = seg_holds b bytes m es"
  "seg_holds b bytes (m\<lparr>InCompaction := f\<rparr>) es = seg_holds b bytes m es"
  "seg_holds b bytes (m\<lparr>obsolete := f\<rparr>) es = seg_holds b bytes m es"
  by (simp_all add: seg_holds_def)

interpretation sst: segment_reader file_ready "file_holds b" "reader_Get all_done" "reader_Scan all_done all_done"
  for b
proof (unfold_locales, goal_cases)
  case (1 s m es k g)
  then show ?case
    using reader_Get_holds [of b s m es k g] by (force simp: file_ready_def file_holds_def scannable_def)
next
  case (2 s m es)
  then show ?case
    using reader_Scan_holds [of b s m es] by (force simp: file_ready_def file_holds_def)
qed (simp_all add: file_holds_def seg_holds_frame)

section \<open>Segments that were written\<close>

definition file_fits :: "sparse_builder \<Rightarrow> kv_entry list \<Rightarrow> segfile \<Rightarrow> bool" where
  "file_fits b es s \<longleftrightarrow> 0 < stride b \<and> scannable es \<and> int (length (sf_bytes s)) < 2 ^ 63"

lemma file_write_ok:
  assumes "file_ready s" "sorted_run es"
    "WriteSegment b os uid now es strategy level s g = Some (Inr (Some m), s', g')" "file_fits b es s'"
  shows "file_holds b s' m es \<and> file_ready s' \<and> (\<forall>m' es'. file_holds b s m' es' \<longrightarrow> file_holds b s' m' es') \<and>
    \<not> obsolete m \<and> \<not> InCompaction m \<and> Level m = level \<and> Strategy m = strategy"
proof -
  have fit: "0 < stride b" "scannable es" "int (length (frames es)) < 2 ^ 63" "int (length (sf_bytes s')) < 2 ^ 63"
    using assms(4) by (auto simp: file_fits_def scannable_def)
  have "es \<noteq> []" using assms(3) by (auto simp: WriteSegment_def)
  note w = WriteSegment_ok [OF fit(1) this assms(2) fit(3) assms(3) fit(4)]
  then obtain suf where suf: "s' = s\<lparr>sf_bytes := sf_bytes s @ suf\<rparr>" by blast
  have "file_ready s'" using assms(1) by (simp add: suf file_ready_def sf_inv_grow)
  moreover have "file_holds b s' m' es'" if "file_holds b s m' es'" for m' es'
    using that seg_holds_append fit(4) by (simp add: suf file_holds_def)
  ultimately show ?thesis using w fit(2) by (simp add: file_holds_def)
qed


lemma parse_frame_oversize:
  assumes "length (Key e) < 2 ^ 32" "length (slice_bytes (Value e)) < 2 ^ 32" "\<not> readable e"
  shows "parse_frame (kv_frame e @ rest) = Oversize"
proof -
  have frame: "kv_frame e @ rest =
    put_u32 (u32_len (Key e)) @ (put_u32 (u32_len (slice_bytes (Value e))) @
      ([if Tombstone e then 1 else 0] @ (Key e @ slice_bytes (Value e) @ rest)))"
    by (simp add: kv_frame_def frame_def frame_header_def)
  have lim: "1024 * 1024 < length (Key e) \<or> 10 * 1024 * 1024 < length (slice_bytes (Value e))"
    using assms(3) by (auto simp: readable_def)
  show ?thesis
    unfolding parse_frame_def frame
    using lim assms(1,2) by (simp add: bin_read_append bin_read_1 Let_def unat_u32_len)
qed

lemma scan_loop_oversize:
  assumes "\<forall>x \<in> set pre. readable x" "length (Key e) < 2 ^ 32" "length (slice_bytes (Value e)) < 2 ^ 32"
    "\<not> readable e"
  shows "scan_loop (frames (pre @ e # es)) acc = Inl InvalidLengths"
  using assms(1)
proof (induction pre arbitrary: acc)
  case Nil
  then show ?case by (subst scan_loop.simps) (simp add: parse_frame_oversize [OF assms(2-4)])
next
  case (Cons x pre)
  have "Key x @ slice_bytes (Value x) @ frames (pre @ e # es) \<noteq> []" by simp
  then show ?case
    using Cons parse_frame_kv [of x "frames (pre @ e # es)"] by (subst scan_loop.simps) simp
qed

text \<open>A small file with two segments, the second of which overwrites a key of the first.\<close>

definition sample_b :: sparse_builder where
  "sample_b = NewBuilder 2"

definition old_run :: "kv_entry list" where
  "old_run = [live_entry [5] (Some [1]), live_entry [7] (Some [3])]"

definition new_run :: "kv_entry list" where
  "new_run = [live_entry [5] (Some [2])]"

definition written ::
  "((io_error + segment_meta option) \<times> segfile \<times> counters) option \<Rightarrow> segment_meta option \<times> segfile" where
  "written r = (case r of Some (Inr m, s, g) \<Rightarrow> (m, s) | _ \<Rightarrow> (None, fresh_file []))"

definition stage1 :: "segment_meta option \<times> segfile" where
  "stage1 = written (WriteSegment sample_b all_done [1] 10 old_run TIERED 0 (fresh_file []) zero_counters)"

definition stage2 :: "segment_meta option \<times> segfile" where
  "stage2 = written (WriteSegment sample_b all_done [2] 20 new_run TIERED 0 (snd stage1) zero_counters)"

definition old_meta :: segment_meta where
  "old_meta = the (fst stage1)"

definition new_meta :: segment_meta where
  "new_meta = the (fst stage2)"

definition sample_file :: segfile where
  "sample_file = snd stage2"

lemma write_old:
  "WriteSegment sample_b all_done [1] 10 old_run TIERED 0 (fresh_file []) zero_counters =
     Some (Inr (Some old_meta), snd stage1, zero_counters\<lparr>GlobalPhysicalWriteBytes := 67\<rparr>)"
  by code_simp

lemma write_new:
  "WriteSegment sample_b all_done [2] 20 new_run TIERED 0 (snd stage1) zero_counters =
     Some (Inr (Some new_meta), sample_file, zero_counters\<lparr>GlobalPhysicalWriteBytes := 56\<rparr>)"
  by code_simp

lemma sample_sizes: "length (sf_bytes (snd stage1)) = 67" "length (sf_bytes sample_file) = 123"
  by code_simp+

lemma sample_runs: "sorted_run old_run" "sorted_run new_run" "old_run \<noteq> []" "new_run \<noteq> []"
  by (simp_all add: old_run_def new_run_def)

lemma sample_scannable: "scannable old_run" "scannable new_run"
  by (simp_all add: scannable_def parsable_def readable_def lone_empty_def old_run_def new_run_def
      kv_frame_def frame_length)

lemma sample_fits1: "file_fits sample_b old_run (snd stage1)"
  by (simp add: file_fits_def sample_scannable sample_sizes sample_b_def NewBuilder_stride)

lemma sample_fits2: "file_fits sample_b new_run sample_file"
  by (simp add: file_fits_def sample_scannable sample_sizes sample_b_def NewBuilder_stride)

lemma fresh_file_ready: "file_ready (fresh_file existing)"
  by (simp add: file_ready_def fresh_file_inv)

lemma stage1_ready: "file_ready (snd stage1)"
  using file_write_ok [OF fresh_file_ready sample_runs(1) write_old sample_fits1] by simp

lemma sample_holds:
  "file_ready sample_file" "file_holds sample_b sample_file old_meta old_run"
  "file_holds sample_b sample_file new_meta new_run" "\<not> obsolete old_meta" "\<not> obsolete new_meta"
  using file_write_ok [OF fresh_file_ready sample_runs(1) write_old sample_fits1]
    file_write_ok [OF stage1_ready sample_runs(2) write_new sample_fits2] by simp_all

lemma write_appends:
  assumes "WriteSegment b os uid now es strategy level s g = Some (r, s', g')"
  shows "\<exists>suf. s' = s\<lparr>sf_bytes := sf_bytes s @ suf\<rparr>"
proof -
  consider e where "r = Inl e" | "r = Inr None" | m where "r = Inr (Some m)"
    by (metis sum.exhaust option.exhaust)
  then show ?thesis
  proof cases
    case 1
    then show ?thesis using WriteSegment_error [of b os uid now es strategy level s g] assms by fastforce
  next
    case 2
    then have "s' = s\<lparr>sf_bytes := sf_bytes s @ []\<rparr>"
      using WriteSegment_result [of b os uid now es strategy level s g s' g'] assms by simp
    then show ?thesis by blast
  next
    case (3 m)
    then show ?thesis
      using assms Append_ok(1)
      by (fastforce simp: WriteSegment_def Let_def split: option.splits prod.splits sum.splits if_splits)
  qed
qed

text \<open>A written segment stays, whatever is appended or mapped later.\<close>

lemma written_later:
  assumes "file_ready s" "sorted_run es" "file_fits b es s2"
    "WriteSegment b os uid now es strategy level s g = Some (Inr (Some m), s1, g1)"
    "s2 = fold sf.store_step later s1" "\<not> sf_closed s2"
  shows "file_holds b s2 m es \<and> file_ready s2 \<and> \<not> obsolete m"
proof -
  obtain suf where suf: "sf_bytes s2 = sf_bytes s1 @ suf" and inv2: "sf_inv s2"
  proof -
    have "sf_inv s1"
      using write_appends [OF assms(4)] assms(1) by (auto simp: file_ready_def sf_inv_grow)
    from sf.store_run_grows [OF this, of later] show thesis using that assms(5) by blast
  qed
  have fit: "file_fits b es s1" using assms(3) suf by (auto simp: file_fits_def)
  note w = file_write_ok [OF assms(1,2,4) fit]
  have "file_holds b s2 m es"
    using w assms(3) seg_holds_append [of b "sf_bytes s1" m es suf]
    by (simp add: file_holds_def file_fits_def suf)
  then show ?thesis using inv2 assms(6) w by (simp add: file_ready_def)
qed

section \<open>Properties\<close>

text \<open>The writer never panics on a run of bounded size, and either fails with only additions at
  the end of the file, or appends one segment: the metadata it returns describes its place, its
  key range, its level and its sparse index, and the frames of the run are in the file between
  the two offsets, while every segment written before stays readable.\<close>

theorem write_segment_appends_run:
  assumes "0 < stride b" "es \<noteq> []" "sorted_run es" "int (length (frames es)) < 2 ^ 63"
  shows "\<exists>r s' g'. WriteSegment b os uid now es strategy level s g = Some (r, s', g') \<and>
    (\<exists>suf. s' = s\<lparr>sf_bytes := sf_bytes s @ suf\<rparr>) \<and> r \<noteq> Inr None \<and>
    (\<forall>m. r = Inr (Some m) \<longrightarrow> int (length (sf_bytes s')) < 2 ^ 63 \<longrightarrow>
       seg_holds b (sf_bytes s') m es \<and> ID m = uid \<and> Level m = level \<and> Strategy m = strategy \<and>
       CreatedAt m = now \<and> lastRewriteAt m = now \<and> \<not> obsolete m \<and> \<not> InCompaction m \<and>
       Offset m = sf_size s \<and> Offset m + Length m = sf_size s' \<and>
       (\<forall>m' es'. seg_holds b (sf_bytes s) m' es' \<longrightarrow> seg_holds b (sf_bytes s') m' es'))"
proof -
  obtain r s' g' where w: "WriteSegment b os uid now es strategy level s g = Some (r, s', g')"
    using WriteSegment_total [OF assms(1,4), of os uid now strategy level s g] by auto
  note suf = write_appends [OF w]
  have nn: "r \<noteq> Inr None" using WriteSegment_result w assms(2) by blast
  have "seg_holds b (sf_bytes s') m' es'"
    if "seg_holds b (sf_bytes s) m' es'" "int (length (sf_bytes s')) < 2 ^ 63" for m' es'
    using that suf seg_holds_append by fastforce
  then show ?thesis using w suf nn WriteSegment_ok [OF assms(1-4)] by blast
qed

lemma write_segment_appends_run_witness:
  "seg_holds sample_b (sf_bytes sample_file) new_meta new_run \<and> Offset new_meta = 67 \<and> Length new_meta = 56"
proof -
  have "0 < stride sample_b" by (simp add: sample_b_def NewBuilder_stride)
  moreover have "int (length (frames new_run)) < 2 ^ 63"
    by (simp add: new_run_def kv_frame_def frame_length)
  ultimately show ?thesis
    using write_segment_appends_run [of sample_b new_run all_done "[2]" 20 TIERED 0 "snd stage1" zero_counters]
    by (simp add: sample_runs write_new sample_sizes sf_size_def)
qed

text \<open>C1: A lookup in a segment finds what was written: after the writer has written a run, and
  whatever is appended or mapped afterwards, \<^verbatim>\<open>Get\<close> on the metadata it returned gives for every
  key the entry of the run, a miss for a key that is absent or deleted, and nil for an empty
  value; it changes nothing of the metadata but the count of comparisons.\<close>

theorem get_finds_what_was_written:
  assumes "file_ready s" "sorted_run es" "file_fits b es s2"
    "WriteSegment b os uid now es strategy level s g = Some (Inr (Some m), s1, g1)"
    "s2 = fold sf.store_step later s1" "\<not> sf_closed s2"
  shows "\<exists>n s3 g3. reader_Get all_done (Some m) key s2 g2 =
    Some (entry_result (run_map es key), Some (m\<lparr>TotalComparisons := n\<rparr>), s3, g3)"
  using written_later [OF assms] sst.get_ok by blast

lemma get_finds_what_was_written_witness:
  "\<exists>n s3 g3. reader_Get all_done (Some old_meta) [5] (fold sf.store_step [DoMap all_done] (snd stage1)) zero_counters =
     Some ((Some [1], True), Some (old_meta\<lparr>TotalComparisons := n\<rparr>), s3, g3)"
proof -
  let ?s2 = "fold sf.store_step [DoMap all_done] (snd stage1)"
  have "file_fits sample_b old_run ?s2" "\<not> sf_closed ?s2"
    using sample_fits1 sf.mmap_keeps [of "snd stage1" all_done] stage1_ready
      mmap_bytes_closed [OF prod.collapse [symmetric], of all_done "snd stage1"]
    by (auto simp: file_fits_def file_ready_def)
  then show ?thesis
    using get_finds_what_was_written [OF fresh_file_ready sample_runs(1) _ write_old refl, of "[DoMap all_done]" "[5]" zero_counters]
    by (simp add: old_run_def entry_result_def nonempty_def)
qed

text \<open>C20: Scanning a segment right after it was written returns every key of the run once, with its
  value, and nil for a deleted key; an empty value becomes nil as well and is then no longer
  distinguishable from a deletion.\<close>

theorem scan_returns_what_was_written:
  assumes "file_ready s" "sorted_run es" "file_fits b es s1"
    "WriteSegment b os uid now es strategy level s g = Some (Inr (Some m), s1, g1)"
  shows "\<exists>r s2. reader_Scan all_done all_done (Some m) s1 = (Inr r, s2) \<and> distinct (map fst r) \<and>
    map_of r = (\<lambda>k. map_option
      (\<lambda>e. if Tombstone e \<or> slice_bytes (Value e) = [] then None else Some (slice_bytes (Value e))) (run_map es k))"
proof -
  note w = file_write_ok [OF assms(1,2,4,3)]
  obtain r s2 where "reader_Scan all_done all_done (Some m) s1 = (Inr r, s2)"
    "map_of r = scan_view es" "distinct (map fst r)"
    using sst.scan_ok [of s1 b m es] w by blast
  moreover have "scan_view es = (\<lambda>k. map_option
      (\<lambda>e. if Tombstone e \<or> slice_bytes (Value e) = [] then None else Some (slice_bytes (Value e))) (run_map es k))"
    unfolding scan_view_def scan_value_def nonempty_def fun_eq_iff
    by (intro allI option.map_cong) auto
  ultimately show ?thesis by auto
qed

lemma scan_returns_what_was_written_witness:
  "\<exists>r s2. reader_Scan all_done all_done (Some old_meta) (snd stage1) = (Inr r, s2) \<and> map_of r [7] = Some (Some [3])"
  using scan_returns_what_was_written [OF fresh_file_ready sample_runs(1) sample_fits1 write_old]
  by (auto simp: old_run_def)

text \<open>The writer accepts entries that the reader refuses: a key of more than 1 MiB or a value of
  more than 10 MiB is framed like any other, but a lookup that meets it reports a miss, for its
  own key too, and a scan of its segment fails as a whole.\<close>

theorem oversized_entry_unreadable:
  assumes "length k < 2 ^ 32" "length v < 2 ^ 32" "1024 * 1024 < length k \<or> 10 * 1024 * 1024 < length v"
    "\<forall>x \<in> set pre. readable x"
  shows "fst (get_loop target (frames (live_entry k (Some v) # es)) c) = (None, False) \<and>
    scan_loop (frames (pre @ live_entry k (Some v) # es)) [] = Inl InvalidLengths"
proof -
  let ?e = "live_entry k (Some v)"
  have big: "length (Key ?e) < 2 ^ 32" "length (slice_bytes (Value ?e)) < 2 ^ 32" "\<not> readable ?e"
    using assms(1-3) by (auto simp: readable_def slice_bytes_def)
  have "fst (get_loop target (frames (?e # es)) c) = (None, False)"
    by (subst get_loop.simps) (simp add: parse_frame_oversize [OF big] Let_def)
  then show ?thesis using scan_loop_oversize [OF assms(4) big] by simp
qed

lemma oversized_entry_unreadable_witness:
  "scan_loop (frames (old_run @ live_entry [9] (Some (replicate (10 * 1024 * 1024 + 1) 0)) # [])) [] =
     Inl InvalidLengths"
proof -
  have "\<forall>x \<in> set old_run. readable x" by (simp add: old_run_def readable_def)
  then show ?thesis
    using oversized_entry_unreadable [of "[9]" "replicate (10 * 1024 * 1024 + 1) 0" old_run "[9]" "[]" 0]
    unfolding length_replicate by simp
qed

end
