(* ===== verification/Read_Handler.thy ===== *)
theory Read_Handler
  imports Memtable Metadata Sstable_Reader
begin

text \<open>
  \<^verbatim>\<open>internal/read/read.go\<close>: a lookup asks the memtable and then the candidate segments in the
  tracker's order, and stops at the first hit. As in the Go code the reader is an interface, so
  the loop takes its \<^verbatim>\<open>Get\<close> as an argument, and its lemmas are proved from the contract
  \<open>segment_reader\<close> alone.
\<close>

type_synonym 's get_op =
  "segment_meta option \<Rightarrow> gostring \<Rightarrow> 's \<Rightarrow> counters \<Rightarrow>
   ((slice \<times> bool) \<times> segment_meta option \<times> 's \<times> counters) option"

text \<open>A call of \<^verbatim>\<open>Get\<close> through a pointer writes the segment's comparison count back.\<close>

definition store_back :: "ref \<Rightarrow> segment_meta option \<Rightarrow> store \<Rightarrow> store" where
  "store_back r m' st = (case m' of None \<Rightarrow> st | Some m \<Rightarrow> upd_cell r (\<lambda>_. m) st)"

fun handler_loop ::
  "'s get_op \<Rightarrow> gostring \<Rightarrow> ref list \<Rightarrow> store \<times> tracker \<Rightarrow> 's \<Rightarrow> counters \<Rightarrow>
   ((slice \<times> bool) \<times> (store \<times> tracker) \<times> 's \<times> counters) option" where
  "handler_loop get key [] stt s g = Some ((None, False), stt, s, g)"
| "handler_loop get key (seg # segs) stt s g =
     (case get (Some (cells (fst stt) seg)) key s g of
        None \<Rightarrow> None
      | Some ((val, ok), m', s', g') \<Rightarrow>
          let st1 = store_back seg m' (fst stt);
              stt' = UpdateStats (ID (cells st1 seg)) 1 0 (st1, snd stt)
          in if ok then Some ((val, True), stt', s', g')
             else handler_loop get key segs stt' s' g')"

definition handler_Get ::
  "runtime \<Rightarrow> 's get_op \<Rightarrow> gostring \<Rightarrow> memtable \<Rightarrow> store \<times> tracker \<Rightarrow> 's \<Rightarrow> counters \<Rightarrow>
   ((slice \<times> bool) \<times> (store \<times> tracker) \<times> 's \<times> counters) option" where
  "handler_Get rt get key mem stt s g =
     (case Get key mem of
        (val, True) \<Rightarrow> Some ((val, True), stt, s, g)
      | (val, False) \<Rightarrow> handler_loop get key (GetSegmentsForKey rt key stt) stt s g)"

section \<open>What a read leaves unchanged\<close>

definition no_stats :: "segment_meta \<Rightarrow> segment_meta" where
  "no_stats m = m\<lparr>TotalComparisons := 0, readCount := 0, writeCount := 0\<rparr>"

definition stats_only :: "segment_meta \<Rightarrow> segment_meta \<Rightarrow> bool" where
  "stats_only m m' \<longleftrightarrow> no_stats m' = no_stats m"

definition stats_step :: "store \<times> tracker \<Rightarrow> store \<times> tracker \<Rightarrow> bool" where
  "stats_step stt stt' \<longleftrightarrow>
     snd stt' = snd stt \<and> fresh (fst stt') = fresh (fst stt) \<and>
     (\<forall>r. stats_only (cells (fst stt) r) (cells (fst stt') r))"

lemma stats_only_refl [simp]: "stats_only m m"
  by (simp add: stats_only_def)

lemma stats_only_trans: "stats_only a b \<Longrightarrow> stats_only b c \<Longrightarrow> stats_only a c"
  by (simp add: stats_only_def)

lemma no_stats_fields [simp]:
  "obsolete (no_stats m) = obsolete m" "ID (no_stats m) = ID m" "Level (no_stats m) = Level m"
  "CreatedAt (no_stats m) = CreatedAt m" "MinKey (no_stats m) = MinKey m"
  "MaxKey (no_stats m) = MaxKey m" "InCompaction (no_stats m) = InCompaction m"
  "Offset (no_stats m) = Offset m" "Length (no_stats m) = Length m"
  by (simp_all add: no_stats_def)

lemma stats_only_same:
  assumes "stats_only m m'"
  shows "obsolete m' = obsolete m" "ID m' = ID m" "Level m' = Level m" "CreatedAt m' = CreatedAt m"
    "MinKey m' = MinKey m" "MaxKey m' = MaxKey m" "InCompaction m' = InCompaction m"
    "Offset m' = Offset m" "Length m' = Length m"
  using assms [unfolded stats_only_def] by (metis no_stats_fields)+

lemma stats_only_updates [simp]:
  "stats_only m (m\<lparr>TotalComparisons := n\<rparr>)" "stats_only m (AddReads n m)" "stats_only m (AddWrites n m)"
  by (simp_all add: stats_only_def no_stats_def AddReads_def AddWrites_def)

lemma stats_step_refl [simp]: "stats_step stt stt"
  by (simp add: stats_step_def)

lemma stats_step_trans: "stats_step a b \<Longrightarrow> stats_step b c \<Longrightarrow> stats_step a c"
  unfolding stats_step_def by (auto intro: stats_only_trans)

lemma stats_step_upd_cell: "stats_only (cells st r) m \<Longrightarrow> stats_step (st, t) (upd_cell r (\<lambda>_. m) st, t)"
  by (simp add: stats_step_def)

lemma stats_step_UpdateStats: "stats_step stt (UpdateStats k rd wr stt)"
  by (auto simp: stats_step_def UpdateStats_def split: prod.splits option.splits
      intro: stats_only_trans [OF stats_only_updates(2,3)])

section \<open>The loop returns the first live entry\<close>

fun first_live :: "kv_entry option list \<Rightarrow> slice \<times> bool" where
  "first_live [] = (None, False)"
| "first_live (r # rs) = (if snd (entry_result r) then entry_result r else first_live rs)"

lemma entry_result_miss: "\<not> snd (entry_result r) \<Longrightarrow> entry_result r = (None, False)"
  by (auto simp: entry_result_def split: option.splits if_splits)

context segment_reader
begin

lemma holds_stats:
  assumes "stats_only m m'"
  shows "holds s m' es = holds s m es"
proof -
  have "holds s (no_stats x) es = holds s x es" for x
    unfolding no_stats_def by (simp only: holds_frame)
  then show ?thesis using assms unfolding stats_only_def by metis
qed

lemma handler_loop_first_live:
  assumes "ready s" "\<forall>r \<in> set segs. holds s (cells (fst stt) r) (runs r) \<and> \<not> obsolete (cells (fst stt) r)"
  shows "\<exists>stt' s' g'. handler_loop get key segs stt s g =
      Some (first_live (map (\<lambda>r. run_map (runs r) key) segs), stt', s', g') \<and>
      stats_step stt stt' \<and> ready s' \<and> (\<forall>m es. holds s' m es = holds s m es)"
  using assms
proof (induction segs arbitrary: stt s g)
  case (Cons seg segs)
  let ?m = "cells (fst stt) seg"
  obtain n s1 g1 where get: "get (Some ?m) key s g =
      Some (entry_result (run_map (runs seg) key), Some (?m\<lparr>TotalComparisons := n\<rparr>), s1, g1)"
    and s1: "ready s1" "\<And>m es. holds s1 m es = holds s m es"
    using get_ok [of s ?m "runs seg" key g] Cons.prems by auto
  define stt1 where "stt1 = UpdateStats (ID ?m) 1 0
      (upd_cell seg (\<lambda>_. ?m\<lparr>TotalComparisons := n\<rparr>) (fst stt), snd stt)"
  have "stats_step (fst stt, snd stt) (upd_cell seg (\<lambda>_. ?m\<lparr>TotalComparisons := n\<rparr>) (fst stt), snd stt)"
    by (intro stats_step_upd_cell) simp
  then have stt1: "stats_step stt stt1"
    unfolding stt1_def using stats_step_UpdateStats stats_step_trans by (metis prod.collapse)
  have step: "handler_loop get key (seg # segs) stt s g =
    (if snd (entry_result (run_map (runs seg) key))
     then Some (entry_result (run_map (runs seg) key), stt1, s1, g1)
     else handler_loop get key segs stt1 s1 g1)"
    by (cases "entry_result (run_map (runs seg) key)") (auto simp: get store_back_def stt1_def Let_def)
  show ?case
  proof (cases "snd (entry_result (run_map (runs seg) key))")
    case True
    then have "handler_loop get key (seg # segs) stt s g =
      Some (first_live (map (\<lambda>r. run_map (runs r) key) (seg # segs)), stt1, s1, g1)"
      unfolding step by simp
    then show ?thesis using stt1 s1 by blast
  next
    case False
    have "\<forall>r \<in> set segs. holds s1 (cells (fst stt1) r) (runs r) \<and> \<not> obsolete (cells (fst stt1) r)"
    proof
      fix r assume r: "r \<in> set segs"
      have so: "stats_only (cells (fst stt) r) (cells (fst stt1) r)"
        using stt1 by (simp add: stats_step_def)
      show "holds s1 (cells (fst stt1) r) (runs r) \<and> \<not> obsolete (cells (fst stt1) r)"
        using Cons.prems(2) r by (simp add: s1(2) holds_stats [OF so] stats_only_same(1) [OF so])
    qed
    from Cons.IH [OF s1(1) this, of g1] obtain stt2 s2 g2 where IH:
      "handler_loop get key segs stt1 s1 g1 =
         Some (first_live (map (\<lambda>r. run_map (runs r) key) segs), stt2, s2, g2)"
      "stats_step stt1 stt2" "ready s2" "\<And>m es. holds s2 m es = holds s1 m es" by blast
    have "stats_step stt stt2" using stt1 IH(2) by (rule stats_step_trans)
    moreover have "handler_loop get key (seg # segs) stt s g =
      Some (first_live (map (\<lambda>r. run_map (runs r) key) (seg # segs)), stt2, s2, g2)"
      unfolding step using False IH(1) by simp
    ultimately show ?thesis using IH(3,4) s1(2) by blast
  qed
qed simp

end

text \<open>
  The segment whose live entry comes first in the tracker's order decides, whichever way the
  runtime breaks ties elsewhere.
\<close>

lemma first_live_unique:
  assumes "r \<in> set segs" "distinct segs" "snd (entry_result (f r))"
    and "sorted_wrt (\<lambda>i j. \<not> seg_less st j i) segs"
    and "\<forall>r' \<in> set segs. r' \<noteq> r \<longrightarrow> snd (entry_result (f r')) \<longrightarrow> seg_less st r r'"
  shows "first_live (map f segs) = entry_result (f r)"
  using assms by (induction segs) auto

lemma first_live_none:
  "\<forall>r \<in> set segs. \<not> snd (entry_result (f r)) \<Longrightarrow> first_live (map f segs) = (None, False)"
  by (induction segs) auto

section \<open>Reads from the data file\<close>

text \<open>Every live tracked segment whose range has the key is in the file, with the contents \<open>runs\<close>.\<close>

definition file_state ::
  "sparse_builder \<Rightarrow> (ref \<Rightarrow> kv_entry list) \<Rightarrow> store \<times> tracker \<Rightarrow> segfile \<Rightarrow> bool" where
  "file_state b runs stt s \<longleftrightarrow> tracker_inv stt \<and> file_ready s \<and>
     (\<forall>r \<in> set (ordered (snd stt)). \<not> obsolete (cells (fst stt) r) \<longrightarrow>
        file_holds b s (cells (fst stt) r) (runs r))"

lemma handler_Get_miss:
  assumes "go_runtime rt" "file_state b runs (st, t) s" "\<not> snd (Get key mem)"
  shows "\<exists>stt' s' g'. handler_Get rt (reader_Get all_done) key mem (st, t) s g =
    Some (first_live (map (\<lambda>r. run_map (runs r) key) (GetSegmentsForKey rt key (st, t))), stt', s', g') \<and>
    stats_step (st, t) stt'"
proof -
  have "\<forall>r \<in> set (GetSegmentsForKey rt key (st, t)).
      file_holds b s (cells (fst (st, t)) r) (runs r) \<and> \<not> obsolete (cells (fst (st, t)) r)"
    using assms(2) by (auto simp: go_runtime.GetSegmentsForKey_set [OF assms(1)] file_state_def)
  moreover have "file_ready s" using assms(2) by (simp add: file_state_def)
  moreover have "handler_Get rt (reader_Get all_done) key mem (st, t) s g =
      handler_loop (reader_Get all_done) key (GetSegmentsForKey rt key (st, t)) (st, t) s g"
    using assms(3) by (auto simp: handler_Get_def split: prod.split)
  ultimately show ?thesis
    using sst.handler_loop_first_live [of s "GetSegmentsForKey rt key (st, t)" b "(st, t)" runs key g] by auto
qed

lemma newest_live:
  assumes "go_runtime rt" "file_state b runs (st, t) s"
    "r \<in> set (ordered t)" "\<not> obsolete (cells st r)" "run_map (runs r) key = Some e" "\<not> Tombstone e"
    "\<forall>r' \<in> set (ordered t). r' \<noteq> r \<longrightarrow> \<not> obsolete (cells st r') \<longrightarrow>
       (\<exists>e'. run_map (runs r') key = Some e' \<and> \<not> Tombstone e') \<longrightarrow> seg_less st r r'"
  shows "first_live (map (\<lambda>r. run_map (runs r) key) (GetSegmentsForKey rt key (st, t))) =
    (nonempty (slice_bytes (Value e)), True)"
proof -
  let ?segs = "GetSegmentsForKey rt key (st, t)" and ?f = "\<lambda>r. run_map (runs r) key"
  have holds: "file_holds b s (cells st r) (runs r)"
    using assms(2,3,4) by (auto simp: file_state_def)
  then have "in_key_range key (cells st r)"
    using out_of_range_None [of "runs r" key] assms(5)
    by (fastforce simp: file_holds_def seg_holds_def in_key_range_def not_less [symmetric])
  then have mem: "r \<in> set ?segs"
    using assms(3,4) by (simp add: go_runtime.GetSegmentsForKey_set [OF assms(1)])
  have dist: "distinct ?segs"
    using assms(2) by (intro go_runtime.GetSegmentsForKey_distinct [OF assms(1)]) (auto simp: file_state_def tracker_inv_def)
  have res: "entry_result (?f r) = (nonempty (slice_bytes (Value e)), True)"
    using assms(5,6) by (simp add: entry_result_def)
  have "\<forall>r' \<in> set ?segs. r' \<noteq> r \<longrightarrow> snd (entry_result (?f r')) \<longrightarrow> seg_less st r r'"
    using assms(7) by (auto simp: go_runtime.GetSegmentsForKey_set [OF assms(1)] entry_result_def
        split: option.splits if_splits)
  then show ?thesis
    using first_live_unique [OF mem dist, of ?f st] res go_runtime.GetSegmentsForKey_sorted [OF assms(1), of st key t]
    by simp
qed

text \<open>A state over the sample file; \<open>c\<close> is the creation time of the newer segment.\<close>

definition two_store :: "int \<Rightarrow> store" where
  "two_store c = \<lparr>cells = (\<lambda>_. zero_meta)(2 := old_meta, 3 := new_meta\<lparr>CreatedAt := c\<rparr>), fresh = 4\<rparr>"

definition two_tracker :: tracker where
  "two_tracker = \<lparr>segments = [([1], 2), ([2], 3)], ordered = [3, 2]\<rparr>"

definition two_runs :: "ref \<Rightarrow> kv_entry list" where
  "two_runs r = (if r = 2 then old_run else new_run)"

lemma sample_meta_fields:
  "ID old_meta = [1]" "Level old_meta = 0" "CreatedAt old_meta = 10" "MinKey old_meta = [5]" "MaxKey old_meta = [7]"
  "ID new_meta = [2]" "Level new_meta = 0" "CreatedAt new_meta = 20" "MinKey new_meta = [5]" "MaxKey new_meta = [5]"
  "Offset old_meta = 0" "Length old_meta = 67" "Offset new_meta = 67" "Length new_meta = 56"
  "Strategy old_meta = TIERED" "Strategy new_meta = TIERED"
  by code_simp+

lemma two_store_simps [simp]:
  "cells (two_store c) 2 = old_meta" "cells (two_store c) 3 = new_meta\<lparr>CreatedAt := c\<rparr>"
  "fresh (two_store c) = 4" "segments two_tracker = [([1], 2), ([2], 3)]" "ordered two_tracker = [3, 2]"
  by (simp_all add: two_store_def two_tracker_def)

lemma two_segments_state: "file_state sample_b two_runs (two_store c, two_tracker) sample_file"
proof -
  have "file_holds sample_b sample_file (new_meta\<lparr>CreatedAt := c\<rparr>) new_run"
    using sample_holds(3) by (simp add: file_holds_def seg_holds_def)
  then show ?thesis
    using sample_holds by (auto simp: file_state_def tracker_inv_def two_runs_def sample_meta_fields)
qed

section \<open>Properties\<close>

text \<open>C4: A read that the memtable does not answer returns the value of the newest segment that has a
  live entry for the key: whenever one live segment precedes, by level and then by creation
  time, every other that has a live entry for the key, its value is the result, whatever the
  runtime does with ties, and nothing but statistics changes.\<close>

theorem read_returns_newest_live_entry:
  assumes "go_runtime rt" "file_state b runs (st, t) s" "\<not> snd (Get key mem)"
    "r \<in> set (ordered t)" "\<not> obsolete (cells st r)" "run_map (runs r) key = Some e" "\<not> Tombstone e"
    "\<forall>r' \<in> set (ordered t). r' \<noteq> r \<longrightarrow> \<not> obsolete (cells st r') \<longrightarrow>
       (\<exists>e'. run_map (runs r') key = Some e' \<and> \<not> Tombstone e') \<longrightarrow> seg_less st r r'"
  shows "\<exists>stt' s' g'. handler_Get rt (reader_Get all_done) key mem (st, t) s g =
    Some ((nonempty (slice_bytes (Value e)), True), stt', s', g') \<and> stats_step (st, t) stt'"
  using handler_Get_miss [OF assms(1-3), of g] newest_live [OF assms(1,2,4-8)] by simp

lemma read_returns_newest_live_entry_witness:
  "\<exists>stt' s' g'. handler_Get backward_runtime (reader_Get all_done) [5] (NewMemtable 8) (two_store 20, two_tracker)
     sample_file zero_counters = Some ((Some [2], True), stt', s', g')"
proof -
  have "\<exists>stt' s' g'. handler_Get backward_runtime (reader_Get all_done) [5] (NewMemtable 8)
     (two_store 20, two_tracker)
     sample_file zero_counters = Some ((nonempty (slice_bytes (Value (live_entry [5] (Some [2])))), True), stt', s', g') \<and>
     stats_step (two_store 20, two_tracker) stt'"
    by (rule read_returns_newest_live_entry [OF backward_rt.go_runtime_axioms two_segments_state, where r = 3])
      (simp_all add: Get_run_map two_runs_def new_run_def sample_holds seg_less_def sample_meta_fields)
  then show ?thesis by (auto simp: nonempty_def)
qed

text \<open>C38: A deletion does not hide older values: after the key was deleted in the memtable, the read
  still returns the live entry that the newest segment has for it, so that deleted keys come
  back.\<close>

theorem deleted_key_comes_back:
  assumes "go_runtime rt" "file_state b runs (st, t) s" "mem_inv mem"
    "r \<in> set (ordered t)" "\<not> obsolete (cells st r)" "run_map (runs r) key = Some e" "\<not> Tombstone e"
    "\<forall>r' \<in> set (ordered t). \<not> obsolete (cells st r') \<longrightarrow> r' \<noteq> r \<longrightarrow> run_map (runs r') key = None"
  shows "\<exists>stt' s' g'. handler_Get rt (reader_Get all_done) key (Delete key mem) (st, t) s g =
    Some ((nonempty (slice_bytes (Value e)), True), stt', s', g')"
proof -
  have "\<not> snd (Get key (Delete key mem))"
    using assms(3) by (simp add: Get_run_map mem_inv_Delete mem_map_Delete)
  moreover have "\<forall>r' \<in> set (ordered t). r' \<noteq> r \<longrightarrow> \<not> obsolete (cells st r') \<longrightarrow>
       (\<exists>e'. run_map (runs r') key = Some e' \<and> \<not> Tombstone e') \<longrightarrow> seg_less st r r'"
    using assms(8) by auto
  ultimately show ?thesis
    using handler_Get_miss [OF assms(1,2), of key "Delete key mem" g] newest_live [OF assms(1,2,4-7)] by auto
qed

lemma deleted_key_comes_back_witness:
  "\<exists>stt' s' g'. handler_Get short_runtime (reader_Get all_done) [7] (Delete [7] (NewMemtable 8)) (two_store 20, two_tracker)
     sample_file zero_counters = Some ((Some [3], True), stt', s', g')"
proof -
  have "\<exists>stt' s' g'. handler_Get short_runtime (reader_Get all_done) [7] (Delete [7] (NewMemtable 8))
     (two_store 20, two_tracker)
     sample_file zero_counters = Some ((nonempty (slice_bytes (Value (live_entry [7] (Some [3])))), True), stt', s', g')"
    by (rule deleted_key_comes_back [OF short_rt.go_runtime_axioms two_segments_state, where r = 2])
      (simp_all add: two_runs_def old_run_def new_run_def sample_holds)
  then show ?thesis by (simp add: nonempty_def)
qed

text \<open>Another sort that the library allows: elements that are not separated come out reversed.\<close>

definition reversing_runtime :: runtime where
  "reversing_runtime = short_runtime\<lparr>sort_slice := (\<lambda>lt xs. insertion_sort lt (rev xs))\<rparr>"

interpretation reversing_rt: go_runtime reversing_runtime
  by unfold_locales (simp_all add: reversing_runtime_def short_runtime_def mset_insertion_sort insertion_sort_sorted)

text \<open>With two segments of the same second the result of a read is not determined: on one and the
  same state, two runtimes that both keep the documented contract of \<^verbatim>\<open>sort.Slice\<close> return the
  overwritten and the overwriting value.\<close>

theorem same_second_read_ambiguous:
  "go_runtime short_runtime \<and> go_runtime reversing_runtime \<and>
   (\<exists>b runs st t s v w. file_state b runs (st, t) s \<and> v \<noteq> w \<and>
     (\<exists>x. handler_Get short_runtime (reader_Get all_done) [5] (NewMemtable 8) (st, t) s zero_counters = Some ((v, True), x)) \<and>
     (\<exists>x. handler_Get reversing_runtime (reader_Get all_done) [5] (NewMemtable 8) (st, t) s zero_counters = Some ((w, True), x)))"
proof -
  let ?stt = "(two_store 10, two_tracker)"
  have miss: "\<not> snd (Get [5] (NewMemtable 8))" by (simp add: Get_run_map)
  have "GetSegmentsForKey short_runtime [5] ?stt = [3, 2]" "GetSegmentsForKey reversing_runtime [5] ?stt = [2, 3]"
    by (simp_all add: GetSegmentsForKey_def IsObsolete_def in_key_range_def sample_holds sample_meta_fields
        short_runtime_def reversing_runtime_def insertion_sort_def seg_less_def)
  then have "\<exists>x. handler_Get short_runtime (reader_Get all_done) [5] (NewMemtable 8) ?stt sample_file zero_counters
      = Some ((Some [2], True), x)"
    "\<exists>x. handler_Get reversing_runtime (reader_Get all_done) [5] (NewMemtable 8) ?stt sample_file zero_counters
      = Some ((Some [1], True), x)"
    using handler_Get_miss [OF short_rt.go_runtime_axioms two_segments_state miss, of 10 zero_counters]
      handler_Get_miss [OF reversing_rt.go_runtime_axioms two_segments_state miss, of 10 zero_counters]
    by (auto simp: two_runs_def old_run_def new_run_def entry_result_def nonempty_def)
  moreover have "Some [2 :: byte] \<noteq> Some [1]" by simp
  ultimately show ?thesis
    using short_rt.go_runtime_axioms reversing_rt.go_runtime_axioms
    by (intro conjI exI [of _ sample_b] exI [of _ two_runs] exI [of _ "two_store 10"] exI [of _ two_tracker]
        exI [of _ sample_file] exI [of _ "Some [2]"] exI [of _ "Some [1]"] two_segments_state)
qed

end
