(* ===== verification/Executor.thy ===== *)
theory Executor
  imports Director Read_Handler
begin

text \<open>
  \<^verbatim>\<open>internal/compaction/executor.go\<close>: a plan is carried out by scanning its inputs into one map,
  writing the map as a new segment, registering it and marking the inputs obsolete. The reader
  and the writer are interfaces in the Go code: the executor takes \<^verbatim>\<open>Scan\<close> and
  \<^verbatim>\<open>WriteSegment\<close> as arguments, and what is proved of it rests on the contracts
  \<open>segment_reader\<close> and \<open>compaction_io\<close>.
\<close>

type_synonym 's scan_op =
  "segment_meta option \<Rightarrow> 's \<Rightarrow> (scan_error + (gostring \<times> slice) list) \<times> 's"

type_synonym 's write_op =
  "kv_entry list \<Rightarrow> CompactionType \<Rightarrow> int \<Rightarrow> 's \<Rightarrow> counters \<Rightarrow>
   ((io_error + segment_meta option) \<times> 's \<times> counters) option"

datatype exec_error =
  NilInput nat
| ObsoleteInput nat gostring
| InvalidBounds nat gostring int int
| OutputFailed io_error

fun validate :: "store \<Rightarrow> nat \<Rightarrow> ref option list \<Rightarrow> exec_error option" where
  "validate st i [] = None"
| "validate st i (None # rest) = Some (NilInput i)"
| "validate st i (Some seg # rest) =
     (if IsObsolete (cells st seg) then Some (ObsoleteInput i (ID (cells st seg)))
      else if Offset (cells st seg) < 0 \<or> Length (cells st seg) \<le> 0
      then Some (InvalidBounds i (ID (cells st seg)) (Offset (cells st seg)) (Length (cells st seg)))
      else validate st (Suc i) rest)"

text \<open>The loops that set the flag of every input; after the validation none is nil.\<close>

definition set_flags :: "bool \<Rightarrow> ref list \<Rightarrow> store \<Rightarrow> store" where
  "set_flags b rs st = fold (\<lambda>seg. upd_cell seg (\<lambda>m. m\<lparr>InCompaction := b\<rparr>)) rs st"

text \<open>The inner loop: a nil value does not enter the map.\<close>

fun merge_data :: "(gostring \<times> slice) list \<Rightarrow> (gostring \<times> slice) list \<Rightarrow> (gostring \<times> slice) list" where
  "merge_data [] merged = merged"
| "merge_data ((k, v) # rest) merged =
     merge_data rest (if v \<noteq> None then AList.update k v merged else merged)"

fun merge_inputs ::
  "runtime \<Rightarrow> 's scan_op \<Rightarrow> ref list \<Rightarrow> (gostring \<times> slice) list \<Rightarrow> store \<times> tracker \<Rightarrow> 's \<Rightarrow>
   (gostring \<times> slice) list \<times> (store \<times> tracker) \<times> 's" where
  "merge_inputs rt scan [] merged stt s = (merged, stt, s)"
| "merge_inputs rt scan (seg # rest) merged stt s =
     (if IsObsolete (cells (fst stt) seg) \<or> \<not> InCompaction (cells (fst stt) seg)
      then merge_inputs rt scan rest merged stt s
      else (case scan (Some (cells (fst stt) seg)) s of
              (Inl e, s') \<Rightarrow> merge_inputs rt scan rest merged stt s'
            | (Inr dat, s') \<Rightarrow>
                merge_inputs rt scan rest (merge_data (range_slices rt dat) merged)
                  (UpdateStats (ID (cells (fst stt) seg)) 0 1 stt) s'))"

text \<open>\<^verbatim>\<open>merged[k]\<close>: the zero value of a missing key is nil.\<close>

definition slice_at :: "(gostring \<times> slice) list \<Rightarrow> gostring \<Rightarrow> slice" where
  "slice_at merged k = (case map_of merged k of None \<Rightarrow> None | Some v \<Rightarrow> v)"

definition final_entries :: "runtime \<Rightarrow> (gostring \<times> slice) list \<Rightarrow> kv_entry list" where
  "final_entries rt merged =
     (let ks = sort (map fst (range_slices rt merged))
      in map (\<lambda>k. let val = slice_at merged k
                  in \<lparr>Key = k, Value = val, Tombstone = (val = None)\<rparr>) ks)"

definition retire_inputs :: "ref list \<Rightarrow> store \<times> tracker \<Rightarrow> store \<times> tracker" where
  "retire_inputs rs stt =
     fold (\<lambda>seg stt. tracker_MarkObsolete (ID (cells (fst stt) seg)) (upd_cell seg MarkObsolete (fst stt), snd stt))
       rs stt"

text \<open>
  \<open>None\<close> is a panic: one of the writer, or the log line that reads the level of a nil segment.
\<close>

definition Execute ::
  "runtime \<Rightarrow> 's scan_op \<Rightarrow> 's write_op \<Rightarrow> plan \<Rightarrow> store \<times> tracker \<Rightarrow> 's \<Rightarrow> counters \<Rightarrow>
   ((exec_error + ref) \<times> (store \<times> tracker) \<times> 's \<times> counters) option" where
  "Execute rt scan write p stt s g =
     (case validate (fst stt) 0 (Inputs p) of
        Some err \<Rightarrow> Some (Inl err, stt, s, g)
      | None \<Rightarrow>
          let rs = map the (Inputs p);
              unflag = (\<lambda>stt. (set_flags False rs (fst stt), snd stt))
          in (case merge_inputs rt scan rs [] (set_flags True rs (fst stt), snd stt) s of
                (merged, stt1, s1) \<Rightarrow>
                  (case write (final_entries rt merged) (OutputStrategy p) (TargetLevel p) s1 g of
                     None \<Rightarrow> None
                   | Some (Inl err, s2, g2) \<Rightarrow> Some (Inl (OutputFailed err), unflag stt1, s2, g2)
                   | Some (Inr None, s2, g2) \<Rightarrow> None
                   | Some (Inr (Some m), s2, g2) \<Rightarrow>
                       (case alloc m (fst stt1) of
                          (newSeg, st2) \<Rightarrow>
                            let stt3 = RegisterSegment rt newSeg (st2, snd stt1);
                                stt4 = retire_inputs rs stt3
                            in Some (Inr newSeg, unflag stt4, s2, g2)))))"

section \<open>Validation\<close>

definition input_ok :: "store \<Rightarrow> ref option \<Rightarrow> bool" where
  "input_ok st i \<longleftrightarrow> (\<exists>r. i = Some r \<and> \<not> obsolete (cells st r) \<and> 0 \<le> Offset (cells st r) \<and> 0 < Length (cells st r))"

lemma validate_None: "validate st n is = None \<longleftrightarrow> (\<forall>i \<in> set is. input_ok st i)"
  by (induction st n "is" rule: validate.induct) (auto simp: IsObsolete_def input_ok_def)

lemma map_the_Some: "\<forall>i \<in> set is. input_ok st i \<Longrightarrow> map Some (map the is) = is"
  by (induction "is") (auto simp: input_ok_def)

section \<open>The merged map\<close>

lemma merge_data_map:
  "distinct (map fst d) \<Longrightarrow>
   map_of (merge_data d acc) = map_of acc ++ (\<lambda>k. case map_of d k of Some (Some v) \<Rightarrow> Some (Some v) | _ \<Rightarrow> None)"
proof (induction d acc rule: merge_data.induct)
  case (2 k v rest acc)
  have "k \<notin> fst ` set rest" using 2(2) by simp
  then have none: "map_of rest k = None" by (simp add: map_of_eq_None_iff)
  show ?case
    using 2 none by (cases v) (auto simp: fun_eq_iff map_add_def update_conv' split: option.splits)
qed (simp add: map_add_def)

lemma merge_data_distinct: "distinct (map fst acc) \<Longrightarrow> distinct (map fst (merge_data d acc))"
  by (induction d acc rule: merge_data.induct) (auto simp: distinct_update)

text \<open>The value that a list of runs, later ones over earlier ones, gives a key.\<close>

definition live_value :: "kv_entry list \<Rightarrow> gostring \<rightharpoonup> byte list" where
  "live_value es k = (case run_map es k of None \<Rightarrow> None | Some e \<Rightarrow> scan_value e)"

definition merged_values :: "kv_entry list list \<Rightarrow> gostring \<rightharpoonup> byte list" where
  "merged_values runs = foldl (\<lambda>m es. m ++ live_value es) Map.empty runs"

lemma scan_view_live:
  "(case scan_view es k of Some (Some v) \<Rightarrow> Some (Some v) | _ \<Rightarrow> None) = map_option Some (live_value es k)"
  by (auto simp: scan_view_def live_value_def split: option.splits)

definition represents :: "(gostring \<times> slice) list \<Rightarrow> (gostring \<rightharpoonup> byte list) \<Rightarrow> bool" where
  "represents merged m \<longleftrightarrow> distinct (map fst merged) \<and> map_of merged = map_option Some \<circ> m"

lemma represents_merge:
  assumes "represents merged m" "map_of d = scan_view es" "distinct (map fst d)"
  shows "represents (merge_data d merged) (m ++ live_value es)"
proof -
  have "map_of (merge_data d merged) = map_option Some \<circ> (m ++ live_value es)"
    using assms merge_data_map [OF assms(3), of merged]
    by (auto simp: represents_def scan_view_live fun_eq_iff map_add_def split: option.splits)
  then show ?thesis using assms(1) merge_data_distinct by (simp add: represents_def)
qed

section \<open>The state around a merge\<close>

lemma set_flags_cells [simp]:
  "cells (set_flags b rs st) r = (if r \<in> set rs then (cells st r)\<lparr>InCompaction := b\<rparr> else cells st r)"
  "fresh (set_flags b rs st) = fresh st"
  by (induction rs arbitrary: st) (auto simp: set_flags_def)

lemma tracker_inv_cells:
  assumes "tracker_inv (st, t)" "\<And>r. ID (cells st' r) = ID (cells st r)" "fresh st' = fresh st"
  shows "tracker_inv (st', t)"
  using assms by (simp add: tracker_inv_def)

lemma retire_inputs_cells:
  assumes "tracker_inv (st, t)" "set rs \<subseteq> set (ordered t)"
  shows "\<exists>st'. retire_inputs rs (st, t) = (st', t) \<and> fresh st' = fresh st \<and>
    (\<forall>r. cells st' r = (if r \<in> set rs then (cells st r)\<lparr>obsolete := True\<rparr> else cells st r))"
  using assms
proof (induction rs arbitrary: st)
  case (Cons r rs)
  let ?st1 = "upd_cell r MarkObsolete st"
  let ?st2 = "upd_cell r MarkObsolete ?st1"
  have inv: "tracker_inv (?st1, t)" "tracker_inv (?st2, t)"
    using Cons.prems(1) by (auto intro!: tracker_inv_upd_cell simp: MarkObsolete_def)
  have "map_of (segments t) (ID (cells st r)) = Some r"
    using tracker_inv_lookup [OF Cons.prems(1)] Cons.prems(2) by simp
  then have "retire_inputs (r # rs) (st, t) = retire_inputs rs (?st2, t)"
    by (simp add: retire_inputs_def tracker_MarkObsolete_def)
  then show ?case
    using Cons.IH [OF inv(2)] Cons.prems(2) by (force simp: MarkObsolete_def)
qed (simp add: retire_inputs_def)

lemma retire_inputs_ID: "ID (cells (fst (retire_inputs rs stt)) r) = ID (cells (fst stt) r)"
proof (induction rs arbitrary: stt)
  case (Cons x rs)
  have step: "retire_inputs (x # rs) stt = retire_inputs rs
      (tracker_MarkObsolete (ID (cells (fst stt) x)) (upd_cell x MarkObsolete (fst stt), snd stt))"
    by (simp add: retire_inputs_def)
  show ?case
    unfolding step Cons.IH by (auto simp: tracker_MarkObsolete_def MarkObsolete_def split: option.splits)
qed (simp add: retire_inputs_def)

lemma RegisterSegment_ID: "ID (cells (fst (RegisterSegment rt x (st, t))) r) = ID (cells st r)"
  by (simp add: RegisterSegment_def Let_def)

section \<open>What a compaction achieves\<close>

text \<open>
  The contract of \<^verbatim>\<open>SSTableWriter\<close> beside that of the reader. \<open>fits es s\<close> says that the run is
  one the reader can read back and that the state \<open>s\<close> after the write is within bounds.
\<close>

locale compaction_io = go_runtime rt + segment_reader ready holds get scan
  for rt :: runtime
    and ready :: "'s \<Rightarrow> bool"
    and holds :: "'s \<Rightarrow> segment_meta \<Rightarrow> kv_entry list \<Rightarrow> bool"
    and get :: "'s get_op"
    and scan :: "'s scan_op" +
  fixes wr :: "'s write_op"
    and fits :: "kv_entry list \<Rightarrow> 's \<Rightarrow> bool"
  assumes write_ok: "ready s \<Longrightarrow> sorted_run es \<Longrightarrow> wr es strategy level s g = Some (Inr (Some m), s', g') \<Longrightarrow>
      fits es s' \<Longrightarrow>
      holds s' m es \<and> ready s' \<and> (\<forall>m' es'. holds s m' es' \<longrightarrow> holds s' m' es') \<and>
      \<not> obsolete m \<and> \<not> InCompaction m \<and> Level m = level \<and> Strategy m = strategy"
    and write_nil: "wr [] strategy level s g = Some (Inr None, s, g)"
begin

lemma final_entries_run:
  assumes "represents merged m"
  shows "sorted_run (final_entries rt merged)"
    "run_map (final_entries rt merged) k = map_option (\<lambda>v. live_entry k (Some v)) (m k)"
    "final_entries rt merged = [] \<longleftrightarrow> m = Map.empty"
proof -
  let ?ks = "sort (map fst (range_slices rt merged))"
  let ?f = "\<lambda>k. let val = slice_at merged k in \<lparr>Key = k, Value = val, Tombstone = (val = None)\<rparr>"
  have keys: "map Key (final_entries rt merged) = ?ks"
    by (simp add: final_entries_def Let_def comp_def)
  have dist: "distinct (map fst merged)" and map: "map_of merged = map_option Some \<circ> m"
    using assms by (simp_all add: represents_def)
  have "distinct ?ks" using distinct_range_slices [OF dist] by simp
  then show run: "sorted_run (final_entries rt merged)"
    unfolding sorted_run_def keys strict_sorted_iff by simp
  have set: "set ?ks = dom m"
  proof -
    have "set ?ks = dom (map_of merged)" by (simp add: dom_map_of_conv_image_fst)
    then show ?thesis by (simp add: map dom_map_option_comp)
  qed
  show "run_map (final_entries rt merged) k = map_option (\<lambda>v. live_entry k (Some v)) (m k)"
  proof (cases "k \<in> dom m")
    case True
    then have mem: "?f k \<in> set (final_entries rt merged)" unfolding set [symmetric] final_entries_def by simp
    obtain v where "m k = Some v" using True by blast
    then have "slice_at merged k = Some v" by (simp add: slice_at_def map)
    then have "?f k = live_entry k (Some v)" by (simp add: live_entry_def)
    then show ?thesis using run_map_mem [OF run mem] \<open>m k = Some v\<close> by simp
  next
    case False
    then have "k \<notin> Key ` set (final_entries rt merged)" using keys set by (metis set_map)
    then show ?thesis using False dom_run_map by (metis domIff map_option_is_None)
  qed
  show "final_entries rt merged = [] \<longleftrightarrow> m = Map.empty"
    using keys set by (metis dom_eq_empty_conv map_is_Nil_conv set_empty)
qed

lemma merge_inputs_ok:
  assumes "ready s" "represents merged m"
    "\<forall>r \<in> set rs. holds s (cells (fst stt) r) (runs r) \<and> \<not> obsolete (cells (fst stt) r) \<and>
       InCompaction (cells (fst stt) r)"
  shows "\<exists>merged' stt' s'. merge_inputs rt scan rs merged stt s = (merged', stt', s') \<and>
    represents merged' (foldl (\<lambda>m es. m ++ live_value es) m (map runs rs)) \<and>
    stats_step stt stt' \<and> ready s' \<and> (\<forall>m es. holds s' m es = holds s m es)"
  using assms
proof (induction rs arbitrary: merged m stt s)
  case (Cons r rs)
  let ?c = "cells (fst stt) r"
  obtain d s1 where sc: "scan (Some ?c) s = (Inr d, s1)" "map_of d = scan_view (runs r)" "distinct (map fst d)"
    "ready s1" "\<And>m es. holds s1 m es = holds s m es"
    using scan_ok [of s ?c "runs r"] Cons.prems by auto
  let ?stt = "UpdateStats (ID ?c) 0 1 stt"
  let ?merged = "merge_data (range_slices rt d) merged"
  have rep: "represents ?merged (m ++ live_value (runs r))"
    by (rule represents_merge [OF Cons.prems(2)])
      (simp_all add: map_of_range_slices distinct_range_slices sc(2,3))
  have st: "stats_step stt ?stt" by (rule stats_step_UpdateStats)
  have "\<forall>x \<in> set rs. holds s1 (cells (fst ?stt) x) (runs x) \<and> \<not> obsolete (cells (fst ?stt) x) \<and>
       InCompaction (cells (fst ?stt) x)"
  proof
    fix x assume x: "x \<in> set rs"
    have so: "stats_only (cells (fst stt) x) (cells (fst ?stt) x)" using st by (simp add: stats_step_def)
    show "holds s1 (cells (fst ?stt) x) (runs x) \<and> \<not> obsolete (cells (fst ?stt) x) \<and>
       InCompaction (cells (fst ?stt) x)"
      using Cons.prems(3) x unfolding stats_only_same [OF so] sc(5) holds_stats [OF so] by simp
  qed
  from Cons.IH [OF sc(4) rep this] obtain merged' stt' s' where IH:
    "merge_inputs rt scan rs ?merged ?stt s1 = (merged', stt', s')"
    "represents merged' (foldl (\<lambda>m es. m ++ live_value es) (m ++ live_value (runs r)) (map runs rs))"
    "stats_step ?stt stt'" "ready s'" "\<And>m es. holds s' m es = holds s1 m es" by blast
  have "merge_inputs rt scan (r # rs) merged stt s = (merged', stt', s')"
    using Cons.prems(3) by (simp add: IsObsolete_def sc(1) IH(1))
  then show ?case using IH(2,4,5) sc(5) stats_step_trans [OF st IH(3)] by auto
qed simp

text \<open>
  A successful compaction of inputs \<open>rs\<close> with contents \<open>runs\<close>: the new segment holds the merged
  values, the inputs are retired and unflagged, and nothing else changes but statistics.
\<close>

text \<open>What registering the output and retiring the inputs leaves.\<close>

lemma register_retire:
  assumes inv: "tracker_inv (st1, t)" and al: "alloc m st1 = (r, st2)"
    and uid: "\<forall>x \<in> set (ordered t). ID (cells st1 x) \<noteq> ID m" and rs: "set rs \<subseteq> set (ordered t)"
    and fin: "(st', t') = (\<lambda>stt. (set_flags False rs (fst stt), snd stt)) (retire_inputs rs (RegisterSegment rt r (st2, t)))"
  shows "tracker_inv (st', t') \<and> ordered t' = r # ordered t \<and> r = fresh st1 \<and> r \<notin> set (ordered t) \<and>
    (\<exists>n. cells st' r = m\<lparr>OverlapCount := n\<rparr>) \<and>
    (\<forall>x \<in> set rs. obsolete (cells st' x) \<and> \<not> InCompaction (cells st' x)) \<and>
    (\<forall>x. x \<noteq> r \<longrightarrow> x \<notin> set rs \<longrightarrow> cells st' x = cells st1 x)"
proof -
  from RegisterSegment_new [OF inv al uid, of rt] obtain st3 t3 n where
    reg: "RegisterSegment rt r (st2, t) = (st3, t3)" "tracker_inv (st3, t3)" "ordered t3 = r # ordered t"
      "r = fresh st1" "cells st3 r = m\<lparr>OverlapCount := n\<rparr>" "\<And>x. x \<noteq> r \<Longrightarrow> cells st3 x = cells st1 x"
    by auto
  have "set rs \<subseteq> set (ordered t3)" using rs reg(3) by auto
  from retire_inputs_cells [OF reg(2) this] obtain st4 where
    ret: "retire_inputs rs (st3, t3) = (st4, t3)" "fresh st4 = fresh st3"
      "\<And>r. cells st4 r = (if r \<in> set rs then (cells st3 r)\<lparr>obsolete := True\<rparr> else cells st3 r)" by auto
  have eq: "st' = set_flags False rs st4" "t' = t3" using fin by (simp_all add: reg(1) ret(1))
  have "tracker_inv (st', t')"
    unfolding eq by (rule tracker_inv_cells [OF tracker_inv_cells [OF reg(2)]]) (simp_all add: ret)
  moreover have "r \<notin> set (ordered t)" using inv reg(4) by (auto simp: tracker_inv_def)
  moreover from this rs have "r \<notin> set rs" by auto
  moreover from this have "cells st' r = m\<lparr>OverlapCount := n\<rparr>" by (simp add: eq reg(5) ret(3))
  ultimately show ?thesis by (simp add: eq reg(3,4,6) ret(3)) blast
qed

text \<open>The parts of an execution that succeeds: the merge, the write, and the registration.\<close>

lemma Execute_parts:
  assumes "ready s" "Inputs p = map Some rs" "\<forall>r \<in> set rs. holds s (cells st r) (runs r)"
    and ex: "Execute rt scan wr p (st, t) s g = Some (Inr new, (st', t'), s', g')"
    and E: "sorted_run E"
      "\<And>k. run_map E k = map_option (\<lambda>v. live_entry k (Some v)) (merged_values (map runs rs) k)"
  obtains st1 s1 m st2 where "stats_step (set_flags True rs st, t) (st1, t)" "ready s1"
    "\<And>m es. holds s1 m es = holds s m es"
    "wr E (OutputStrategy p) (TargetLevel p) s1 g = Some (Inr (Some m), s', g')" "alloc m st1 = (new, st2)"
    "(st', t') = (\<lambda>stt. (set_flags False rs (fst stt), snd stt)) (retire_inputs rs (RegisterSegment rt new (st2, t)))"
proof -
  let ?st0 = "set_flags True rs st"
  have valid: "validate st 0 (Inputs p) = None"
    using ex by (auto simp: Execute_def split: option.splits)
  then have ok: "\<not> obsolete (cells st r)" if "r \<in> set rs" for r
    using that assms(2) by (auto simp: validate_None input_ok_def)
  have rs: "map the (Inputs p) = rs" by (simp add: assms(2) comp_def)
  have in0: "\<forall>r \<in> set rs. holds s (cells (fst (?st0, t)) r) (runs r) \<and>
      \<not> obsolete (cells (fst (?st0, t)) r) \<and> InCompaction (cells (fst (?st0, t)) r)"
    using assms(3) ok by (simp add: holds_frame)
  have "represents [] Map.empty" by (simp add: represents_def)
  from merge_inputs_ok [OF assms(1) this in0] obtain merged st1 t1 s1 where
    mg: "merge_inputs rt scan rs [] (?st0, t) s = (merged, (st1, t1), s1)"
    and rep: "represents merged (merged_values (map runs rs))"
    and step: "stats_step (?st0, t) (st1, t1)" and s1: "ready s1" "\<And>m es. holds s1 m es = holds s m es"
    unfolding merged_values_def by (metis prod.collapse)
  have t1: "t1 = t" using step by (simp add: stats_step_def)
  let ?E = "final_entries rt merged"
  note fe = final_entries_run [OF rep]
  have "?E = E"
    using fe(1) E(1) by (rule sorted_run_inject) (simp add: fun_eq_iff fe(2) E(2))
  obtain m s2 g2 where w: "wr E (OutputStrategy p) (TargetLevel p) s1 g = Some (Inr (Some m), s2, g2)"
    and res: "Some (Inr new, (st', t'), s', g') =
      (case alloc m st1 of (newSeg, st2) \<Rightarrow>
         Some (Inr newSeg, (\<lambda>stt. (set_flags False rs (fst stt), snd stt))
           (retire_inputs rs (RegisterSegment rt newSeg (st2, t))), s2, g2))"
    using ex unfolding Execute_def fst_conv snd_conv valid option.case Let_def rs mg prod.case \<open>?E = E\<close> t1
    by (auto split: option.splits sum.splits prod.splits)
  obtain r st2 where al: "alloc m st1 = (r, st2)" by fastforce
  show thesis
    by (rule that [of st1 s1 m st2]) (use step s1 w al res in \<open>simp_all add: t1\<close>)
qed

lemma Execute_ok:
  assumes "ready s" "tracker_inv (st, t)" "Inputs p = map Some rs" "set rs \<subseteq> set (ordered t)"
    "\<forall>r \<in> set rs. holds s (cells st r) (runs r)"
    and ex: "Execute rt scan wr p (st, t) s g = Some (Inr new, (st', t'), s', g')"
    and uid: "\<forall>r \<in> set (ordered t). ID (cells st r) \<noteq> ID (cells st' new)"
    and E: "sorted_run E"
      "\<And>k. run_map E k = map_option (\<lambda>v. live_entry k (Some v)) (merged_values (map runs rs) k)" "fits E s'"
  shows "holds s' (cells st' new) E \<and> E \<noteq> [] \<and> ready s' \<and> (\<forall>m es. holds s m es \<longrightarrow> holds s' m es) \<and>
    tracker_inv (st', t') \<and> new = fresh st \<and> ordered t' = new # ordered t \<and>
    \<not> obsolete (cells st' new) \<and> \<not> InCompaction (cells st' new) \<and>
    Level (cells st' new) = TargetLevel p \<and> Strategy (cells st' new) = OutputStrategy p \<and>
    (\<forall>r \<in> set rs. obsolete (cells st' r) \<and> \<not> InCompaction (cells st' r)) \<and>
    (\<forall>r \<in> set (ordered t) - set rs. stats_only (cells st r) (cells st' r))"
proof -
  obtain st1 s1 m st2 where step: "stats_step (set_flags True rs st, t) (st1, t)"
    and s1: "ready s1" "\<And>m es. holds s1 m es = holds s m es"
    and w: "wr E (OutputStrategy p) (TargetLevel p) s1 g = Some (Inr (Some m), s', g')" and al: "alloc m st1 = (new, st2)"
    and stt: "(st', t') = (\<lambda>stt. (set_flags False rs (fst stt), snd stt))
      (retire_inputs rs (RegisterSegment rt new (st2, t)))"
    by (rule Execute_parts [OF assms(1,3,5) ex E(1,2)]) (rule that)
  have f1: "fresh st1 = fresh st" using step by (simp add: stats_step_def)
  have so: "stats_only (cells (set_flags True rs st) r) (cells st1 r)" for r using step by (simp add: stats_step_def)
  have id1: "ID (cells st1 r) = ID (cells st r)" for r using stats_only_same(2) [OF so [of r]] by simp
  have inv1: "tracker_inv (st1, t)" by (rule tracker_inv_cells [OF assms(2) id1 f1])
  have st': "st' = set_flags False rs (fst (retire_inputs rs (RegisterSegment rt new (st2, t))))"
    using stt by simp
  have "ID (cells st' new) = ID m"
    using al by (auto simp: st' retire_inputs_ID RegisterSegment_ID alloc_def)
  then have uid': "\<forall>r' \<in> set (ordered t). ID (cells st1 r') \<noteq> ID m" using uid by (simp add: id1)
  note fin = register_retire [OF inv1 al uid' assms(4) stt]
  obtain n where n: "cells st' new = m\<lparr>OverlapCount := n\<rparr>" using fin by blast
  note wo = write_ok [OF s1(1) E(1) w]
  have wo: "holds s' m E" "ready s'" "\<And>m' es'. holds s m' es' \<Longrightarrow> holds s' m' es'" "\<not> obsolete m"
    "\<not> InCompaction m" "Level m = TargetLevel p" "Strategy m = OutputStrategy p"
    using wo E(3) s1(2) by auto
  have "E \<noteq> []"
    using w write_nil [of "OutputStrategy p" "TargetLevel p" s1 g] by auto
  moreover have "stats_only (cells st x) (cells st' x)" if "x \<in> set (ordered t) - set rs" for x
  proof -
    have "x \<noteq> new" using fin that by blast
    then have "cells st' x = cells st1 x" using fin that by blast
    then show ?thesis using that so [of x] by simp
  qed
  moreover have "holds s' (cells st' new) E" "\<not> obsolete (cells st' new)" "\<not> InCompaction (cells st' new)"
    "Level (cells st' new) = TargetLevel p" "Strategy (cells st' new) = OutputStrategy p"
    using wo by (simp_all add: n holds_frame)
  ultimately show ?thesis using wo fin f1 by simp
qed

end

context compaction_io
begin

text \<open>With nothing live to write, the writer returns a nil segment, which is then dereferenced.\<close>

lemma Execute_panics:
  assumes "ready s" "Inputs p = map Some rs" "\<forall>i \<in> set (Inputs p). input_ok st i"
    "\<forall>r \<in> set rs. holds s (cells st r) (runs r)" "merged_values (map runs rs) = Map.empty"
  shows "Execute rt scan wr p (st, t) s g = None"
proof -
  let ?st0 = "set_flags True rs st"
  have valid: "validate st 0 (Inputs p) = None" using assms(3) by (simp add: validate_None)
  have in0: "\<forall>r \<in> set rs. holds s (cells (fst (?st0, t)) r) (runs r) \<and>
      \<not> obsolete (cells (fst (?st0, t)) r) \<and> InCompaction (cells (fst (?st0, t)) r)"
    using assms(2-4) by (auto simp: holds_frame input_ok_def)
  have "represents [] Map.empty" by (simp add: represents_def)
  from merge_inputs_ok [OF assms(1) this in0] obtain merged stt1 s1 where
    mg: "merge_inputs rt scan rs [] (?st0, t) s = (merged, stt1, s1)"
    and rep: "represents merged (merged_values (map runs rs))"
    unfolding merged_values_def by blast
  have "final_entries rt merged = []" using final_entries_run(3) [OF rep] assms(5) by simp
  moreover have "map the (Inputs p) = rs" by (simp add: assms(2) comp_def)
  ultimately show ?thesis
    unfolding Execute_def fst_conv snd_conv valid option.case Let_def using mg by (simp add: write_nil)
qed

end

section \<open>The interface on the data file\<close>

lemma file_compaction_io:
  "go_runtime rt \<Longrightarrow>
   compaction_io rt file_ready (file_holds b) (reader_Get all_done) (reader_Scan all_done all_done)
     (WriteSegment b os uid now) (file_fits b)"
proof (intro compaction_io.intro compaction_io_axioms.intro)
  show "segment_reader file_ready (file_holds b) (reader_Get all_done) (reader_Scan all_done all_done)"
    by (rule sst.segment_reader_axioms)
qed (simp_all add: file_write_ok WriteSegment_def)

interpretation short_io: compaction_io short_runtime file_ready "file_holds b" "reader_Get all_done"
    "reader_Scan all_done all_done" "WriteSegment b os uid now" "file_fits b" for b os uid now
  by (rule file_compaction_io [OF short_rt.go_runtime_axioms])

section \<open>What an attempt that fails leaves behind\<close>

lemma merge_inputs_stats: "stats_step stt (fst (snd (merge_inputs rt scan rs merged stt s)))"
proof (induction rs arbitrary: merged stt s)
  case (Cons r rs)
  show ?case
  proof (cases "IsObsolete (cells (fst stt) r) \<or> \<not> InCompaction (cells (fst stt) r)")
    case True
    then show ?thesis using Cons.IH [of stt merged s] by simp
  next
    case False
    obtain q s1 where q: "scan (Some (cells (fst stt) r)) s = (q, s1)" by fastforce
    show ?thesis
    proof (cases q)
      case (Inl e)
      then show ?thesis using False Cons.IH [of stt merged s1] q by simp
    next
      case (Inr d)
      have "stats_step stt (UpdateStats (ID (cells (fst stt) r)) 0 1 stt)" by (rule stats_step_UpdateStats)
      from stats_step_trans [OF this Cons.IH] show ?thesis using False Inr q by simp
    qed
  qed
qed simp

lemma Execute_valid:
  assumes "Execute rt scan wr p stt s g = Some (Inr new, rest)"
  shows "\<forall>i \<in> set (Inputs p). input_ok (fst stt) i"
proof (cases "validate (fst stt) 0 (Inputs p)")
  case None
  then show ?thesis by (simp add: validate_None)
next
  case (Some e)
  then show ?thesis using assms by (simp add: Execute_def)
qed

lemma stats_only_unflag: "stats_only m m' \<Longrightarrow> stats_only (m\<lparr>InCompaction := f\<rparr>) (m'\<lparr>InCompaction := f\<rparr>)"
  by (cases m; cases m'; simp add: stats_only_def no_stats_def)

lemma validate_OutputFailed: "validate st n is \<noteq> Some (OutputFailed e)"
  by (induction st n "is" rule: validate.induct) auto

lemma file_state_compaction:
  assumes "go_runtime rt" "file_state b runs (st, t) s" "Inputs p = map Some rs" "set rs \<subseteq> set (ordered t)"
    and ex: "Execute rt (reader_Scan all_done all_done) (WriteSegment b os uid now) p (st, t) s g =
       Some (Inr new, (st', t'), s', g')"
    and "\<forall>r \<in> set (ordered t). ID (cells st r) \<noteq> ID (cells st' new)"
    and E: "sorted_run E"
      "\<And>k. run_map E k = map_option (\<lambda>v. live_entry k (Some v)) (merged_values (map runs rs) k)"
      "file_fits b E s'"
  shows "file_state b (runs(new := E)) (st', t') s' \<and> ordered t' = new # ordered t \<and> E \<noteq> [] \<and>
    \<not> obsolete (cells st' new) \<and> Level (cells st' new) = TargetLevel p \<and>
    Strategy (cells st' new) = OutputStrategy p \<and>
    (\<forall>r \<in> set rs. obsolete (cells st' r) \<and> \<not> InCompaction (cells st' r)) \<and>
    (\<forall>r \<in> set (ordered t) - set rs. stats_only (cells st r) (cells st' r))"
proof -
  have st: "tracker_inv (st, t)" "file_ready s" using assms(2) by (simp_all add: file_state_def)
  have valid: "\<forall>i \<in> set (Inputs p). input_ok st i"
    using Execute_valid [OF ex] by simp
  have holds: "\<forall>r \<in> set rs. file_holds b s (cells st r) (runs r)"
    using assms(2,4) valid by (auto simp: file_state_def assms(3) input_ok_def)
  note ok = compaction_io.Execute_ok [OF file_compaction_io [OF assms(1)] st(2,1) assms(3,4) holds ex assms(6) E]
  have fresh: "r \<noteq> new" if "r \<in> set (ordered t)" for r
    using st(1) ok that by (auto simp: tracker_inv_def)
  have "file_holds b s' (cells st' r) (runs r)"
    if r: "r \<in> set (ordered t)" "\<not> obsolete (cells st' r)" for r
  proof -
    have out: "r \<notin> set rs" using ok r(2) by blast
    then have so: "stats_only (cells st r) (cells st' r)" using ok r(1) by blast
    then have "file_holds b s (cells st r) (runs r)"
      using assms(2) r stats_only_same(1) [OF so] by (auto simp: file_state_def)
    then have "file_holds b s' (cells st r) (runs r)" using ok by blast
    then show ?thesis using sst.holds_stats [OF so] by blast
  qed
  then show ?thesis using ok fresh by (auto simp: file_state_def)
qed

section \<open>Properties\<close>

text \<open>C2: A compaction that succeeds replaces its inputs by one segment that holds, for every key, the
  last live value among them in the order of the plan: the tracker stays consistent, the file
  still holds every live segment, the output is live at the target level with the plan's
  strategy, every input is retired and its flag cleared, and other segments keep everything but
  their statistics.\<close>

theorem compaction_replaces_inputs:
  assumes "go_runtime rt" "file_state b runs (st, t) s" "Inputs p = map Some rs" "set rs \<subseteq> set (ordered t)"
    "Execute rt (reader_Scan all_done all_done) (WriteSegment b os uid now) p (st, t) s g =
       Some (Inr new, (st', t'), s', g')"
    "\<forall>r \<in> set (ordered t). ID (cells st r) \<noteq> ID (cells st' new)"
    "sorted_run E" "\<forall>k. run_map E k = map_option (\<lambda>v. live_entry k (Some v)) (merged_values (map runs rs) k)"
    "file_fits b E s'"
  shows "file_state b (runs(new := E)) (st', t') s' \<and> ordered t' = new # ordered t \<and> E \<noteq> [] \<and>
    \<not> obsolete (cells st' new) \<and> Level (cells st' new) = TargetLevel p \<and>
    Strategy (cells st' new) = OutputStrategy p \<and>
    (\<forall>r \<in> set rs. obsolete (cells st' r) \<and> \<not> InCompaction (cells st' r)) \<and>
    (\<forall>r \<in> set (ordered t) - set rs. stats_only (cells st r) (cells st' r))"
  using file_state_compaction [OF assms(1-7) _ assms(9)] assms(8) by blast

text \<open>The two segments of the sample file, merged as the director orders them, newer first.\<close>

definition merge_plan :: plan where
  "merge_plan = \<lparr>Inputs = [Some 3, Some 2], OutputStrategy = TIERED, Reason = SimilarSizedRuns, TargetLevel = 0\<rparr>"

definition merge_result :: "((exec_error + ref) \<times> (store \<times> tracker) \<times> segfile \<times> counters) option" where
  "merge_result = Execute short_runtime (reader_Scan all_done all_done) (WriteSegment sample_b all_done [3] 30)
     merge_plan (two_store 20, two_tracker) sample_file zero_counters"

lemma sample_flags: "\<not> InCompaction old_meta" "\<not> InCompaction new_meta"
  by code_simp+

lemma merge_result_eval:
  "case merge_result of
     Some (Inr n, stt, s, g) \<Rightarrow> n = 4 \<and> ID (cells (fst stt) 4) = [3] \<and> length (sf_bytes s) = 190
   | _ \<Rightarrow> False"
  by code_simp

lemma merged_run:
  "run_map old_run k = map_option (\<lambda>v. live_entry k (Some v)) (merged_values (map two_runs [3, 2]) k)"
  by (auto simp: merged_values_def two_runs_def live_value_def old_run_def new_run_def scan_value_def
      nonempty_def map_add_def)

lemma merge_done:
  obtains st' t' s' g' where "merge_result = Some (Inr 4, (st', t'), s', g')" "ID (cells st' 4) = [3]"
    "file_fits sample_b old_run s'"
proof -
  obtain n st' t' s' g' where r: "merge_result = Some (Inr n, (st', t'), s', g')"
    "n = 4" "ID (cells st' 4) = [3]" "length (sf_bytes s') = 190"
  proof -
    obtain q st' t' s' g' where mr: "merge_result = Some (q, (st', t'), s', g')"
      using merge_result_eval by (cases merge_result) auto
    have "case q of Inl e \<Rightarrow> False | Inr n \<Rightarrow> n = 4 \<and> ID (cells st' 4) = [3] \<and> length (sf_bytes s') = 190"
      using merge_result_eval by (cases q) (simp_all add: mr)
    then show thesis using that mr by (cases q) auto
  qed
  then have "file_fits sample_b old_run s'"
    by (simp add: file_fits_def sample_scannable sample_b_def NewBuilder_stride)
  with r that show thesis by blast
qed

lemma compaction_replaces_inputs_witness:
  "\<exists>st' t' s' g'. merge_result = Some (Inr 4, (st', t'), s', g') \<and> ordered t' = [4, 3, 2] \<and>
     file_state sample_b (two_runs(4 := old_run)) (st', t') s' \<and> obsolete (cells st' 2) \<and> obsolete (cells st' 3)"
proof -
  obtain st' t' s' g' where r: "merge_result = Some (Inr 4, (st', t'), s', g')" "ID (cells st' 4) = [3]"
    "file_fits sample_b old_run s'" by (rule merge_done)
  have "file_state sample_b (two_runs(4 := old_run)) (st', t') s' \<and> ordered t' = 4 # ordered two_tracker \<and>
    (\<forall>r \<in> set [3, 2]. obsolete (cells st' r) \<and> \<not> InCompaction (cells st' r))"
    using compaction_replaces_inputs [OF short_rt.go_runtime_axioms two_segments_state, of merge_plan "[3, 2]"
        all_done "[3]" 30 20 zero_counters 4 st' t' s' g' old_run] r merged_run
    by (simp add: merge_plan_def merge_result_def [unfolded merge_plan_def] sample_meta_fields sample_runs)
  then show ?thesis using r(1) by (simp only: two_store_simps list.set ball_simps) blast
qed

text \<open>C37: Merging similar-sized runs brings overwritten values back: the director lists the newer of
  the two segments first, but the executor lets later inputs win, so a key with a value in both
  reads as the new value before the compaction and as the old one after it.\<close>

theorem tiered_merge_restores_old_value:
  assumes "go_runtime rt" "file_state b runs (st, t) s" "MaybePlan rt clk (st, t) d = (Some p, d')"
    "Inputs p = [Some a, Some c]" "CreatedAt (cells st c) < CreatedAt (cells st a)" "Level (cells st c) = Level (cells st a)"
    "run_map (runs a) key = Some (live_entry key (Some (x # xs)))"
    "run_map (runs c) key = Some (live_entry key (Some (y # ys)))"
    "\<forall>r \<in> set (ordered t). r \<noteq> a \<longrightarrow> r \<noteq> c \<longrightarrow> run_map (runs r) key = None"
    "Execute rt (reader_Scan all_done all_done) (WriteSegment b os uid now) p (st, t) s g =
       Some (Inr new, (st', t'), s', g')"
    "\<forall>r \<in> set (ordered t). ID (cells st r) \<noteq> ID (cells st' new)"
    "sorted_run E" "\<forall>k. run_map E k = map_option (\<lambda>v. live_entry k (Some v)) (merged_values [runs a, runs c] k)"
    "file_fits b E s'" "\<not> snd (Get key mem)"
  shows "(\<exists>z. handler_Get rt (reader_Get all_done) key mem (st, t) s g = Some ((Some (x # xs), True), z)) \<and>
    (\<exists>z. handler_Get rt (reader_Get all_done) key mem (st', t') s' g' = Some ((Some (y # ys), True), z))"
proof -
  have plan: "set [a, c] \<subseteq> set (ordered t)" "a \<noteq> c" "\<not> obsolete (cells st a)"
    using go_runtime.MaybePlan_ok [OF assms(1) _ assms(3)] assms(2,4) Execute_valid [OF assms(10)]
    by (auto simp: file_state_def plan_ok_def input_ok_def map_eq_Cons_conv)
  have in_rs: "Inputs p = map Some [a, c]" by (simp add: assms(4))
  have E: "\<And>k. run_map E k = map_option (\<lambda>v. live_entry k (Some v)) (merged_values (map runs [a, c]) k)"
    using assms(13) by simp
  note after = file_state_compaction [OF assms(1,2) in_rs plan(1) assms(10,11,12) E assms(14)]
  have "\<forall>r' \<in> set (ordered t). r' \<noteq> a \<longrightarrow> \<not> obsolete (cells st r') \<longrightarrow>
      (\<exists>e'. run_map (runs r') key = Some e' \<and> \<not> Tombstone e') \<longrightarrow> seg_less st a r'"
    using assms(5,6,9) by (auto simp: seg_less_def)
  then have "first_live (map (\<lambda>r. run_map (runs r) key) (GetSegmentsForKey rt key (st, t))) = (Some (x # xs), True)"
    using newest_live [OF assms(1,2) _ plan(3) assms(7)] plan(1) by (simp add: nonempty_def)
  then have before: "\<exists>z. handler_Get rt (reader_Get all_done) key mem (st, t) s g = Some ((Some (x # xs), True), z)"
    using handler_Get_miss [OF assms(1,2,15), of g] by auto
  have new: "run_map ((runs(new := E)) new) key = Some (live_entry key (Some (y # ys)))"
    using E [of key] assms(8)
    by (simp add: merged_values_def live_value_def scan_value_def nonempty_def map_add_def)
  have others: "run_map ((runs(new := E)) r) key = None"
    if "r \<in> set (ordered t')" "r \<noteq> new" "\<not> obsolete (cells st' r)" for r
    using that after assms(9) by auto
  have "first_live (map (\<lambda>r. run_map ((runs(new := E)) r) key) (GetSegmentsForKey rt key (st', t'))) =
      (nonempty (slice_bytes (Value (live_entry key (Some (y # ys))))), True)"
    using after others new by (intro newest_live [OF assms(1), of b "runs(new := E)" st' t' s' new]) auto
  then have "\<exists>z. handler_Get rt (reader_Get all_done) key mem (st', t') s' g' = Some ((Some (y # ys), True), z)"
    using handler_Get_miss [OF assms(1) _ assms(15), of b "runs(new := E)" st' t' s' g'] after
    by (auto simp: nonempty_def)
  with before show ?thesis by blast
qed

lemma director_orders_newer_first:
  "MaybePlan short_runtime clk (two_store 20, two_tracker) (NewDirector None) = (Some merge_plan, NewDirector None)"
proof -
  have "similar_size (new_meta\<lparr>CreatedAt := 20\<rparr>) old_meta"
    by (rule similar_size_close) (simp_all add: sample_meta_fields)
  then show ?thesis by (simp add: plan_eval merge_plan_def sample_holds sample_meta_fields)
qed

lemma tiered_merge_restores_old_value_witness:
  "\<exists>st' t' s' g' z. handler_Get short_runtime (reader_Get all_done) [5] (NewMemtable 8) (two_store 20, two_tracker)
      sample_file zero_counters = Some ((Some [2], True), z) \<and>
    merge_result = Some (Inr 4, (st', t'), s', g') \<and>
    (\<exists>z. handler_Get short_runtime (reader_Get all_done) [5] (NewMemtable 8) (st', t') s' g' = Some ((Some [1], True), z))"
proof -
  obtain st' t' s' g' where r: "merge_result = Some (Inr 4, (st', t'), s', g')" "ID (cells st' 4) = [3]"
    "file_fits sample_b old_run s'" by (rule merge_done)
  have "(\<exists>z. handler_Get short_runtime (reader_Get all_done) [5] (NewMemtable 8) (two_store 20, two_tracker)
      sample_file zero_counters = Some ((Some [2], True), z)) \<and>
    (\<exists>z. handler_Get short_runtime (reader_Get all_done) [5] (NewMemtable 8) (st', t') s' g' = Some ((Some [1], True), z))"
  proof (rule tiered_merge_restores_old_value [OF short_rt.go_runtime_axioms two_segments_state
        director_orders_newer_first, where a = 3 and c = 2 and E = old_run and os = all_done and uid = "[3]"
        and now = 30 and new = 4])
    show "\<forall>k. run_map old_run k = map_option (\<lambda>v. live_entry k (Some v)) (merged_values [two_runs 3, two_runs 2] k)"
      using merged_run by simp
    show "Execute short_runtime (reader_Scan all_done all_done) (WriteSegment sample_b all_done [3] 30) merge_plan
      (two_store 20, two_tracker) sample_file zero_counters = Some (Inr 4, (st', t'), s', g')"
      using r(1) by (simp add: merge_result_def)
  qed (simp_all add: merge_plan_def sample_meta_fields two_runs_def r sample_runs Get_run_map,
      simp_all add: old_run_def new_run_def)
  with r(1) show ?thesis by blast
qed

text \<open>C35: Compacting segments that hold nothing live crashes: when all their entries are deletions or
  empty values, the writer is given an empty run and returns a nil segment without an error,
  and the log line at the end of \<^verbatim>\<open>Execute\<close> dereferences it.\<close>

theorem empty_merge_panics:
  assumes "go_runtime rt" "file_state b runs (st, t) s" "Inputs p = map Some rs" "set rs \<subseteq> set (ordered t)"
    "\<forall>r \<in> set rs. input_ok st (Some r)"
    "\<forall>r \<in> set rs. \<forall>e \<in> set (runs r). Tombstone e \<or> slice_bytes (Value e) = []"
  shows "Execute rt (reader_Scan all_done all_done) (WriteSegment b os uid now) p (st, t) s g = None"
proof -
  have "live_value (runs r) = Map.empty" if "r \<in> set rs" for r
    using assms(6) that by (fastforce simp: live_value_def scan_value_def nonempty_def fun_eq_iff
        split: option.split dest: run_map_SomeD)
  then have "merged_values (map runs rs) = Map.empty"
    unfolding merged_values_def by (induction rs) auto
  then show ?thesis
    using compaction_io.Execute_panics [OF file_compaction_io [OF assms(1)], of s p rs st b runs os uid now t g] assms(2-5)
    by (auto simp: file_state_def input_ok_def)
qed

definition tomb_run :: "kv_entry list" where
  "tomb_run = [dead_entry [5]]"

definition tomb_stage :: "segment_meta option \<times> segfile" where
  "tomb_stage = written (WriteSegment sample_b all_done [4] 10 tomb_run TIERED 0 (fresh_file []) zero_counters)"

lemma write_tomb:
  "WriteSegment sample_b all_done [4] 10 tomb_run TIERED 0 (fresh_file []) zero_counters =
     Some (Inr (Some (the (fst tomb_stage))), snd tomb_stage, zero_counters\<lparr>GlobalPhysicalWriteBytes := 55\<rparr>)"
  by code_simp

lemma tomb_fields: "ID (the (fst tomb_stage)) = [4]" "Length (the (fst tomb_stage)) = 55"
  "Offset (the (fst tomb_stage)) = 0" "length (sf_bytes (snd tomb_stage)) = 55"
  by code_simp+

lemma tomb_holds:
  "file_ready (snd tomb_stage)" "file_holds sample_b (snd tomb_stage) (the (fst tomb_stage)) tomb_run"
  "\<not> obsolete (the (fst tomb_stage))"
proof -
  have "file_fits sample_b tomb_run (snd tomb_stage)"
    by (simp add: file_fits_def tomb_fields sample_b_def NewBuilder_stride scannable_def parsable_def readable_def
        lone_empty_def tomb_run_def kv_frame_def frame_length)
  moreover have "sorted_run tomb_run" by (simp add: tomb_run_def)
  ultimately show "file_ready (snd tomb_stage)" "file_holds sample_b (snd tomb_stage) (the (fst tomb_stage)) tomb_run"
    "\<not> obsolete (the (fst tomb_stage))"
    using file_write_ok [OF fresh_file_ready _ write_tomb] by simp_all
qed

lemma tomb_dead: "e \<in> set tomb_run \<Longrightarrow> Tombstone e"
  by (simp add: tomb_run_def)

lemma empty_merge_panics_witness:
  "Execute short_runtime (reader_Scan all_done all_done) (WriteSegment sample_b all_done [3] 30)
     (merge_plan\<lparr>Inputs := [Some 2]\<rparr>)
     (\<lparr>cells = (\<lambda>_. zero_meta)(2 := the (fst tomb_stage)), fresh = 3\<rparr>, \<lparr>segments = [([4], 2)], ordered = [2]\<rparr>)
     (snd tomb_stage) zero_counters = None"
  by (rule empty_merge_panics [where rs = "[2]" and runs = "\<lambda>_. tomb_run", OF short_rt.go_runtime_axioms])
    (auto simp: file_state_def tracker_inv_def tomb_fields tomb_holds input_ok_def tomb_dead)

end
