(* ===== verification/Workload.thy ===== *)
theory Workload
  imports Engine Executor "HOL-Library.Monad_Syntax" "HOL-Library.Signed_Division"
begin

text \<open>
  \<^verbatim>\<open>cmd/amethystd/main.go\<close>: the driver that wires all components together and runs a workload on
  them. One iteration of a loop is a step on the driver's state; the background goroutine's
  compactions happen between iterations. Whatever an iteration gets from outside (random numbers,
  the clock, identifiers, outcomes of system calls, the compactions that came before it) is one
  element of a stream of inputs. \<open>None\<close> is a panic. Progress messages are left out.
\<close>

section \<open>Keys and random draws\<close>

text \<open>\<^verbatim>\<open>fmt.Sprintf("key-%010d", i)\<close>.\<close>

fun decimal :: "nat \<Rightarrow> byte list" where
  "decimal n = (if n < 10 then [of_nat (48 + n)] else decimal (n div 10) @ [of_nat (48 + n mod 10)])"

declare decimal.simps [simp del]

definition key_name :: "nat \<Rightarrow> gostring" where
  "key_name i = map of_char ''key-'' @ replicate (10 - length (decimal i)) 48 @ decimal i"

text \<open>\<^verbatim>\<open>rand.Intn(n)\<close> panics unless n is positive; any draw below n can come.\<close>

definition rand_intn :: "int \<Rightarrow> nat \<Rightarrow> nat option" where
  "rand_intn n draw = (if n \<le> 0 then None else Some (draw mod nat n))"

text \<open>\<^verbatim>\<open>make([]byte, valueSize)\<close> filled by \<^verbatim>\<open>rand.Read\<close>.\<close>

definition make_value :: "int \<Rightarrow> (nat \<Rightarrow> byte) \<Rightarrow> byte list" where
  "make_value valueSize f = map f [0..<nat valueSize]"

text \<open>
  \<^verbatim>\<open>math.Pow\<close> is the argument \<open>pow\<close>, the result of \<^verbatim>\<open>rand.Float64()\<close> is \<open>u\<close>.
\<close>

fun zipf_sum :: "(rat \<Rightarrow> rat \<Rightarrow> rat) \<Rightarrow> rat \<Rightarrow> nat list \<Rightarrow> rat \<Rightarrow> rat" where
  "zipf_sum pow s [] acc = acc"
| "zipf_sum pow s (i # rest) acc = zipf_sum pow s rest (fadd acc (fdiv 1 (pow (of_int64 (int i)) s)))"

fun zipf_scan :: "(rat \<Rightarrow> rat \<Rightarrow> rat) \<Rightarrow> rat \<Rightarrow> rat \<Rightarrow> nat list \<Rightarrow> rat \<Rightarrow> nat option" where
  "zipf_scan pow s r [] partialSum = None"
| "zipf_scan pow s r (i # rest) partialSum =
     (let partialSum' = fadd partialSum (fdiv 1 (pow (of_int64 (int i)) s))
      in if r \<le> partialSum' then Some (i - 1) else zipf_scan pow s r rest partialSum')"

definition zipfian :: "(rat \<Rightarrow> rat \<Rightarrow> rat) \<Rightarrow> rat \<Rightarrow> int \<Rightarrow> rat \<Rightarrow> int" where
  "zipfian pow u n s =
     (let r = fmul u (zipf_sum pow s [1..<Suc (nat n)] 0)
      in case zipf_scan pow s r [1..<Suc (nat n)] 0 of Some i \<Rightarrow> int i | None \<Rightarrow> i64 (n - 1))"

section \<open>The state\<close>

record bench =
  b_wal :: diskWAL
  b_mem :: memtable
  b_meta :: "store \<times> tracker"
  b_file :: segfile
  b_globals :: counters
  b_director :: director
  logicalBytes :: int
  physicalBytes :: int
  userBytes :: int
  totalReads :: int
  totalSegmentScans :: int
  compactionCount :: int
  logicalWriteBytes :: int
  liveKeys :: "(gostring \<times> int) list"

definition bench_writer :: sparse_builder where
  "bench_writer = NewBuilder 16"

text \<open>What a background compaction and one iteration of a loop get from outside.\<close>

record tick_env =
  tk_clock :: "nat \<Rightarrow> clock"
  tk_scan :: "(outcome \<times> outcome \<times> outcome) \<times> (outcome \<times> outcome \<times> outcome)"
  tk_append :: "outcome \<times> outcome \<times> outcome"
  tk_uuid :: gostring
  tk_now :: int

record iter_in =
  it_ticks :: "tick_env list"
  it_draw :: nat
  it_coin :: bool
  it_unit :: rat
  it_value :: "nat \<Rightarrow> byte"
  it_env :: engine_env
  it_mmap :: "outcome \<times> outcome \<times> outcome"

section \<open>Steps\<close>

text \<open>
  The three ways in which the loops count a put: all three counters, all but
  \<^verbatim>\<open>logicalWriteBytes\<close> while a mixed workload populates, and none in \<^verbatim>\<open>runPureRead\<close>.
\<close>

datatype counting = CountAll | CountPopulate | CountNone

fun count_put :: "counting \<Rightarrow> int \<Rightarrow> gostring \<Rightarrow> byte list \<Rightarrow> bench \<Rightarrow> bench" where
  "count_put CountAll valueSize key val s =
     (let entrySize = int (length key + length val)
      in s\<lparr>logicalWriteBytes := i64 (logicalWriteBytes s + entrySize),
           logicalBytes := i64 (logicalBytes s + (int (length key) + valueSize)),
           userBytes := i64 (userBytes s + int (length key + length val))\<rparr>)"
| "count_put CountPopulate valueSize key val s =
     s\<lparr>logicalBytes := i64 (logicalBytes s + (int (length key) + valueSize)),
       userBytes := i64 (userBytes s + int (length key + length val))\<rparr>"
| "count_put CountNone valueSize key val s = s"

text \<open>
  The flush block. The error of \<^verbatim>\<open>WriteSegment\<close> is dropped and its nil segment dereferenced, by
  \<^verbatim>\<open>seg.Length\<close> or, in \<^verbatim>\<open>runPureRead\<close>, by \<^verbatim>\<open>RegisterSegment\<close>. The flush after a loop does not
  truncate the log.
\<close>

definition flush_full :: "runtime \<Rightarrow> counting \<Rightarrow> bool \<Rightarrow> engine_env \<Rightarrow> bench \<Rightarrow> bench option" where
  "flush_full rt mode trunc env s =
     (if ShouldFlush (b_mem s) then
        (case Flush (b_mem s) of (entries, mem') \<Rightarrow>
           (case WriteSegment bench_writer (append_outcomes env) (new_uuid env) (now env) entries TIERED 0
                   (b_file s) (b_globals s) of
              Some (Inr (Some seg), f, g) \<Rightarrow>
                (case alloc seg (fst (b_meta s)) of (r, st) \<Rightarrow>
                   (let s1 = s\<lparr>b_mem := mem', b_file := f, b_globals := g,
                               physicalBytes := (if mode = CountNone then physicalBytes s
                                                 else i64 (physicalBytes s + Length seg)),
                               b_meta := RegisterSegment rt r (st, snd (b_meta s))\<rparr>
                    in Some (if trunc
                             then s1\<lparr>b_wal := snd (Truncate (trunc_outcome env) (seek_outcome env) (b_wal s1))\<rparr>
                             else s1)))
            | _ \<Rightarrow> None))
      else Some s)"

definition put_step ::
  "runtime \<Rightarrow> counting \<Rightarrow> int \<Rightarrow> gostring \<Rightarrow> iter_in \<Rightarrow> bench \<Rightarrow> bench option" where
  "put_step rt mode valueSize key i s =
     (let val = make_value valueSize (it_value i);
          s1 = s\<lparr>b_wal := snd (LogPut (log_outcomes (it_env i)) key (Some val) (b_wal s)),
                 b_mem := Put key (Some val) (b_mem s)\<rparr>;
          s2 = count_put mode valueSize key val s1;
          s3 = s2\<lparr>liveKeys := AList.update key (int (length val)) (liveKeys s2)\<rparr>
      in flush_full rt mode True (it_env i) s3)"

text \<open>
  A read: the candidates are counted by the caller. The loop over them is that of the read
  handler; the result is dropped, and the memtable is not asked.
\<close>

definition probe_step ::
  "runtime \<Rightarrow> gostring \<Rightarrow> iter_in \<Rightarrow> bench \<Rightarrow> (int \<times> bench) option" where
  "probe_step rt key i s =
     (let segs = GetSegmentsForKey rt key (b_meta s)
      in case handler_loop (reader_Get (it_mmap i)) key segs (b_meta s) (b_file s) (b_globals s) of
           None \<Rightarrow> None
         | Some (_, stt, f, g) \<Rightarrow>
             Some (int (length segs), s\<lparr>totalReads := i64 (totalReads s + 1), b_meta := stt, b_file := f, b_globals := g\<rparr>))"

definition add_scans :: "int \<Rightarrow> bench \<Rightarrow> bench" where
  "add_scans n s = s\<lparr>totalSegmentScans := i64 (totalSegmentScans s + n)\<rparr>"

definition read_step :: "runtime \<Rightarrow> gostring \<Rightarrow> iter_in \<Rightarrow> bench \<Rightarrow> bench option" where
  "read_step rt key i s = map_option (\<lambda>(n, s'). add_scans n s') (probe_step rt key i s)"

definition run_plan ::
  "runtime \<Rightarrow> tick_env \<Rightarrow> plan \<Rightarrow> bench \<Rightarrow> ((exec_error + ref) \<times> bench) option" where
  "run_plan rt k p s =
     (case Execute rt (reader_Scan (fst (tk_scan k)) (snd (tk_scan k)))
             (WriteSegment bench_writer (tk_append k) (tk_uuid k) (tk_now k)) p (b_meta s) (b_file s) (b_globals s) of
        None \<Rightarrow> None
      | Some (r, stt, f, g) \<Rightarrow> Some (r, s\<lparr>b_meta := stt, b_file := f, b_globals := g\<rparr>))"

definition count_compaction :: "ref \<Rightarrow> bench \<Rightarrow> bench" where
  "count_compaction new s =
     s\<lparr>physicalBytes := i64 (physicalBytes s + Length (cells (fst (b_meta s)) new)),
       compactionCount := i64 (compactionCount s + 1)\<rparr>"

text \<open>One tick of the background goroutine.\<close>

definition stale_input :: "store \<Rightarrow> ref option \<Rightarrow> bool" where
  "stale_input st i = (case i of None \<Rightarrow> True | Some r \<Rightarrow> IsObsolete (cells st r))"

definition bg_tick :: "runtime \<Rightarrow> tick_env \<Rightarrow> bench \<Rightarrow> bench option" where
  "bg_tick rt k s =
     (case MaybePlan rt (tk_clock k) (b_meta s) (b_director s) of
        (None, d) \<Rightarrow> Some (s\<lparr>b_director := d\<rparr>)
      | (Some p, d) \<Rightarrow>
          let s1 = s\<lparr>b_director := d\<rparr>
          in if list_ex (stale_input (fst (b_meta s1))) (Inputs p) then Some s1
             else (case run_plan rt k p s1 of
                     None \<Rightarrow> None
                   | Some (Inl err, s2) \<Rightarrow> Some s2
                   | Some (Inr new, s2) \<Rightarrow> Some (count_compaction new s2)))"

text \<open>
  The compaction at the end of the three workloads with operations: the error is dropped, and
  \<^verbatim>\<open>newSeg.Length\<close> dereferences nil.
\<close>

definition last_compaction :: "runtime \<Rightarrow> tick_env \<Rightarrow> bench \<Rightarrow> bench option" where
  "last_compaction rt k s =
     (case MaybePlan rt (tk_clock k) (b_meta s) (b_director s) of
        (None, d) \<Rightarrow> Some (s\<lparr>b_director := d\<rparr>)
      | (Some p, d) \<Rightarrow>
          (case run_plan rt k p (s\<lparr>b_director := d\<rparr>) of
             Some (Inr new, s2) \<Rightarrow> Some (count_compaction new s2)
           | _ \<Rightarrow> None))"

section \<open>Loops\<close>

fun each :: "('a \<Rightarrow> 's \<Rightarrow> 's option) \<Rightarrow> 'a list \<Rightarrow> 's \<Rightarrow> 's option" where
  "each body [] s = Some s"
| "each body (x # xs) s = (case body x s of None \<Rightarrow> None | Some s' \<Rightarrow> each body xs s')"

text \<open>\<^verbatim>\<open>for i := 0; i < n; i++\<close>\<close>

definition for_range :: "int \<Rightarrow> (nat \<Rightarrow> 's \<Rightarrow> 's option) \<Rightarrow> 's \<Rightarrow> 's option" where
  "for_range n body s = each body [0..<nat n] s"

type_synonym inputs = "nat \<Rightarrow> iter_in"

text \<open>
  The input after the last of a loop belongs to what follows it: a final flush, or the background
  compactions during a sleep.
\<close>

definition after :: "int \<Rightarrow> inputs \<Rightarrow> iter_in" where
  "after n ins = ins (nat n)"

definition background :: "runtime \<Rightarrow> iter_in \<Rightarrow> bench \<Rightarrow> bench option" where
  "background rt i s = each (bg_tick rt) (it_ticks i) s"

definition populate :: "runtime \<Rightarrow> counting \<Rightarrow> int \<Rightarrow> int \<Rightarrow> inputs \<Rightarrow> bench \<Rightarrow> bench option" where
  "populate rt mode numKeys valueSize ins =
     for_range numKeys (\<lambda>i s. do {
       s \<leftarrow> background rt (ins i) s;
       put_step rt mode valueSize (key_name i) (ins i) s })"

definition random_put :: "runtime \<Rightarrow> int \<Rightarrow> int \<Rightarrow> iter_in \<Rightarrow> bench \<Rightarrow> bench option" where
  "random_put rt numKeys valueSize i s = do {
     k \<leftarrow> rand_intn numKeys (it_draw i);
     put_step rt CountAll valueSize (key_name k) i s }"

definition random_read :: "runtime \<Rightarrow> int \<Rightarrow> iter_in \<Rightarrow> bench \<Rightarrow> bench option" where
  "random_read rt numKeys i s = do {
     k \<leftarrow> rand_intn numKeys (it_draw i);
     read_step rt (key_name k) i s }"

section \<open>Keys sort like their numbers\<close>

fun fixed_digits :: "nat \<Rightarrow> nat \<Rightarrow> byte list" where
  "fixed_digits 0 n = []"
| "fixed_digits (Suc w) n = fixed_digits w (n div 10) @ [of_nat (48 + n mod 10)]"

lemma fixed_digits_length [simp]: "length (fixed_digits w n) = w"
  by (induction w arbitrary: n) auto

lemma fixed_digits_zero: "fixed_digits w 0 = replicate w 48"
  by (induction w) (auto simp: replicate_append_same)

lemma decimal_fixed:
  "n < 10 ^ w \<Longrightarrow> 0 < w \<Longrightarrow> length (decimal n) \<le> w \<and> replicate (w - length (decimal n)) 48 @ decimal n = fixed_digits w n"
proof (induction n arbitrary: w rule: decimal.induct)
  case (1 n)
  obtain w' where w: "w = Suc w'" using 1(3) by (cases w) auto
  show ?case
  proof (cases "n < 10")
    case True
    then show ?thesis
      by (simp add: w decimal.simps [of n] fixed_digits_zero)
  next
    case False
    have "w' \<noteq> 0" using False 1(2) w by (cases w') auto
    moreover have "n div 10 < 10 ^ w'" using 1(2) by (simp add: w less_mult_imp_div_less mult.commute)
    ultimately show ?thesis
      using 1(1) [OF False, of w'] False by (simp add: w decimal.simps [of n])
  qed
qed

lemma list_less_prefix: "(xs @ ys < xs @ zs) = (ys < (zs :: byte list))"
  by (induction xs) auto

lemma list_less_append: "length xs = length ys \<Longrightarrow> xs < ys \<Longrightarrow> xs @ us < ys @ (vs :: byte list)"
  by (induction xs ys rule: list_induct2) auto

lemma fixed_digits_mono: "i < j \<Longrightarrow> j < 10 ^ w \<Longrightarrow> fixed_digits w i < fixed_digits w j"
proof (induction w arbitrary: i j)
  case (Suc w)
  show ?case
  proof (cases "i div 10 = j div 10")
    case True
    then have "i mod 10 < j mod 10" using Suc.prems(1) by (metis div_mult_mod_eq nat_add_left_cancel_less)
    then have "(of_nat (48 + i mod 10) :: byte) < of_nat (48 + j mod 10)"
      by (subst of_nat_word_less_iff) (simp_all add: take_bit_eq_mod)
    then show ?thesis using True by (simp add: list_less_prefix del: of_nat_add)
  next
    case False
    then have "i div 10 < j div 10" using Suc.prems(1) by (meson div_le_mono le_neq_implies_less less_imp_le_nat)
    moreover have "j div 10 < 10 ^ w" using Suc.prems(2) by (simp add: less_mult_imp_div_less mult.commute)
    ultimately show ?thesis using Suc.IH by (simp add: list_less_append)
  qed
qed simp

lemma key_name_fixed: "i < 10 ^ 10 \<Longrightarrow> key_name i = map of_char ''key-'' @ fixed_digits 10 i"
  using decimal_fixed [of i 10] by (simp add: key_name_def)

lemma key_name_mono: "i < j \<Longrightarrow> j < 10 ^ 10 \<Longrightarrow> key_name i < key_name j"
  by (simp only: key_name_fixed less_trans [of i j] list_less_prefix fixed_digits_mono)

lemma key_name_less_iff: "i < 10 ^ 10 \<Longrightarrow> j < 10 ^ 10 \<Longrightarrow> key_name i < key_name j \<longleftrightarrow> i < j"
  by (metis key_name_mono less_asym linorder_neqE_nat order_less_irrefl)

lemma key_name_inject: "i < 10 ^ 10 \<Longrightarrow> j < 10 ^ 10 \<Longrightarrow> key_name i = key_name j \<longleftrightarrow> i = j"
  by (metis key_name_mono linorder_neqE_nat order_less_irrefl)

lemma decimal_length: "length (decimal n) \<le> Suc n"
proof (induction n rule: decimal.induct)
  case (1 n)
  show ?case
  proof (cases "n < 10")
    case False
    then have "Suc (n div 10) \<le> n" by linarith
    then show ?thesis using 1 False by (simp add: decimal.simps [of n])
  qed (simp add: decimal.simps [of n])
qed

lemma zipf_scan_bounds: "zipf_scan pow s r xs p = Some i \<Longrightarrow> Suc i \<in> set xs \<or> (i = 0 \<and> 0 \<in> set xs)"
  by (induction xs arbitrary: p) (auto simp: Let_def split: if_splits)

lemma zipfian_range:
  assumes "0 < n" "n < 2 ^ 63"
  shows "0 \<le> zipfian pow u n s \<and> zipfian pow u n s < n"
proof (cases "zipf_scan pow s (fmul u (zipf_sum pow s [1..<Suc (nat n)] 0)) [1..<Suc (nat n)] 0")
  case None
  have "i64 (n - 1) = n - 1" using assms by (intro i64_id) auto
  then show ?thesis using None assms by (simp add: zipfian_def Let_def)
next
  case (Some i)
  then show ?thesis using zipf_scan_bounds [OF Some] assms(1) by (auto simp: zipfian_def Let_def)
qed

end
