(* ===== verification/Benchmark.thy ===== *)
theory Benchmark
  imports Workload
begin

text \<open>
  \<^verbatim>\<open>cmd/amethystd/main.go\<close>, second part: the seven workloads, as compositions of the loops and
  steps of \<open>Workload\<close>, and \<^verbatim>\<open>main\<close>: the check of the flags, the initial state, the dispatch and
  the metrics. A workload takes one stream of inputs per loop.
\<close>

section \<open>Ratios\<close>

text \<open>A quotient of two floats; only finite operands occur.\<close>

datatype gofloat = Finite rat | NotANumber | Infinity bool

definition go_quotient :: "rat \<Rightarrow> rat \<Rightarrow> gofloat" where
  "go_quotient x y =
     (if y \<noteq> 0 then Finite (fdiv x y) else if x = 0 then NotANumber else Infinity (0 < x))"

definition ratio :: "int \<Rightarrow> int \<Rightarrow> gofloat" where
  "ratio a b = go_quotient (of_int64 a) (of_int64 b)"

record phase_result =
  ph_Name :: string
  ph_Duration :: rat
  ph_WA :: gofloat
  ph_RA :: gofloat

section \<open>The shift workload\<close>

definition shift_phase1 :: "runtime \<Rightarrow> int \<Rightarrow> int \<Rightarrow> inputs \<Rightarrow> inputs \<Rightarrow> bench \<Rightarrow> bench option" where
  "shift_phase1 rt numKeys valueSize ins1 ins2 s = do {
     s \<leftarrow> populate rt CountAll numKeys valueSize ins1 s;
     let overwriteCount = numKeys sdiv 2;
     s \<leftarrow> for_range overwriteCount (\<lambda>i s. do {
       s \<leftarrow> background rt (ins2 i) s;
       random_put rt numKeys valueSize (ins2 i) s }) s;
     flush_full rt CountAll False (it_env (after overwriteCount ins2)) s }"

definition shift_phase2 :: "runtime \<Rightarrow> int \<Rightarrow> inputs \<Rightarrow> bench \<Rightarrow> (int \<times> bench) option" where
  "shift_phase2 rt numKeys ins s =
     for_range numKeys (\<lambda>i (scans, s). do {
       s \<leftarrow> background rt (ins i) s;
       let safeKeyRange = i64 (numKeys * 9) sdiv 10;
       k \<leftarrow> rand_intn safeKeyRange (it_draw (ins i));
       (n, s) \<leftarrow> probe_step rt (key_name k) (ins i) s;
       Some (i64 (scans + n), s) }) (0, s)"

definition shift_phase3 :: "runtime \<Rightarrow> int \<Rightarrow> int \<Rightarrow> inputs \<Rightarrow> bench \<Rightarrow> bench option" where
  "shift_phase3 rt numKeys valueSize ins s = do {
     s \<leftarrow> for_range (numKeys sdiv 2) (\<lambda>i s. do {
       s \<leftarrow> background rt (ins i) s;
       random_put rt numKeys valueSize (ins i) s }) s;
     flush_full rt CountAll False (it_env (after (numKeys sdiv 2) ins)) s }"

definition shift_phase4 :: "runtime \<Rightarrow> int \<Rightarrow> inputs \<Rightarrow> bench \<Rightarrow> (int \<times> int \<times> bench) option" where
  "shift_phase4 rt numKeys ins s =
     for_range (i64 (numKeys * 3)) (\<lambda>i (scans, reads, s). do {
       s \<leftarrow> background rt (ins i) s;
       k \<leftarrow> rand_intn numKeys (it_draw (ins i));
       (n, s) \<leftarrow> probe_step rt (key_name k) (ins i) s;
       Some (i64 (scans + n), i64 (reads + 1), s) }) (0, 0, s)"

definition runShift ::
  "runtime \<Rightarrow> (nat \<Rightarrow> rat) \<Rightarrow> int \<Rightarrow> int \<Rightarrow> (nat \<Rightarrow> inputs) \<Rightarrow> bench \<Rightarrow> (phase_result list \<times> bench) option" where
  "runShift rt dur numKeys valueSize ins s = do {
     s \<leftarrow> shift_phase1 rt numKeys valueSize (ins 0) (ins 1) s;
     let phase1 = \<lparr>ph_Name = ''write'', ph_Duration = dur 1,
       ph_WA = ratio (physicalBytes s) (logicalBytes s), ph_RA = Finite 0\<rparr>;
     s \<leftarrow> background rt (after (numKeys sdiv 2) (ins 1)) s;
     (scans2, s) \<leftarrow> shift_phase2 rt numKeys (ins 2) s;
     let phase2RA = ratio scans2 numKeys;
     let phase2 = \<lparr>ph_Name = ''read'', ph_Duration = dur 2,
       ph_WA = ratio (physicalBytes s) (logicalBytes s), ph_RA = phase2RA\<rparr>;
     let s = add_scans scans2 s;
     s \<leftarrow> background rt (after numKeys (ins 2)) s;
     s \<leftarrow> shift_phase3 rt numKeys valueSize (ins 3) s;
     let phase3 = \<lparr>ph_Name = ''write2'', ph_Duration = dur 3,
       ph_WA = ratio (physicalBytes s) (logicalBytes s), ph_RA = phase2RA\<rparr>;
     s \<leftarrow> background rt (after (numKeys sdiv 2) (ins 3)) s;
     (scans4, reads4, s) \<leftarrow> shift_phase4 rt numKeys (ins 4) s;
     let s = add_scans scans4 s;
     let phase4 = \<lparr>ph_Name = ''read_after_overwrites'', ph_Duration = dur 4,
       ph_WA = ratio (physicalBytes s) (logicalBytes s), ph_RA = ratio scans4 reads4\<rparr>;
     s \<leftarrow> background rt (after (i64 (numKeys * 3)) (ins 4)) s;
     Some ([phase1, phase2, phase3, phase4], s) }"

section \<open>The other workloads\<close>

definition runPureWrite :: "runtime \<Rightarrow> int \<Rightarrow> int \<Rightarrow> (nat \<Rightarrow> inputs) \<Rightarrow> bench \<Rightarrow> bench option" where
  "runPureWrite rt numKeys valueSize ins s = do {
     s \<leftarrow> populate rt CountAll numKeys valueSize (ins 0) s;
     s \<leftarrow> flush_full rt CountAll False (it_env (after numKeys (ins 0))) s;
     background rt (after numKeys (ins 0)) s }"

definition reset_bytes :: "bench \<Rightarrow> bench" where
  "reset_bytes s = s\<lparr>logicalBytes := 0, physicalBytes := 0\<rparr>"

definition runPureRead :: "runtime \<Rightarrow> int \<Rightarrow> int \<Rightarrow> (nat \<Rightarrow> inputs) \<Rightarrow> bench \<Rightarrow> bench option" where
  "runPureRead rt numKeys valueSize ins s = do {
     s \<leftarrow> populate rt CountNone numKeys valueSize (ins 0) s;
     s \<leftarrow> flush_full rt CountNone False (it_env (after numKeys (ins 0))) s;
     let s = reset_bytes s;
     for_range (i64 (numKeys * 3)) (\<lambda>i s. do {
       s \<leftarrow> background rt (ins 1 i) s;
       random_read rt numKeys (ins 1 i) s }) s }"

definition runMixed :: "runtime \<Rightarrow> tick_env \<Rightarrow> int \<Rightarrow> int \<Rightarrow> (nat \<Rightarrow> inputs) \<Rightarrow> bench \<Rightarrow> bench option" where
  "runMixed rt final numKeys valueSize ins s = do {
     s \<leftarrow> populate rt CountPopulate numKeys valueSize (ins 0) s;
     s \<leftarrow> flush_full rt CountPopulate False (it_env (after numKeys (ins 0))) s;
     let numOps = i64 (numKeys * 2);
     s \<leftarrow> for_range numOps (\<lambda>i s. do {
       s \<leftarrow> background rt (ins 1 i) s;
       if it_coin (ins 1 i) then random_put rt numKeys valueSize (ins 1 i) s
       else random_read rt numKeys (ins 1 i) s }) s;
     s \<leftarrow> background rt (after numOps (ins 1)) s;
     last_compaction rt final s }"

definition runReadHeavy :: "runtime \<Rightarrow> tick_env \<Rightarrow> int \<Rightarrow> int \<Rightarrow> (nat \<Rightarrow> inputs) \<Rightarrow> bench \<Rightarrow> bench option" where
  "runReadHeavy rt final numKeys valueSize ins s = do {
     s \<leftarrow> populate rt CountPopulate numKeys valueSize (ins 0) s;
     s \<leftarrow> flush_full rt CountPopulate False (it_env (after numKeys (ins 0))) s;
     let numOps = i64 (numKeys * 2);
     s \<leftarrow> for_range numOps (\<lambda>i s. do {
       s \<leftarrow> background rt (ins 1 i) s;
       if it_coin (ins 1 i) then random_read rt numKeys (ins 1 i) s
       else random_put rt numKeys valueSize (ins 1 i) s }) s;
     s \<leftarrow> background rt (after numOps (ins 1)) s;
     last_compaction rt final s }"

definition runWriteHeavy :: "runtime \<Rightarrow> tick_env \<Rightarrow> int \<Rightarrow> int \<Rightarrow> (nat \<Rightarrow> inputs) \<Rightarrow> bench \<Rightarrow> bench option" where
  "runWriteHeavy rt final numKeys valueSize ins s = do {
     s \<leftarrow> populate rt CountPopulate numKeys valueSize (ins 0) s;
     s \<leftarrow> flush_full rt CountPopulate False (it_env (after numKeys (ins 0))) s;
     let numOps = i64 (numKeys * 2);
     s \<leftarrow> for_range numOps (\<lambda>i s. do {
       s \<leftarrow> background rt (ins 1 i) s;
       if it_coin (ins 1 i) then random_put rt numKeys valueSize (ins 1 i) s
       else random_read rt numKeys (ins 1 i) s }) s;
     s \<leftarrow> background rt (after numOps (ins 1)) s;
     last_compaction rt final s }"

text \<open>
  \<open>s\<close> is the exponent 1.5; a negative index cannot come, and the share of the hot keys is only
  printed.
\<close>

definition runZipfian ::
  "runtime \<Rightarrow> (rat \<Rightarrow> rat \<Rightarrow> rat) \<Rightarrow> int \<Rightarrow> int \<Rightarrow> (nat \<Rightarrow> inputs) \<Rightarrow> bench \<Rightarrow> bench option" where
  "runZipfian rt pow numKeys valueSize ins s = do {
     s \<leftarrow> populate rt CountAll numKeys valueSize (ins 0) s;
     s \<leftarrow> flush_full rt CountAll False (it_env (after numKeys (ins 0))) s;
     let numReads = i64 (numKeys * 3);
     s \<leftarrow> for_range numReads (\<lambda>i s. do {
       s \<leftarrow> background rt (ins 1 i) s;
       let keyIdx = zipfian pow (it_unit (ins 1 i)) numKeys (3 / 2);
       read_step rt (key_name (nat keyIdx)) (ins 1 i) s }) s;
     background rt (after numReads (ins 1)) s }"

section \<open>The program\<close>

record flags =
  workloadFlag :: string
  numKeysFlag :: int
  valueSizeFlag :: int
  memEntriesFlag :: int
  engineFlag :: string

text \<open>
  What \<^verbatim>\<open>main\<close> gets from outside: the outcomes of opening the two files and what they hold after
  the attempt to remove them, the start time of the controller, and the inputs of the workload.
\<close>

record world =
  w_open_wal :: outcome
  w_wal_left :: "byte list"
  w_open_file :: outcome
  w_file_left :: "byte list"
  w_start :: instant
  w_ins :: "nat \<Rightarrow> inputs"
  w_final :: tick_env
  w_pow :: "rat \<Rightarrow> rat \<Rightarrow> rat"
  w_dur :: "nat \<Rightarrow> rat"
  w_closing :: iter_in
  w_stat :: outcome
  w_save :: outcome

record results =
  r_Engine :: string
  r_Workload :: string
  r_NumKeys :: int
  r_ValueSize :: int
  WriteAmplification :: gofloat
  ReadAmplification :: gofloat
  SpaceAmplification :: gofloat
  r_CompactionCount :: int
  TotalDurationSec :: rat
  r_LogicalBytes :: int
  r_PhysicalBytes :: int
  r_TotalReads :: int
  SegmentScans :: int
  LiveDataBytes :: int
  TotalDiskBytes :: int
  Phases :: "phase_result list"
  r_TotalComparisons :: int
  AvgComparisonsPerRead :: gofloat
  LogicalWriteBytes :: int
  PhysicalWriteBytes :: int
  CompactionWriteBytes :: int

definition flags_ok :: "flags \<Rightarrow> bool" where
  "flags_ok fl \<longleftrightarrow> \<not> (numKeysFlag fl \<le> 0) \<and> \<not> (valueSizeFlag fl \<le> 0) \<and> \<not> (memEntriesFlag fl \<le> 0)"

text \<open>The components as \<^verbatim>\<open>main\<close> creates them; a file that cannot be opened is a panic.\<close>

definition initial_bench :: "world \<Rightarrow> int \<Rightarrow> bench option" where
  "initial_bench w memEntries =
     (case NewDiskWAL (w_open_wal w) (w_wal_left w) (map of_char ''wal.log'') of
        Inl e \<Rightarrow> None
      | Inr logfile \<Rightarrow>
          (case NewSegmentFileManager (w_open_file w) (w_file_left w) of
             Inl e \<Rightarrow> None
           | Inr fileMgr \<Rightarrow>
               Some \<lparr>b_wal = logfile, b_mem = NewMemtable memEntries, b_meta = (empty_store, NewTracker),
                     b_file = fileMgr, b_globals = zero_counters,
                     b_director = NewDirector (Some (NewFSMController (w_start w))),
                     logicalBytes = 0, physicalBytes = 0, userBytes = 0, totalReads = 0,
                     totalSegmentScans = 0, compactionCount = 0, logicalWriteBytes = 0, liveKeys = []\<rparr>))"

text \<open>
  The dispatch: the outer \<open>None\<close> is a panic, the inner one an unknown workload.
\<close>

definition run_workload ::
  "runtime \<Rightarrow> world \<Rightarrow> flags \<Rightarrow> bench \<Rightarrow> (phase_result list \<times> bench) option option" where
  "run_workload rt w fl s =
     (let n = numKeysFlag fl; v = valueSizeFlag fl; plain = map_option (\<lambda>s. Some ([], s))
      in if workloadFlag fl = ''shift'' then map_option Some (runShift rt (w_dur w) n v (w_ins w) s)
         else if workloadFlag fl = ''pure-write'' then plain (runPureWrite rt n v (w_ins w) s)
         else if workloadFlag fl = ''pure-read'' then plain (runPureRead rt n v (w_ins w) s)
         else if workloadFlag fl = ''mixed'' then plain (runMixed rt (w_final w) n v (w_ins w) s)
         else if workloadFlag fl = ''read-heavy'' then plain (runReadHeavy rt (w_final w) n v (w_ins w) s)
         else if workloadFlag fl = ''write-heavy'' then plain (runWriteHeavy rt (w_final w) n v (w_ins w) s)
         else if workloadFlag fl = ''zipfian'' then plain (runZipfian rt (w_pow w) n v (w_ins w) s)
         else Some None)"

section \<open>Metrics\<close>

definition amplification :: "int \<Rightarrow> int \<Rightarrow> gofloat" where
  "amplification a b = (if 0 < b then ratio a b else Finite 0)"

definition sanitize :: "gofloat \<Rightarrow> gofloat" where
  "sanitize f = (case f of Finite x \<Rightarrow> Finite x | _ \<Rightarrow> Finite 0)"

text \<open>A sum over a map does not depend on its order.\<close>

definition live_data :: "(gostring \<times> int) list \<Rightarrow> int" where
  "live_data m = foldl (\<lambda>acc (key, valSize). i64 (acc + (int (length key) + valSize))) 0 m"

definition disk_size :: "runtime \<Rightarrow> outcome \<Rightarrow> bench \<Rightarrow> int" where
  "disk_size rt stat s =
     (case stat of
        Done \<Rightarrow> sf_size (b_file s)
      | Fault _ \<Rightarrow>
          foldl (\<lambda>acc seg. if \<not> IsObsolete (cells (fst (b_meta s)) seg)
                            then i64 (acc + Length (cells (fst (b_meta s)) seg)) else acc)
            0 (GetAllSegments rt (b_meta s)))"

definition make_results ::
  "runtime \<Rightarrow> world \<Rightarrow> flags \<Rightarrow> phase_result list \<Rightarrow> bench \<Rightarrow> results" where
  "make_results rt w fl phases s =
     (let wa = amplification (physicalBytes s) (userBytes s);
          ra = amplification (totalSegmentScans s) (totalReads s);
          logicalDataSize = live_data (liveKeys s);
          physicalDiskSize = disk_size rt (w_stat w) s;
          sa = amplification physicalDiskSize logicalDataSize;
          aggregatedComparisons = GlobalReadComparisons (b_globals s)
      in \<lparr>r_Engine = engineFlag fl, r_Workload = workloadFlag fl, r_NumKeys = numKeysFlag fl,
          r_ValueSize = valueSizeFlag fl, WriteAmplification = sanitize wa, ReadAmplification = sanitize ra,
          SpaceAmplification = sanitize sa, r_CompactionCount = compactionCount s,
          TotalDurationSec = w_dur w 0, r_LogicalBytes = logicalBytes s, r_PhysicalBytes = physicalBytes s,
          r_TotalReads = totalReads s, SegmentScans = totalSegmentScans s, LiveDataBytes = logicalDataSize,
          TotalDiskBytes = physicalDiskSize, Phases = phases, r_TotalComparisons = aggregatedComparisons,
          AvgComparisonsPerRead = amplification aggregatedComparisons (totalReads s),
          LogicalWriteBytes = logicalWriteBytes s,
          PhysicalWriteBytes = GlobalPhysicalWriteBytes (b_globals s),
          CompactionWriteBytes = GlobalCompactionWriteBytes (b_globals s)\<rparr>)"

text \<open>
  The result file: \<^verbatim>\<open>json.MarshalIndent\<close> fails on a float that is not finite, and an error of it or of
  \<^verbatim>\<open>os.WriteFile\<close> is a panic. What is saved is a name and the results.
\<close>

definition is_finite :: "gofloat \<Rightarrow> bool" where
  "is_finite f = (case f of Finite x \<Rightarrow> True | _ \<Rightarrow> False)"

definition can_marshal :: "results \<Rightarrow> bool" where
  "can_marshal r \<longleftrightarrow> list_all is_finite [WriteAmplification r, ReadAmplification r, SpaceAmplification r, AvgComparisonsPerRead r] \<and>
     list_all (\<lambda>ph. is_finite (ph_WA ph) \<and> is_finite (ph_RA ph)) (Phases r)"

definition save_results :: "outcome \<Rightarrow> results \<Rightarrow> (string \<times> results) option" where
  "save_results os r =
     (if can_marshal r
      then (case os of
              Done \<Rightarrow> Some (''results_'' @ r_Engine r @ ''_'' @ r_Workload r @ ''.json'', r)
            | Fault _ \<Rightarrow> None)
      else None)"

text \<open>\<^verbatim>\<open>main\<close>: \<open>None\<close> is a panic, \<open>Inl 1\<close> is \<^verbatim>\<open>os.Exit(1)\<close>.\<close>

definition main_run :: "runtime \<Rightarrow> world \<Rightarrow> flags \<Rightarrow> (int + string \<times> results) option" where
  "main_run rt w fl =
     (if \<not> flags_ok fl then Some (Inl 1)
      else do {
        s \<leftarrow> initial_bench w (memEntriesFlag fl);
        r \<leftarrow> run_workload rt w fl s;
        case r of
          None \<Rightarrow> Some (Inl 1)
        | Some (phases, s) \<Rightarrow> do {
            s \<leftarrow> background rt (w_closing w) s;
            out \<leftarrow> save_results (w_save w) (make_results rt w fl phases s);
            Some (Inr out) } })"

text \<open>Only the phases of \<^verbatim>\<open>shift\<close>, which are not guarded, can keep the results from being saved.\<close>

lemma sanitize_finite: "is_finite (sanitize f)"
  by (simp add: is_finite_def sanitize_def split: gofloat.split)

lemma ratio_finite: "0 < b \<Longrightarrow> is_finite (ratio a b)"
  using fl_pos_pos [of "of_int b"] by (simp add: ratio_def go_quotient_def of_int64_def fl64_pos is_finite_def)

lemma save_results_plain:
  assumes "list_all (\<lambda>ph. is_finite (ph_WA ph) \<and> is_finite (ph_RA ph)) phases"
  shows "save_results Done (make_results rt w fl phases s) =
    Some (''results_'' @ engineFlag fl @ ''_'' @ workloadFlag fl @ ''.json'', make_results rt w fl phases s)"
proof -
  have "is_finite (amplification a b)" for a b
    using ratio_finite [of b a] by (simp add: amplification_def) (simp add: is_finite_def)
  then show ?thesis
    using assms by (simp add: save_results_def can_marshal_def make_results_def Let_def sanitize_finite)
qed

end
