(* ===== verification/Workload_Events.thy ===== *)
theory Workload_Events
  imports Benchmark
begin

text \<open>
  Every workload of \<^verbatim>\<open>cmd/amethystd/main.go\<close> is a run of a few events: a put, a flush, a read, the
  two kinds of compaction and two updates of counters. What is proved of runs of events
  therefore holds of all workloads.
\<close>

section \<open>Events\<close>

datatype event =
  EvPut counting gostring iter_in
| EvFlush counting engine_env
| EvProbe gostring iter_in
| EvScans int
| EvTick tick_env
| EvCompact tick_env
| EvReset

fun bench_step :: "runtime \<Rightarrow> int \<Rightarrow> event \<Rightarrow> bench \<Rightarrow> bench option" where
  "bench_step rt vs (EvPut mode key i) s = put_step rt mode vs key i s"
| "bench_step rt vs (EvFlush mode env) s = flush_full rt mode False env s"
| "bench_step rt vs (EvProbe key i) s = map_option snd (probe_step rt key i s)"
| "bench_step rt vs (EvScans n) s = Some (add_scans n s)"
| "bench_step rt vs (EvTick k) s = bg_tick rt k s"
| "bench_step rt vs (EvCompact k) s = last_compaction rt k s"
| "bench_step rt vs EvReset s = Some (reset_bytes s)"

definition run_events :: "runtime \<Rightarrow> int \<Rightarrow> event list \<Rightarrow> bench \<Rightarrow> bench option" where
  "run_events rt vs evs s = each (bench_step rt vs) evs s"

lemma run_events_simps [simp]:
  "run_events rt vs [] s = Some s"
  "run_events rt vs (ev # evs) s = (case bench_step rt vs ev s of None \<Rightarrow> None | Some s' \<Rightarrow> run_events rt vs evs s')"
  by (simp_all add: run_events_def split: option.split)

lemma run_events_append:
  "run_events rt vs (xs @ ys) s = (case run_events rt vs xs s of None \<Rightarrow> None | Some s' \<Rightarrow> run_events rt vs ys s')"
  by (induction xs arbitrary: s) (auto split: option.split)

section \<open>Workloads are runs of events\<close>

text \<open>The events that the inputs \<open>w\<close> can give rise to; \<open>pr\<close> stands for the workload \<^verbatim>\<open>pure-read\<close>.\<close>

fun event_of :: "(nat \<Rightarrow> inputs) \<Rightarrow> tick_env set \<Rightarrow> int \<Rightarrow> bool \<Rightarrow> event \<Rightarrow> bool" where
  "event_of ins fin n pr (EvPut mode key i) \<longleftrightarrow>
     (\<exists>p j. i = ins p j) \<and> (\<exists>x. int x < n \<and> key = key_name x) \<and> (mode = CountNone \<longrightarrow> pr)"
| "event_of ins fin n pr (EvFlush mode env) \<longleftrightarrow> (mode = CountNone \<longrightarrow> pr)"
| "event_of ins fin n pr (EvProbe key i) \<longleftrightarrow> (\<exists>p j. i = ins p j)"
| "event_of ins fin n pr (EvScans k) \<longleftrightarrow> True"
| "event_of ins fin n pr (EvTick k) \<longleftrightarrow> (\<exists>p j. k \<in> set (it_ticks (ins p j)))"
| "event_of ins fin n pr (EvCompact k) \<longleftrightarrow> k \<in> fin"
| "event_of ins fin n pr EvReset \<longleftrightarrow> pr"

definition event_run :: "runtime \<Rightarrow> int \<Rightarrow> (event \<Rightarrow> bool) \<Rightarrow> bench \<Rightarrow> bench \<Rightarrow> bool" where
  "event_run rt vs ok s s' \<longleftrightarrow> (\<exists>evs. list_all ok evs \<and> run_events rt vs evs s = Some s')"

lemma event_run_refl [simp]: "event_run rt vs ok s s"
  unfolding event_run_def by (rule exI [of _ "[]"]) simp

lemma event_run_trans [trans]: "event_run rt vs ok s s' \<Longrightarrow> event_run rt vs ok s' s'' \<Longrightarrow> event_run rt vs ok s s''"
  unfolding event_run_def by (metis (no_types, lifting) list_all_append option.simps(5) run_events_append)

lemma event_run_step: "ok ev \<Longrightarrow> bench_step rt vs ev s = Some s' \<Longrightarrow> event_run rt vs ok s s'"
  unfolding event_run_def by (rule exI [of _ "[ev]"]) simp

lemma each_run:
  assumes "each body xs a = Some a'" "\<And>x a a'. x \<in> set xs \<Longrightarrow> body x a = Some a' \<Longrightarrow> event_run rt vs ok (st a) (st a')"
  shows "event_run rt vs ok (st a) (st a')"
  using assms
proof (induction xs arbitrary: a)
  case (Cons x xs)
  obtain a1 where a1: "body x a = Some a1" "each body xs a1 = Some a'"
    using Cons.prems(1) by (auto split: option.splits)
  have "event_run rt vs ok (st a) (st a1)" using a1(1) by (rule Cons.prems(2) [rotated]) simp
  also have "event_run rt vs ok (st a1) (st a')"
    by (rule Cons.IH [OF a1(2)]) (rule Cons.prems(2), simp_all)
  finally show ?case .
qed simp

lemma loop_run:
  assumes "for_range n body a = Some a'"
    "\<And>i a a'. int i < n \<Longrightarrow> body i a = Some a' \<Longrightarrow> event_run rt vs ok (st a) (st a')"
  shows "event_run rt vs ok (st a) (st a')"
  by (rule each_run [OF assms(1) [unfolded for_range_def]]) (rule assms(2), simp_all)

abbreviation workload_run ::
  "runtime \<Rightarrow> int \<Rightarrow> (nat \<Rightarrow> inputs) \<Rightarrow> tick_env set \<Rightarrow> int \<Rightarrow> bool \<Rightarrow> bench \<Rightarrow> bench \<Rightarrow> bool" where
  "workload_run rt vs ins fin n pr \<equiv> event_run rt vs (event_of ins fin n pr)"

definition input_of :: "(nat \<Rightarrow> inputs) \<Rightarrow> iter_in \<Rightarrow> bool" where
  "input_of ins i \<longleftrightarrow> (\<exists>p j. i = ins p j)"

lemma input_of_stream [simp, intro]: "input_of ins (ins p j)" "input_of ins (after k (ins p))"
  by (auto simp: input_of_def after_def)

lemma background_run:
  assumes "background rt i s = Some s'" "input_of ins i"
  shows "workload_run rt vs ins fin n pr s s'"
  using assms(1) unfolding background_def
proof (rule each_run [where st = "\<lambda>s. s"])
  fix k a a' assume "k \<in> set (it_ticks i)" "bg_tick rt k a = Some a'"
  then show "workload_run rt vs ins fin n pr a a'"
    using assms(2) by (intro event_run_step [of _ "EvTick k"]) (auto simp: input_of_def)
qed

lemma put_run:
  "put_step rt mode vs (key_name x) i s = Some s' \<Longrightarrow> input_of ins i \<Longrightarrow> int x < n \<Longrightarrow> (mode = CountNone \<longrightarrow> pr) \<Longrightarrow>
   workload_run rt vs ins fin n pr s s'"
  by (rule event_run_step [of _ "EvPut mode (key_name x) i"]) (auto simp: input_of_def)

lemma flush_run:
  "flush_full rt mode False env s = Some s' \<Longrightarrow> (mode = CountNone \<longrightarrow> pr) \<Longrightarrow>
   workload_run rt vs ins fin n pr s s'"
  by (rule event_run_step [of _ "EvFlush mode env"]) auto

lemma probe_run:
  "probe_step rt key i s = Some (k, s') \<Longrightarrow> input_of ins i \<Longrightarrow> workload_run rt vs ins fin n pr s s'"
  by (rule event_run_step [of _ "EvProbe key i"]) (auto simp: input_of_def)

lemma scans_run: "workload_run rt vs ins fin n pr s (add_scans k s)"
  by (rule event_run_step [of _ "EvScans k"]) auto

lemma read_run:
  assumes "read_step rt key i s = Some s'" "input_of ins i"
  shows "workload_run rt vs ins fin n pr s s'"
proof -
  obtain k s1 where k: "probe_step rt key i s = Some (k, s1)" "s' = add_scans k s1"
    using assms by (auto simp: read_step_def)
  show ?thesis unfolding k(2) using probe_run [OF k(1) assms(2)] scans_run by (rule event_run_trans)
qed

lemma compact_run:
  "last_compaction rt k s = Some s' \<Longrightarrow> k \<in> fin \<Longrightarrow> workload_run rt vs ins fin n pr s s'"
  by (rule event_run_step [of _ "EvCompact k"]) auto

lemma rand_intn_Some:
  assumes "rand_intn n draw = Some x"
  shows "int x < n"
proof -
  have "0 < n" "x = draw mod nat n" using assms by (auto simp: rand_intn_def split: if_splits)
  then have "x < nat n" by simp
  then show ?thesis by linarith
qed

lemma random_put_run:
  "random_put rt n vs i s = Some s' \<Longrightarrow> input_of ins i \<Longrightarrow> workload_run rt vs ins fin n pr s s'"
  by (auto simp: random_put_def bind_eq_Some_conv dest!: rand_intn_Some intro: put_run)

lemma random_read_run:
  "random_read rt n i s = Some s' \<Longrightarrow> input_of ins i \<Longrightarrow> workload_run rt vs ins fin n pr s s'"
  by (auto simp: random_read_def bind_eq_Some_conv intro: read_run)

text \<open>A loop whose iterations begin with the background's compactions.\<close>

lemma background_loop_run:
  assumes "for_range k (\<lambda>i s. background rt (str i) s \<bind> body i) s = Some s'" "\<And>j. input_of ins (str j)"
    "\<And>i s s'. int i < k \<Longrightarrow> body i s = Some s' \<Longrightarrow> workload_run rt vs ins fin n pr s s'"
  shows "workload_run rt vs ins fin n pr s s'"
  using assms(1)
proof (rule loop_run [where st = "\<lambda>s. s"])
  fix i a a' assume i: "int i < k" "background rt (str i) a \<bind> body i = Some a'"
  then obtain a1 where a1: "background rt (str i) a = Some a1" "body i a1 = Some a'"
    by (auto simp: bind_eq_Some_conv)
  show "workload_run rt vs ins fin n pr a a'"
    by (rule event_run_trans [OF background_run [OF a1(1) assms(2)] assms(3) [OF i(1) a1(2)]])
qed

lemma populate_run:
  assumes "populate rt mode n vs (ins p) s = Some s'" "mode = CountNone \<longrightarrow> pr"
  shows "workload_run rt vs ins fin n pr s s'"
  using assms(1) unfolding populate_def
  by (rule background_loop_run) (use assms(2) in \<open>auto intro: put_run\<close>)

lemma shift_phase1_run:
  assumes "shift_phase1 rt n vs (ins p) (ins q) s = Some s'"
  shows "workload_run rt vs ins fin n pr s s'"
proof -
  obtain s1 s2 where *: "populate rt CountAll n vs (ins p) s = Some s1"
    "for_range (n sdiv 2) (\<lambda>i s. background rt (ins q i) s \<bind> random_put rt n vs (ins q i)) s1 = Some s2"
    "flush_full rt CountAll False (it_env (after (n sdiv 2) (ins q))) s2 = Some s'"
    using assms by (auto simp: shift_phase1_def Let_def bind_eq_Some_conv)
  have "workload_run rt vs ins fin n pr s s1" using *(1) by (rule populate_run) simp
  also have "workload_run rt vs ins fin n pr s1 s2"
    using *(2) by (rule background_loop_run) (auto intro: random_put_run)
  also have "workload_run rt vs ins fin n pr s2 s'" using *(3) by (rule flush_run) simp
  finally show ?thesis .
qed

lemma shift_phase2_run:
  assumes "shift_phase2 rt n (ins p) s = Some (k, s')"
  shows "workload_run rt vs ins fin n pr s s'"
  using loop_run [OF assms [unfolded shift_phase2_def], of rt vs "event_of ins fin n pr" snd]
  by (fastforce simp: Let_def bind_eq_Some_conv intro: event_run_trans [OF background_run probe_run])

lemma shift_phase3_run:
  assumes "shift_phase3 rt n vs (ins p) s = Some s'"
  shows "workload_run rt vs ins fin n pr s s'"
proof -
  obtain s1 where *:
    "for_range (n sdiv 2) (\<lambda>i s. background rt (ins p i) s \<bind> random_put rt n vs (ins p i)) s = Some s1"
    "flush_full rt CountAll False (it_env (after (n sdiv 2) (ins p))) s1 = Some s'"
    using assms by (auto simp: shift_phase3_def bind_eq_Some_conv)
  have "workload_run rt vs ins fin n pr s s1"
    using *(1) by (rule background_loop_run) (auto intro: random_put_run)
  also have "workload_run rt vs ins fin n pr s1 s'" using *(2) by (rule flush_run) simp
  finally show ?thesis .
qed

lemma shift_phase4_run:
  assumes "shift_phase4 rt n (ins p) s = Some (k, m, s')"
  shows "workload_run rt vs ins fin n pr s s'"
  using loop_run [OF assms [unfolded shift_phase4_def], of rt vs "event_of ins fin n pr" "\<lambda>x. snd (snd x)"]
  by (fastforce simp: Let_def bind_eq_Some_conv intro: event_run_trans [OF background_run probe_run])

lemma runShift_run:
  assumes "runShift rt dur n vs ins s = Some (ph, s')"
  shows "workload_run rt vs ins fin n pr s s'"
proof -
  obtain s1 s2 k2 s3 s4 s5 s6 k4 m4 s7 where *:
    "shift_phase1 rt n vs (ins 0) (ins 1) s = Some s1" "background rt (after (n sdiv 2) (ins 1)) s1 = Some s2"
    "shift_phase2 rt n (ins 2) s2 = Some (k2, s3)" "background rt (after n (ins 2)) (add_scans k2 s3) = Some s4"
    "shift_phase3 rt n vs (ins 3) s4 = Some s5" "background rt (after (n sdiv 2) (ins 3)) s5 = Some s6"
    "shift_phase4 rt n (ins 4) s6 = Some (k4, m4, s7)"
    "background rt (after (i64 (n * 3)) (ins 4)) (add_scans k4 s7) = Some s'"
    using assms by (auto simp: runShift_def Let_def bind_eq_Some_conv)
  have "workload_run rt vs ins fin n pr s s1" using *(1) by (rule shift_phase1_run)
  also have "workload_run rt vs ins fin n pr s1 s2" by (rule background_run [OF *(2)]) simp
  also have "workload_run rt vs ins fin n pr s2 s3" using *(3) by (rule shift_phase2_run)
  also have "workload_run rt vs ins fin n pr s3 (add_scans k2 s3)" by (rule scans_run)
  also have "workload_run rt vs ins fin n pr (add_scans k2 s3) s4" by (rule background_run [OF *(4)]) simp
  also have "workload_run rt vs ins fin n pr s4 s5" using *(5) by (rule shift_phase3_run)
  also have "workload_run rt vs ins fin n pr s5 s6" by (rule background_run [OF *(6)]) simp
  also have "workload_run rt vs ins fin n pr s6 s7" using *(7) by (rule shift_phase4_run)
  also have "workload_run rt vs ins fin n pr s7 (add_scans k4 s7)" by (rule scans_run)
  also have "workload_run rt vs ins fin n pr (add_scans k4 s7) s'" by (rule background_run [OF *(8)]) simp
  finally show ?thesis .
qed

lemma runPureWrite_run:
  assumes "runPureWrite rt n vs ins s = Some s'"
  shows "workload_run rt vs ins fin n pr s s'"
proof -
  obtain s1 s2 where *: "populate rt CountAll n vs (ins 0) s = Some s1"
    "flush_full rt CountAll False (it_env (after n (ins 0))) s1 = Some s2"
    "background rt (after n (ins 0)) s2 = Some s'"
    using assms by (auto simp: runPureWrite_def bind_eq_Some_conv)
  have "workload_run rt vs ins fin n pr s s1" using *(1) by (rule populate_run) simp
  also have "workload_run rt vs ins fin n pr s1 s2" using *(2) by (rule flush_run) simp
  also have "workload_run rt vs ins fin n pr s2 s'" using *(3) by (rule background_run) simp
  finally show ?thesis .
qed

lemma runPureRead_run:
  assumes "runPureRead rt n vs ins s = Some s'"
  shows "workload_run rt vs ins fin n True s s'"
proof -
  obtain s1 s2 where *: "populate rt CountNone n vs (ins 0) s = Some s1"
    "flush_full rt CountNone False (it_env (after n (ins 0))) s1 = Some s2"
    "for_range (i64 (n * 3)) (\<lambda>i s. background rt (ins 1 i) s \<bind> random_read rt n (ins 1 i)) (reset_bytes s2) = Some s'"
    using assms by (auto simp: runPureRead_def Let_def bind_eq_Some_conv)
  have "workload_run rt vs ins fin n True s s1" using *(1) by (rule populate_run) simp
  also have "workload_run rt vs ins fin n True s1 s2" using *(2) by (rule flush_run) simp
  also have "workload_run rt vs ins fin n True s2 (reset_bytes s2)"
    by (rule event_run_step [of _ EvReset]) simp_all
  also have "workload_run rt vs ins fin n True (reset_bytes s2) s'"
    using *(3) by (rule background_loop_run) (auto intro: random_read_run)
  finally show ?thesis .
qed

text \<open>The three workloads that populate, run operations and compact.\<close>

lemma operations_run:
  assumes "populate rt CountPopulate n vs (ins 0) s = Some s1"
    "flush_full rt CountPopulate False (it_env (after n (ins 0))) s1 = Some s2"
    "for_range k (\<lambda>i s. background rt (ins 1 i) s \<bind> body i) s2 = Some s3"
    "background rt (after k (ins 1)) s3 = Some s4" "last_compaction rt final s4 = Some s'" "final \<in> fin"
    and body: "\<And>i s s'. body i s = Some s' \<Longrightarrow> random_put rt n vs (ins 1 i) s = Some s' \<or> random_read rt n (ins 1 i) s = Some s'"
  shows "workload_run rt vs ins fin n pr s s'"
proof -
  have "workload_run rt vs ins fin n pr s s1" using assms(1) by (rule populate_run) simp
  also have "workload_run rt vs ins fin n pr s1 s2" using assms(2) by (rule flush_run) simp
  also have "workload_run rt vs ins fin n pr s2 s3"
    using assms(3) by (rule background_loop_run) (auto dest!: body intro: random_put_run random_read_run)
  also have "workload_run rt vs ins fin n pr s3 s4" using assms(4) by (rule background_run) simp
  also have "workload_run rt vs ins fin n pr s4 s'" using assms(5,6) by (rule compact_run)
  finally show ?thesis .
qed

lemma runMixed_run:
  "runMixed rt final n vs ins s = Some s' \<Longrightarrow> workload_run rt vs ins {final} n pr s s'"
  by (auto simp: runMixed_def Let_def bind_eq_Some_conv intro!: operations_run split: if_splits)

lemma runReadHeavy_run:
  "runReadHeavy rt final n vs ins s = Some s' \<Longrightarrow> workload_run rt vs ins {final} n pr s s'"
  by (auto simp: runReadHeavy_def Let_def bind_eq_Some_conv intro!: operations_run split: if_splits)

lemma runWriteHeavy_run:
  "runWriteHeavy rt final n vs ins s = Some s' \<Longrightarrow> workload_run rt vs ins {final} n pr s s'"
  by (auto simp: runWriteHeavy_def Let_def bind_eq_Some_conv intro!: operations_run split: if_splits)

lemma runZipfian_run:
  assumes "runZipfian rt pow n vs ins s = Some s'"
  shows "workload_run rt vs ins fin n pr s s'"
proof -
  obtain s1 s2 s3 where *: "populate rt CountAll n vs (ins 0) s = Some s1"
    "flush_full rt CountAll False (it_env (after n (ins 0))) s1 = Some s2"
    "for_range (i64 (n * 3)) (\<lambda>i s. background rt (ins 1 i) s \<bind>
       read_step rt (key_name (nat (zipfian pow (it_unit (ins 1 i)) n (3 / 2)))) (ins 1 i)) s2 = Some s3"
    "background rt (after (i64 (n * 3)) (ins 1)) s3 = Some s'"
    using assms by (auto simp: runZipfian_def Let_def bind_eq_Some_conv)
  have "workload_run rt vs ins fin n pr s s1" using *(1) by (rule populate_run) simp
  also have "workload_run rt vs ins fin n pr s1 s2" using *(2) by (rule flush_run) simp
  also have "workload_run rt vs ins fin n pr s2 s3"
    using *(3) by (rule background_loop_run) (auto intro: read_run)
  also have "workload_run rt vs ins fin n pr s3 s'" using *(4) by (rule background_run) simp
  finally show ?thesis .
qed

lemma run_workload_run:
  assumes "run_workload rt w fl s = Some (Some (ph, s'))"
  shows "workload_run rt (valueSizeFlag fl) (w_ins w) {w_final w} (numKeysFlag fl) (workloadFlag fl = ''pure-read'') s s'"
  using assms
  by (auto simp: run_workload_def Let_def split: if_splits
      intro: runShift_run runPureWrite_run runPureRead_run runMixed_run runReadHeavy_run runWriteHeavy_run
        runZipfian_run)

end
