(* ===== verification/Component_Effects.thy ===== *)
theory Component_Effects
  imports Executor
begin

text \<open>
  What the operations of the reader and the executor leave unchanged in every case, failed calls
  included: the bytes of the file, the identity, place and level of a segment; and what an execution
  writes and when it returns, from the contract \<open>compaction_io\<close>; and that one that fails loses nothing.
  The theories of the command rest on these facts.
\<close>

section \<open>Reads keep the bytes of the file\<close>

definition same_file :: "segfile \<Rightarrow> segfile \<Rightarrow> bool" where
  "same_file s s' \<longleftrightarrow> sf_inv s' \<and> sf_bytes s' = sf_bytes s \<and> sf_closed s' = sf_closed s"

lemma same_file_trans [trans]: "same_file a b \<Longrightarrow> same_file b c \<Longrightarrow> same_file a c"
  by (simp add: same_file_def)

lemma same_file_refl: "sf_inv s \<Longrightarrow> same_file s s"
  by (simp add: same_file_def)

lemma same_file_inv: "same_file s s' \<Longrightarrow> sf_inv s'"
  by (simp add: same_file_def)

lemma same_file_mmap: "sf_inv s \<Longrightarrow> mmap_bytes os s = (r, s') \<Longrightarrow> same_file s s'"
  using mmap_bytes_keeps unfolding same_file_def by blast

lemma get_body_file:
  assumes "sf_inv s" "get_body os m k s = Some (x, s')"
  shows "same_file s s'"
proof -
  obtain r s1 where r: "mmap_bytes os s = (r, s1)" by fastforce
  have "P None \<Longrightarrow> P (Some s) \<Longrightarrow> P (Some s1) \<Longrightarrow> P (map_option snd (get_body os m k s))" for P
    by (cases m; cases r) (auto simp: get_body_def r Let_def split: option.split prod.split)
  from this [of "\<lambda>x. x \<in> {None, Some s, Some s1}"]
  have "map_option snd (get_body os m k s) \<in> {None, Some s, Some s1}" by blast
  then have "s' = s \<or> s' = s1" using assms(2) by auto
  then show ?thesis using same_file_mmap [OF assms(1) r] same_file_refl [OF assms(1)] by auto
qed

lemma reader_Get_frame:
  assumes "sf_inv s" "reader_Get os (Some m) k s g = Some (x, m', s', g')"
  shows "same_file s s' \<and> (\<exists>n. m' = Some (m\<lparr>TotalComparisons := n\<rparr>)) \<and>
    GlobalPhysicalWriteBytes g' = GlobalPhysicalWriteBytes g \<and>
    GlobalCompactionWriteBytes g' = GlobalCompactionWriteBytes g"
proof -
  have keep: "\<exists>n. m = m\<lparr>TotalComparisons := n\<rparr>"
    by (rule exI [of _ "TotalComparisons m"]) simp
  obtain r c commit where b: "get_body os (Some m) k s = Some ((r, c, commit), s')"
    using assms(2) by (auto simp: reader_Get_def Let_def split: option.splits)
  then show ?thesis
    using assms(2) get_body_file [OF assms(1) b] keep
    by (cases commit) (auto simp: reader_Get_def Let_def)
qed

lemma reader_Scan_file: "sf_inv s \<Longrightarrow> reader_Scan os os2 m s = (x, s') \<Longrightarrow> same_file s s'"
  using scan_method_file [of s os os2 m x s'] by (simp add: same_file_def scan_method_eq)

lemma handler_loop_frame:
  assumes "sf_inv s" "handler_loop (reader_Get os) k segs stt s g = Some (x, stt', s', g')"
  shows "stats_step stt stt' \<and> same_file s s' \<and>
    GlobalPhysicalWriteBytes g' = GlobalPhysicalWriteBytes g \<and>
    GlobalCompactionWriteBytes g' = GlobalCompactionWriteBytes g"
  using assms
proof (induction segs arbitrary: stt s g)
  case (Cons seg segs)
  let ?m = "cells (fst stt) seg"
  obtain val ok m1 s1 g1 where get: "reader_Get os (Some ?m) k s g = Some ((val, ok), m1, s1, g1)"
    using Cons.prems(2) by (auto split: option.splits)
  obtain n where fr: "same_file s s1" "m1 = Some (?m\<lparr>TotalComparisons := n\<rparr>)"
    "GlobalPhysicalWriteBytes g1 = GlobalPhysicalWriteBytes g"
    "GlobalCompactionWriteBytes g1 = GlobalCompactionWriteBytes g"
    using reader_Get_frame [OF Cons.prems(1) get] by blast
  define st1 where "st1 = upd_cell seg (\<lambda>_. ?m\<lparr>TotalComparisons := n\<rparr>) (fst stt)"
  define stt1 where "stt1 = UpdateStats (ID (cells st1 seg)) 1 0 (st1, snd stt)"
  have "stats_step (fst stt, snd stt) (st1, snd stt)" unfolding st1_def by (rule stats_step_upd_cell) simp
  then have st: "stats_step stt stt1"
    unfolding stt1_def using stats_step_UpdateStats stats_step_trans by (metis prod.collapse)
  have "(if ok then Some ((val, True), stt1, s1, g1) else handler_loop (reader_Get os) k segs stt1 s1 g1)
      = Some (x, stt', s', g')"
    using Cons.prems(2) by (auto simp: get store_back_def fr(2) Let_def st1_def stt1_def)
  then show ?case
    using fr(1,3,4) st Cons.IH [OF same_file_inv [OF fr(1)], of stt1 g1] stats_step_trans [OF st, of stt']
      same_file_trans [OF fr(1), of s']
    by (cases ok) auto
qed (simp add: same_file_refl)

section \<open>What no operation changes of a segment\<close>

definition fixed_part :: "segment_meta \<Rightarrow> segment_meta" where
  "fixed_part m = m\<lparr>TotalComparisons := 0, readCount := 0, writeCount := 0, OverlapCount := 0,
     InCompaction := False, obsolete := False\<rparr>"

lemma fixed_part_fields:
  assumes "fixed_part m' = fixed_part m"
  shows "ID m' = ID m" "Level m' = Level m" "Length m' = Length m" "Offset m' = Offset m"
    "MinKey m' = MinKey m" "MaxKey m' = MaxKey m"
  using assms by (cases m; cases m'; simp add: fixed_part_def)+

lemma fixed_part_simps [simp]:
  "fixed_part (m\<lparr>TotalComparisons := n\<rparr>) = fixed_part m" "fixed_part (m\<lparr>OverlapCount := n\<rparr>) = fixed_part m"
  "fixed_part (m\<lparr>InCompaction := f\<rparr>) = fixed_part m" "fixed_part (m\<lparr>obsolete := f\<rparr>) = fixed_part m"
  "fixed_part (MarkObsolete m) = fixed_part m"
  by (simp_all add: fixed_part_def MarkObsolete_def)

lemma stats_only_fixed: "stats_only m m' \<Longrightarrow> fixed_part m' = fixed_part m"
  by (cases m; cases m'; simp add: stats_only_def no_stats_def fixed_part_def)

text \<open>The tracker and the store before and after an operation that registers nothing.\<close>

definition same_segments :: "store \<times> tracker \<Rightarrow> store \<times> tracker \<Rightarrow> bool" where
  "same_segments stt stt' \<longleftrightarrow> ordered (snd stt') = ordered (snd stt) \<and> fresh (fst stt') = fresh (fst stt) \<and>
     (\<forall>r. fixed_part (cells (fst stt') r) = fixed_part (cells (fst stt) r))"

lemma same_segments_refl [simp]: "same_segments stt stt"
  by (simp add: same_segments_def)

lemma same_segments_trans [trans]: "same_segments a b \<Longrightarrow> same_segments b c \<Longrightarrow> same_segments a c"
  by (simp add: same_segments_def)

lemma same_segments_stats: "stats_step stt stt' \<Longrightarrow> same_segments stt stt'"
  by (simp add: same_segments_def stats_step_def stats_only_fixed)

lemma same_segments_flags: "same_segments (st, t) (set_flags b rs st, t)"
  by (simp add: same_segments_def)

lemma same_segments_upd: "(\<And>m. fixed_part (f m) = fixed_part m) \<Longrightarrow> same_segments (st, t) (upd_cell r f st, t)"
  by (simp add: same_segments_def)

lemma same_segments_retire: "same_segments stt (retire_inputs rs stt)"
proof (induction rs arbitrary: stt)
  case (Cons r rs)
  obtain st t where stt: "stt = (st, t)" by fastforce
  let ?stt1 = "(upd_cell r MarkObsolete st, t)"
  let ?stt2 = "tracker_MarkObsolete (ID (cells st r)) ?stt1"
  have "same_segments (st, t) ?stt1" by (rule same_segments_upd) simp
  also have "same_segments ?stt1 ?stt2"
    by (auto simp: tracker_MarkObsolete_def split: option.splits intro: same_segments_upd)
  also have "same_segments ?stt2 (retire_inputs rs ?stt2)" by (rule Cons.IH)
  finally show ?case by (simp add: stt retire_inputs_def)
qed (simp add: retire_inputs_def)

text \<open>An operation that registers one segment, described by \<open>m\<close>.\<close>

definition one_more :: "store \<times> tracker \<Rightarrow> segment_meta \<Rightarrow> ref \<Rightarrow> store \<times> tracker \<Rightarrow> bool" where
  "one_more stt m new stt' \<longleftrightarrow> new = fresh (fst stt) \<and> fresh (fst stt') = Suc new \<and>
     ordered (snd stt') = new # ordered (snd stt) \<and> fixed_part (cells (fst stt') new) = fixed_part m \<and>
     (\<forall>r. r \<noteq> new \<longrightarrow> fixed_part (cells (fst stt') r) = fixed_part (cells (fst stt) r))"

lemma one_more_same:
  "same_segments a b \<Longrightarrow> one_more b m r c \<Longrightarrow> one_more a m r c"
  "one_more a m r b \<Longrightarrow> same_segments b c \<Longrightarrow> one_more a m r c"
  by (auto simp: same_segments_def one_more_def)

lemma one_more_Register:
  "alloc m st = (r, st1) \<Longrightarrow> one_more (st, t) m r (RegisterSegment rt r (st1, t))"
  by (auto simp: one_more_def alloc_def RegisterSegment_def Let_def)

section \<open>What an execution does in any case\<close>

lemma Execute_registers:
  assumes "Execute rt scan wr p (st, t) s g = Some (Inr new, stt', s', g')"
  shows "\<exists>es s1 m. snd (snd (merge_inputs rt scan (map the (Inputs p)) [] (set_flags True (map the (Inputs p)) st, t) s)) = s1 \<and>
    es = final_entries rt (fst (merge_inputs rt scan (map the (Inputs p)) [] (set_flags True (map the (Inputs p)) st, t) s)) \<and>
    wr es (OutputStrategy p) (TargetLevel p) s1 g = Some (Inr (Some m), s', g') \<and> one_more (st, t) m new stt'"
proof -
  let ?rs = "map the (Inputs p)"
  obtain merged stt1 s1 where mg: "merge_inputs rt scan ?rs [] (set_flags True ?rs st, t) s = (merged, stt1, s1)"
    by (metis prod.collapse)
  have valid: "validate st 0 (Inputs p) = None"
    using assms by (auto simp: Execute_def split: option.splits)
  obtain m st2 where w: "wr (final_entries rt merged) (OutputStrategy p) (TargetLevel p) s1 g = Some (Inr (Some m), s', g')"
    and al: "alloc m (fst stt1) = (new, st2)"
    and stt': "stt' = (set_flags False ?rs (fst (retire_inputs ?rs (RegisterSegment rt new (st2, snd stt1)))),
        snd (retire_inputs ?rs (RegisterSegment rt new (st2, snd stt1))))"
    using assms unfolding Execute_def fst_conv snd_conv valid option.case Let_def mg prod.case
    by (auto split: option.splits sum.splits prod.splits)
  have "same_segments (st, t) (set_flags True ?rs st, t)" by (rule same_segments_flags)
  also have "same_segments \<dots> stt1"
    using merge_inputs_stats [of "(set_flags True ?rs st, t)" rt scan ?rs "[]" s] by (simp add: mg same_segments_stats)
  finally have pre: "same_segments (st, t) stt1" .
  have "one_more stt1 m new (RegisterSegment rt new (st2, snd stt1))"
    using one_more_Register [OF al, of "snd stt1"] by simp
  from one_more_same(1) [OF pre this]
  have "one_more (st, t) m new (retire_inputs ?rs (RegisterSegment rt new (st2, snd stt1)))"
    by (rule one_more_same(2)) (rule same_segments_retire)
  then have "one_more (st, t) m new stt'"
    unfolding stt' by (rule one_more_same(2)) (metis prod.collapse same_segments_flags)
  then show ?thesis using w mg by auto
qed

lemma merge_inputs_file:
  "sf_inv s \<Longrightarrow> same_file s (snd (snd (merge_inputs rt (reader_Scan o1 o2) rs merged stt s)))"
proof (induction rs arbitrary: merged stt s)
  case (Cons r rs)
  show ?case
  proof (cases "IsObsolete (cells (fst stt) r) \<or> \<not> InCompaction (cells (fst stt) r)")
    case True
    then show ?thesis using Cons by simp
  next
    case False
    obtain q s1 where q: "reader_Scan o1 o2 (Some (cells (fst stt) r)) s = (q, s1)" by fastforce
    have s1: "same_file s s1" by (rule reader_Scan_file [OF Cons.prems q])
    show ?thesis
      using False q Cons.IH [OF same_file_inv [OF s1]] same_file_trans [OF s1]
      by (cases q) auto
  qed
qed (simp add: same_file_refl)

lemma Execute_failed:
  assumes "Execute rt scan wr p (st, t) s g = Some (Inl err, stt', s', g')"
  shows "same_segments (st, t) stt' \<and> ((s', g') = (s, g) \<or>
    (\<exists>es e. wr es (OutputStrategy p) (TargetLevel p)
       (snd (snd (merge_inputs rt scan (map the (Inputs p)) [] (set_flags True (map the (Inputs p)) st, t) s))) g =
     Some (Inl e, s', g')))"
proof (cases "validate st 0 (Inputs p)")
  case (Some e)
  then show ?thesis using assms by (simp add: Execute_def)
next
  case None
  let ?rs = "map the (Inputs p)"
  obtain merged stt1 s1 where mg: "merge_inputs rt scan ?rs [] (set_flags True ?rs st, t) s = (merged, stt1, s1)"
    by (metis prod.collapse)
  have "same_segments (st, t) (set_flags True ?rs st, t)" by (rule same_segments_flags)
  also have "same_segments \<dots> stt1"
    using merge_inputs_stats [of "(set_flags True ?rs st, t)" rt scan ?rs "[]" s] by (simp add: mg same_segments_stats)
  also have "same_segments stt1 (set_flags False ?rs (fst stt1), snd stt1)"
    by (metis prod.collapse same_segments_flags)
  finally have "same_segments (st, t) (set_flags False ?rs (fst stt1), snd stt1)" .
  then show ?thesis
    using assms by (auto simp: Execute_def None mg Let_def split: option.splits sum.splits prod.splits)
qed

context compaction_io
begin

text \<open>What an execution writes, and when it returns.\<close>

lemma merge_of_inputs:
  assumes "ready s" "Inputs p = map Some rs" "\<forall>i \<in> set (Inputs p). input_ok st i"
    "\<forall>r \<in> set rs. holds s (cells st r) (runs r)"
  obtains merged stt1 s1 where
    "merge_inputs rt scan (map the (Inputs p)) [] (set_flags True (map the (Inputs p)) st, t) s = (merged, stt1, s1)"
    "represents merged (merged_values (map runs rs))" "ready s1"
proof -
  let ?st0 = "set_flags True rs st"
  have rs: "map the (Inputs p) = rs" by (simp add: assms(2) comp_def)
  have in0: "\<forall>r \<in> set rs. holds s (cells (fst (?st0, t)) r) (runs r) \<and>
      \<not> obsolete (cells (fst (?st0, t)) r) \<and> InCompaction (cells (fst (?st0, t)) r)"
    using assms(2-4) by (auto simp: holds_frame input_ok_def)
  have "represents [] Map.empty" by (simp add: represents_def)
  from merge_inputs_ok [OF assms(1) this in0] that show thesis
    unfolding merged_values_def rs by blast
qed

lemma Execute_output:
  assumes "ready s" "Inputs p = map Some rs" "\<forall>r \<in> set rs. holds s (cells st r) (runs r)"
    and ex: "Execute rt scan wr p (st, t) s g = Some (Inr new, stt', s', g')"
  shows "\<exists>E s1 m. sorted_run E \<and>
    (\<forall>k. run_map E k = map_option (\<lambda>v. live_entry k (Some v)) (merged_values (map runs rs) k)) \<and>
    wr E (OutputStrategy p) (TargetLevel p) s1 g = Some (Inr (Some m), s', g') \<and> one_more (st, t) m new stt'"
proof -
  have "\<forall>i \<in> set (Inputs p). input_ok st i" using Execute_valid [OF ex] by simp
  from merge_of_inputs [OF assms(1,2) this assms(3), of t] obtain merged stt1 s1 where
    mg: "merge_inputs rt scan (map the (Inputs p)) [] (set_flags True (map the (Inputs p)) st, t) s = (merged, stt1, s1)"
    and rep: "represents merged (merged_values (map runs rs))" by blast
  from Execute_registers [OF ex] obtain m where
    "wr (final_entries rt merged) (OutputStrategy p) (TargetLevel p) s1 g = Some (Inr (Some m), s', g')"
    "one_more (st, t) m new stt'" by (auto simp: mg)
  then show ?thesis using final_entries_run(1,2) [OF rep] by blast
qed

lemma Execute_writes:
  assumes "ready s" "Inputs p = map Some rs" "\<forall>r \<in> set rs. input_ok st (Some r)" "\<forall>r \<in> set rs. holds s (cells st r) (runs r)"
  shows "\<exists>E s1. sorted_run E \<and> ready s1 \<and>
    (\<forall>k. run_map E k = map_option (\<lambda>v. live_entry k (Some v)) (merged_values (map runs rs) k)) \<and>
    (\<forall>r s2 g2. wr E (OutputStrategy p) (TargetLevel p) s1 g = Some (r, s2, g2) \<longrightarrow> r \<noteq> Inr None \<longrightarrow>
       (\<exists>q x. Execute rt scan wr p (st, t) s g = Some (q, x) \<and> isl q = isl r))"
proof -
  have valid: "\<forall>i \<in> set (Inputs p). input_ok st i" using assms(2,3) by auto
  then have None: "validate st 0 (Inputs p) = None" by (simp add: validate_None)
  from merge_of_inputs [OF assms(1,2) valid assms(4), of t] obtain merged stt1 s1 where
    mg: "merge_inputs rt scan (map the (Inputs p)) [] (set_flags True (map the (Inputs p)) st, t) s = (merged, stt1, s1)"
    and rep: "represents merged (merged_values (map runs rs))" and s1: "ready s1" by blast
  note fe = final_entries_run [OF rep]
  have "\<exists>q x. Execute rt scan wr p (st, t) s g = Some (q, x) \<and> isl q = isl r"
    if "wr (final_entries rt merged) (OutputStrategy p) (TargetLevel p) s1 g = Some (r, s2, g2)" "r \<noteq> Inr None" for r s2 g2
    using that by (auto simp: Execute_def None mg Let_def split: sum.split option.split prod.split)
  then show ?thesis using fe(1,2) s1 by blast
qed

end

section \<open>What the writer adds\<close>

lemma write_entries_bytes: "fst (write_entries start es (buf, ks, os)) = buf @ frames es"
proof (induction es arbitrary: buf ks os)
  case (Cons e es)
  show ?case by (simp add: Cons.IH kv_frame_def frame_def)
qed simp

lemma write_index_grows: "write_index ks offs buf = Some buf' \<Longrightarrow> \<exists>suf. buf' = buf @ suf"
proof (induction ks arbitrary: offs buf)
  case (Cons k ks)
  then obtain off offs' where "offs = off # offs'" by (cases offs) auto
  then show ?case
    using Cons.IH [of offs' "buf @ put_u32 (u32_len k) @ k @ put_u64 (word_of_int off)"] Cons.prems by auto
qed simp

lemma segment_image_frames:
  assumes "segment_image b uid es strategy = Some img"
  shows "length (frames es) < length (img_bytes img)"
proof -
  define hdr where "hdr = write_string uid @ write_string (Key (hd es)) @ write_string (Key (last es))
    @ [strategy_byte strategy] @ put_u64 (of_nat (length es))"
  obtain buf keys offs where we: "write_entries (int (length hdr)) es (hdr, [], []) = (buf, keys, offs)"
    by (metis prod_cases3)
  have buf: "buf = hdr @ frames es" using write_entries_bytes [of "int (length hdr)" es hdr "[]" "[]"] we by simp
  have "\<exists>suf. img_bytes img = buf @ suf @ put_u64 (of_nat (length buf))"
    using assms unfolding segment_image_def Let_def hdr_def [symmetric] we prod.case
    by (auto split: option.splits dest!: write_index_grows)
  then show ?thesis by (auto simp: buf)
qed

lemma WriteSegment_adds:
  assumes "WriteSegment b os uid t es strategy level s g = Some (Inr (Some m), s', g')"
  shows "s' = s\<lparr>sf_bytes := sf_bytes s'\<rparr> \<and> int (length (sf_bytes s')) = int (length (sf_bytes s)) + Length m \<and>
    int (length (frames es)) < Length m \<and> ID m = uid \<and> Level m = level \<and> es \<noteq> [] \<and> Offset m = int (length (sf_bytes s)) \<and>
    GlobalPhysicalWriteBytes g' = (if level = 0 then i64 (GlobalPhysicalWriteBytes g + Length m) else GlobalPhysicalWriteBytes g) \<and>
    GlobalCompactionWriteBytes g' = (if level = 0 then GlobalCompactionWriteBytes g else i64 (GlobalCompactionWriteBytes g + Length m))"
proof -
  have ne: "es \<noteq> []" using assms by (auto simp: WriteSegment_def)
  obtain img where img: "segment_image b uid es strategy = Some img"
    using assms ne by (auto simp: WriteSegment_def split: option.splits)
  obtain off len s2 where ap: "Append os (img_bytes img) s = (Inr (off, len), s2)"
    using assms ne img by (auto simp: WriteSegment_def Let_def split: prod.splits sum.splits)
  show ?thesis
    using assms ne segment_image_frames [OF img] Append_ok [OF ap]
    by (auto simp: WriteSegment_def img ap Let_def UpdateLastRewriteAt_def sf_size_def)
qed

section \<open>What stays readable\<close>

lemma appended_file: "s' = s\<lparr>sf_bytes := sf_bytes s @ suf\<rparr> \<Longrightarrow> sf_inv s \<Longrightarrow>
    sf_inv s' \<and> sf_closed s' = sf_closed s \<and> (\<exists>suf. sf_bytes s' = sf_bytes s @ suf)"
  by (auto intro: sf_inv_grow)

lemma write_grows:
  assumes "WriteSegment b os uid t es strategy level s g = Some (r, s', g')" "sf_inv s"
  shows "sf_inv s' \<and> sf_closed s' = sf_closed s \<and> (\<exists>suf. sf_bytes s' = sf_bytes s @ suf)"
  using write_appends [OF assms(1)] appended_file assms(2) by blast

text \<open>The segments that are registered and not retired.\<close>

definition live_refs :: "store \<times> tracker \<Rightarrow> ref set" where
  "live_refs stt = {r \<in> set (ordered (snd stt)). \<not> obsolete (cells (fst stt) r)}"

lemma file_holds_fixed:
  assumes "fixed_part m' = fixed_part m"
  shows "file_holds b f m' es = file_holds b f m es"
proof -
  have "file_holds b f (fixed_part m) es = file_holds b f m es" for m
    by (simp add: fixed_part_def file_holds_def seg_holds_frame)
  then show ?thesis using assms by metis
qed

lemma file_state_keep:
  assumes "file_state b runs stt f" "same_segments stt stt'" "tracker_inv stt'" "file_ready f'"
    "sf_bytes f' = sf_bytes f @ suf" "int (length (sf_bytes f')) < 2 ^ 63" "live_refs stt' \<subseteq> live_refs stt"
  shows "file_state b runs stt' f'"
proof -
  have "file_holds b f' (cells (fst stt') r) (runs r)"
    if r: "r \<in> set (ordered (snd stt'))" "\<not> obsolete (cells (fst stt') r)" for r
  proof -
    have "r \<in> live_refs stt" using r assms(7) by (auto simp: live_refs_def)
    then have "file_holds b f (cells (fst stt) r) (runs r)" using assms(1) by (simp add: file_state_def live_refs_def)
    then have "file_holds b f' (cells (fst stt) r) (runs r)"
      using seg_holds_append assms(5,6) unfolding file_holds_def by auto
    then show ?thesis using file_holds_fixed assms(2) unfolding same_segments_def by metis
  qed
  then show ?thesis using assms(3,4) by (simp add: file_state_def)
qed

lemma tracker_inv_same:
  assumes "tracker_inv stt" "same_segments stt stt'" "snd stt' = snd stt"
  shows "tracker_inv stt'"
proof -
  obtain st t where stt: "stt = (st, t)" by fastforce
  obtain st' where stt': "stt' = (st', t)" using assms(3) stt by (metis prod.collapse snd_conv)
  have "fixed_part (cells st' r) = fixed_part (cells st r)" for r
    using assms(2) by (simp add: same_segments_def stt stt')
  then have "ID (cells st' r) = ID (cells st r)" for r by (rule fixed_part_fields(1))
  then show ?thesis
    using tracker_inv_cells [of st t st'] assms by (simp add: same_segments_def stt stt')
qed

section \<open>A failed execution\<close>

lemma Execute_failed_cells:
  assumes "Execute rt scan wr p (st, t) s g = Some (Inl err, (st', t'), s', g')"
  shows "t' = t" "fresh st' = fresh st"
    "stats_only ((cells st r)\<lparr>InCompaction := False\<rparr>) ((cells st' r)\<lparr>InCompaction := False\<rparr>)"
    "InCompaction (cells st' r) \<Longrightarrow> InCompaction (cells st r)"
    "err = OutputFailed e \<Longrightarrow> Some r \<in> set (Inputs p) \<Longrightarrow> \<not> InCompaction (cells st' r)"
proof -
  have "t' = t \<and> fresh st' = fresh st \<and>
      stats_only ((cells st r)\<lparr>InCompaction := False\<rparr>) ((cells st' r)\<lparr>InCompaction := False\<rparr>) \<and>
      (InCompaction (cells st' r) \<longrightarrow> InCompaction (cells st r)) \<and>
      (err = OutputFailed e \<longrightarrow> Some r \<in> set (Inputs p) \<longrightarrow> \<not> InCompaction (cells st' r))"
  proof (cases "validate st 0 (Inputs p)")
    case (Some x)
    then show ?thesis using assms validate_OutputFailed [of st 0 "Inputs p" e] by (auto simp: Execute_def)
  next
    case None
    let ?rs = "map the (Inputs p)"
    obtain merged st1 t1 s1 where
      mg: "merge_inputs rt scan ?rs [] (set_flags True ?rs st, t) s = (merged, (st1, t1), s1)"
      by (metis prod.collapse)
    have step: "stats_step (set_flags True ?rs st, t) (st1, t1)"
      using merge_inputs_stats [of "(set_flags True ?rs st, t)" rt scan ?rs "[]" s] by (simp add: mg)
    have fin: "st' = set_flags False ?rs st1" "t' = t1"
      using assms(1) by (auto simp: Execute_def None mg Let_def split: option.splits sum.splits prod.splits)
    have "stats_only (cells (set_flags True ?rs st) r) (cells st1 r)" using step by (simp add: stats_step_def)
    from stats_only_unflag [OF this, of False] stats_only_same(7) [OF this]
    have "stats_only ((cells st r)\<lparr>InCompaction := False\<rparr>) ((cells st' r)\<lparr>InCompaction := False\<rparr>)"
      "r \<notin> set ?rs \<Longrightarrow> InCompaction (cells st1 r) = InCompaction (cells st r)"
      by (cases "r \<in> set ?rs"; simp add: fin(1))+
    moreover have "Some r \<in> set (Inputs p) \<Longrightarrow> r \<in> set ?rs" by (force simp: image_iff)
    ultimately show ?thesis using step by (auto simp: fin stats_step_def)
  qed
  then show "t' = t" "fresh st' = fresh st"
    "stats_only ((cells st r)\<lparr>InCompaction := False\<rparr>) ((cells st' r)\<lparr>InCompaction := False\<rparr>)"
    "InCompaction (cells st' r) \<Longrightarrow> InCompaction (cells st r)"
    "err = OutputFailed e \<Longrightarrow> Some r \<in> set (Inputs p) \<Longrightarrow> \<not> InCompaction (cells st' r)" by blast+
qed

lemma same_candidates:
  assumes "\<And>r. stats_only ((cells st r)\<lparr>InCompaction := False\<rparr>) ((cells st' r)\<lparr>InCompaction := False\<rparr>)"
  shows "GetSegmentsForKey rt key (st', t) = GetSegmentsForKey rt key (st, t)"
proof -
  have same: "obsolete (cells st' r) = obsolete (cells st r)" "Level (cells st' r) = Level (cells st r)"
    "CreatedAt (cells st' r) = CreatedAt (cells st r)" "MinKey (cells st' r) = MinKey (cells st r)"
    "MaxKey (cells st' r) = MaxKey (cells st r)" for r
    using stats_only_same(1,3-6) [OF assms [of r]] by simp_all
  have "seg_less st' = seg_less st" by (simp add: fun_eq_iff seg_less_def same)
  then show ?thesis by (simp add: GetSegmentsForKey_def IsObsolete_def in_key_range_def same)
qed

lemma handler_Get_value:
  assumes "go_runtime rt" "file_state b runs (st, t) s"
  shows "\<exists>x. handler_Get rt (reader_Get all_done) key mem (st, t) s g =
    Some (if snd (Get key mem) then Get key mem
          else first_live (map (\<lambda>r. run_map (runs r) key) (GetSegmentsForKey rt key (st, t))), x)"
proof (cases "snd (Get key mem)")
  case True
  then show ?thesis by (cases "Get key mem") (simp add: handler_Get_def)
next
  case False
  then show ?thesis using handler_Get_miss [OF assms, of key mem g] by auto
qed

text \<open>C32: A compaction that reports an error, whether an input is invalid or the output cannot be written,
  and whatever the mappings of its scans returned before, loses nothing. Nothing is retired or registered;
  of a segment only statistics and the flag \<^verbatim>\<open>InCompaction\<close> change, no flag is newly set, and those of
  the inputs are clear when it was the write that failed; the bytes of the file stay, though a part
  of the output may have been appended after them; and every lookup whose mappings succeed returns
  what it returned before.\<close>

theorem failed_compaction_keeps_reads:
  assumes "go_runtime rt" "file_state b runs (st, t) s"
    "Execute rt (reader_Scan o1 o2) (WriteSegment b os uid now) p (st, t) s g = Some (Inl err, (st', t'), s', g')"
    "int (length (sf_bytes s')) < 2 ^ 63"
  shows "t' = t \<and> g' = g \<and> (\<exists>suf. sf_bytes s' = sf_bytes s @ suf) \<and> file_state b runs (st', t') s' \<and>
    (\<forall>r. stats_only ((cells st r)\<lparr>InCompaction := False\<rparr>) ((cells st' r)\<lparr>InCompaction := False\<rparr>) \<and>
       (InCompaction (cells st' r) \<longrightarrow> InCompaction (cells st r)) \<and>
       ((\<exists>e. err = OutputFailed e) \<longrightarrow> Some r \<in> set (Inputs p) \<longrightarrow> \<not> InCompaction (cells st' r))) \<and>
    (\<forall>key mem. \<exists>x y z. handler_Get rt (reader_Get all_done) key mem (st, t) s g = Some (x, y) \<and>
       handler_Get rt (reader_Get all_done) key mem (st', t') s' g' = Some (x, z))"
proof -
  note cell = Execute_failed_cells [OF assms(3)]
  note fail = Execute_failed [OF assms(3)]
  have inv: "sf_inv s" "\<not> sf_closed s" "tracker_inv (st, t)"
    using assms(2) by (simp_all add: file_state_def file_ready_def)
  let ?mg = "merge_inputs rt (reader_Scan o1 o2) (map the (Inputs p)) [] (set_flags True (map the (Inputs p)) st, t) s"
  have scanned: "same_file s (snd (snd ?mg))" by (rule merge_inputs_file [OF inv(1)])
  have kept: "sf_inv s' \<and> sf_closed s' = sf_closed s \<and> g' = g \<and> (\<exists>suf. sf_bytes s' = sf_bytes s @ suf)"
  proof (cases "(s', g') = (s, g)")
    case False
    then obtain es e where w: "WriteSegment b os uid now es (OutputStrategy p) (TargetLevel p) (snd (snd ?mg)) g =
        Some (Inl e, s', g')" using fail by blast
    show ?thesis
      using write_grows [OF w same_file_inv [OF scanned]] WriteSegment_error [OF w] scanned
      by (simp add: same_file_def)
  qed (use inv in simp)
  then obtain suf where suf: "sf_bytes s' = sf_bytes s @ suf" by blast
  have same: "same_segments (st, t) (st', t')" using fail by simp
  have "tracker_inv (st', t')" by (rule tracker_inv_same [OF inv(3) same]) (simp add: cell(1))
  moreover have "live_refs (st', t') = live_refs (st, t)"
    using stats_only_same(1) [OF cell(3)] by (simp add: live_refs_def cell(1))
  ultimately have after: "file_state b runs (st', t') s'"
    using kept inv(2) by (intro file_state_keep [OF assms(2) same _ _ suf assms(4)]) (simp_all add: file_ready_def)
  have "GetSegmentsForKey rt key (st', t') = GetSegmentsForKey rt key (st, t)" for key
    unfolding cell(1) by (rule same_candidates) (rule cell(3))
  then have "\<exists>x y z. handler_Get rt (reader_Get all_done) key mem (st, t) s g = Some (x, y) \<and>
      handler_Get rt (reader_Get all_done) key mem (st', t') s' g' = Some (x, z)" for key mem
    using handler_Get_value [OF assms(1,2), of key mem g] handler_Get_value [OF assms(1) after, of key mem g'] by auto
  then show ?thesis using after cell(1,3-5) kept by blast
qed

text \<open>The sample merge with an append that fails after a hundred bytes.\<close>

definition failed_merge :: "((exec_error + ref) \<times> (store \<times> tracker) \<times> segfile \<times> counters) option" where
  "failed_merge = Execute short_runtime (reader_Scan all_done all_done)
     (WriteSegment sample_b (Done, Fault 100, Done) [3] 30) merge_plan (two_store 20, two_tracker) sample_file zero_counters"

lemma failed_merge_eval:
  "case failed_merge of
     Some (Inl err, stt, s, g) \<Rightarrow> (case err of OutputFailed e \<Rightarrow> True | _ \<Rightarrow> False) \<and> length (sf_bytes s) < 1000
   | _ \<Rightarrow> False"
  by code_simp

lemma failed_compaction_keeps_reads_witness:
  "\<exists>e st' t' s' g' z. failed_merge = Some (Inl (OutputFailed e), (st', t'), s', g') \<and> \<not> InCompaction (cells st' 3) \<and>
     file_state sample_b two_runs (st', t') s'"
proof -
  obtain q st' t' s' g' where q: "failed_merge = Some (q, (st', t'), s', g')"
    using failed_merge_eval by (cases failed_merge) auto
  obtain err where err: "q = Inl err" "case err of OutputFailed e \<Rightarrow> True | _ \<Rightarrow> False" "length (sf_bytes s') < 1000"
    using failed_merge_eval by (cases q) (simp_all add: q)
  obtain e where e: "err = OutputFailed e" using err(2) by (cases err) simp_all
  have f: "failed_merge = Some (Inl (OutputFailed e), (st', t'), s', g')" using q err(1) e by simp
  have "int (length (sf_bytes s')) < 2 ^ 63" using err(3) by simp
  from failed_compaction_keeps_reads [OF short_rt.go_runtime_axioms two_segments_state f [unfolded failed_merge_def] this]
  have "file_state sample_b two_runs (st', t') s'"
    "(\<exists>e'. OutputFailed e = OutputFailed e') \<longrightarrow> Some 3 \<in> set (Inputs merge_plan) \<longrightarrow> \<not> InCompaction (cells st' 3)"
    by blast+
  then have "file_state sample_b two_runs (st', t') s'" "\<not> InCompaction (cells st' 3)" by (simp_all add: merge_plan_def)
  then show ?thesis using f by blast
qed

end
