(* ===== verification/Workload_Effects.thy ===== *)
theory Workload_Effects
  imports Workload_Events Component_Effects
begin

text \<open>
  The effect of every event on the segments and the byte counters: it registers at most one
  segment, and the counters follow.
\<close>

section \<open>Accounting\<close>

lemma i64_add_left: "i64 (i64 a + b) = i64 (a + b)"
  unfolding i64_def by (metis signed_take_bit_add signed_take_bit_signed_take_bit min.idem)

lemma i64_add_right: "i64 (a + i64 b) = i64 (a + b)"
  using i64_add_left [of b a] by (simp add: add.commute)

definition total_length :: "(segment_meta \<Rightarrow> bool) \<Rightarrow> store \<times> tracker \<Rightarrow> int" where
  "total_length P stt = 
     (\<Sum>r \<leftarrow> ordered (snd stt). if P (cells (fst stt) r) then Length (cells (fst stt) r) else 0)"

definition at_level0 :: "segment_meta \<Rightarrow> bool" where
  "at_level0 m \<longleftrightarrow> Level m = 0"

definition refs_ok :: "store \<times> tracker \<Rightarrow> bool" where
  "refs_ok stt \<longleftrightarrow> (\<forall>r \<in> set (ordered (snd stt)). r < fresh (fst stt))"

definition account :: "bench \<Rightarrow> bool" where
  "account s \<longleftrightarrow> sf_inv (b_file s) \<and> refs_ok (b_meta s) \<and>
     physicalBytes s = i64 (total_length (\<lambda>_. True) (b_meta s)) \<and>
     GlobalPhysicalWriteBytes (b_globals s) = i64 (total_length at_level0 (b_meta s)) \<and>
     GlobalCompactionWriteBytes (b_globals s) = i64 (total_length (\<lambda>m. \<not> at_level0 m) (b_meta s))"

lemma total_length_same:
  assumes "same_segments stt stt'" "\<And>m m'. fixed_part m' = fixed_part m \<Longrightarrow> P m' = P m"
  shows "total_length P stt' = total_length P stt"
proof -
  have "\<forall>r. fixed_part (cells (fst stt') r) = fixed_part (cells (fst stt) r)" "ordered (snd stt') = ordered (snd stt)"
    using assms(1) by (simp_all add: same_segments_def)
  moreover from this(1) have "P (cells (fst stt') r) = P (cells (fst stt) r)"
    "Length (cells (fst stt') r) = Length (cells (fst stt) r)" for r
    using assms(2) fixed_part_fields(3) by blast+
  ultimately show ?thesis by (simp add: total_length_def cong: if_cong)
qed

lemma total_length_one_more:
  assumes "one_more stt m new stt'" "refs_ok stt" "\<And>m m'. fixed_part m' = fixed_part m \<Longrightarrow> P m' = P m"
  shows "total_length P stt' = total_length P stt + (if P m then Length m else 0)"
proof -
  have old: "r \<noteq> new" if "r \<in> set (ordered (snd stt))" for r
    using that assms(1,2) by (auto simp: one_more_def refs_ok_def)
  have fx: "fixed_part (cells (fst stt') new) = fixed_part m"
    "\<And>r. r \<in> set (ordered (snd stt)) \<Longrightarrow> fixed_part (cells (fst stt') r) = fixed_part (cells (fst stt) r)"
    using assms(1) old by (auto simp: one_more_def)
  have new: "P (cells (fst stt') new) = P m" "Length (cells (fst stt') new) = Length m"
    using assms(3) fixed_part_fields(3) fx(1) by blast+
  have rest: "P (cells (fst stt') r) = P (cells (fst stt) r)" "Length (cells (fst stt') r) = Length (cells (fst stt) r)"
    if "r \<in> set (ordered (snd stt))" for r using assms(3) fixed_part_fields(3) fx(2) [OF that] by blast+
  have ord: "ordered (snd stt') = new # ordered (snd stt)" using assms(1) by (simp add: one_more_def)
  have "map (\<lambda>r. if P (cells (fst stt') r) then Length (cells (fst stt') r) else 0) (ordered (snd stt)) =
    map (\<lambda>r. if P (cells (fst stt) r) then Length (cells (fst stt) r) else 0) (ordered (snd stt))"
    by (rule map_cong [OF refl]) (simp add: rest)
  then show ?thesis by (simp only: total_length_def ord list.map sum_list.Cons new)
qed

lemma at_level0_fixed: "fixed_part m' = fixed_part m \<Longrightarrow> at_level0 m' = at_level0 m"
  by (drule fixed_part_fields(2)) (simp add: at_level0_def)

lemma total_length_facts:
  assumes "same_segments stt stt'"
  shows "total_length (\<lambda>_. True) stt' = total_length (\<lambda>_. True) stt"
    "total_length at_level0 stt' = total_length at_level0 stt"
    "total_length (\<lambda>m. \<not> at_level0 m) stt' = total_length (\<lambda>m. \<not> at_level0 m) stt"
proof -
  show "total_length (\<lambda>_. True) stt' = total_length (\<lambda>_. True) stt"
    by (rule total_length_same [OF assms]) (rule refl)
  show "total_length at_level0 stt' = total_length at_level0 stt"
    by (rule total_length_same [OF assms at_level0_fixed])
  show "total_length (\<lambda>m. \<not> at_level0 m) stt' = total_length (\<lambda>m. \<not> at_level0 m) stt"
    by (rule total_length_same [OF assms]) (rule arg_cong [OF at_level0_fixed])
qed

lemma total_length_grows:
  assumes "one_more stt m new stt'" "refs_ok stt"
  shows "total_length (\<lambda>_. True) stt' = total_length (\<lambda>_. True) stt + Length m"
    "total_length at_level0 stt' = total_length at_level0 stt + (if at_level0 m then Length m else 0)"
    "total_length (\<lambda>m. \<not> at_level0 m) stt' = total_length (\<lambda>m. \<not> at_level0 m) stt + (if at_level0 m then 0 else Length m)"
proof -
  show "total_length (\<lambda>_. True) stt' = total_length (\<lambda>_. True) stt + Length m"
    by (subst total_length_one_more [OF assms]) simp_all
  show "total_length at_level0 stt' = total_length at_level0 stt + (if at_level0 m then Length m else 0)"
    by (rule total_length_one_more [OF assms at_level0_fixed])
  have "total_length (\<lambda>m. \<not> at_level0 m) stt' =
      total_length (\<lambda>m. \<not> at_level0 m) stt + (if \<not> at_level0 m then Length m else 0)"
    by (rule total_length_one_more [OF assms]) (rule arg_cong [OF at_level0_fixed])
  then show "total_length (\<lambda>m. \<not> at_level0 m) stt' =
      total_length (\<lambda>m. \<not> at_level0 m) stt + (if at_level0 m then 0 else Length m)" by simp
qed

lemma refs_ok_same: "same_segments stt stt' \<Longrightarrow> refs_ok stt \<Longrightarrow> refs_ok stt'"
  by (simp add: same_segments_def refs_ok_def)

lemma refs_ok_one_more: "one_more stt m new stt' \<Longrightarrow> refs_ok stt \<Longrightarrow> refs_ok stt'"
  by (auto simp: one_more_def refs_ok_def)

text \<open>The two kinds of effect that a step can have.\<close>

definition quiet :: "bench \<Rightarrow> bench \<Rightarrow> bool" where
  "quiet s s' \<longleftrightarrow> same_segments (b_meta s) (b_meta s') \<and> sf_inv (b_file s') \<and>
     sf_closed (b_file s') = sf_closed (b_file s) \<and>
     (\<exists>suf. sf_bytes (b_file s') = sf_bytes (b_file s) @ suf) \<and> physicalBytes s' = physicalBytes s \<and>
     GlobalPhysicalWriteBytes (b_globals s') = GlobalPhysicalWriteBytes (b_globals s) \<and>
     GlobalCompactionWriteBytes (b_globals s') = GlobalCompactionWriteBytes (b_globals s)"

definition registers :: "bool \<Rightarrow> bench \<Rightarrow> segment_meta \<Rightarrow> ref \<Rightarrow> bench \<Rightarrow> bool" where
  "registers counted s m new s' \<longleftrightarrow> one_more (b_meta s) m new (b_meta s') \<and> sf_inv (b_file s') \<and>
     sf_closed (b_file s') = sf_closed (b_file s) \<and>
     (\<exists>suf. sf_bytes (b_file s') = sf_bytes (b_file s) @ suf) \<and>
     (counted \<longrightarrow> physicalBytes s' = i64 (physicalBytes s + Length m)) \<and>
     GlobalPhysicalWriteBytes (b_globals s') = (if at_level0 m then i64 (GlobalPhysicalWriteBytes (b_globals s) + Length m)
       else GlobalPhysicalWriteBytes (b_globals s)) \<and>
     GlobalCompactionWriteBytes (b_globals s') = (if at_level0 m then GlobalCompactionWriteBytes (b_globals s)
       else i64 (GlobalCompactionWriteBytes (b_globals s) + Length m))"

lemma account_quiet:
  assumes "account s" "quiet s s'"
  shows "account s'"
proof -
  have "same_segments (b_meta s) (b_meta s')" using assms(2) by (simp add: quiet_def)
  from total_length_facts [OF this] refs_ok_same [OF this] show ?thesis
    using assms by (simp add: account_def quiet_def)
qed

lemma account_registers:
  assumes "account s" "registers True s m new s'"
  shows "account s'"
proof -
  have more: "one_more (b_meta s) m new (b_meta s')" and refs: "refs_ok (b_meta s)"
    using assms by (simp_all add: account_def registers_def)
  from total_length_grows [OF more refs] refs_ok_one_more [OF more refs] show ?thesis
    using assms by (simp add: account_def registers_def i64_add_left)
qed

section \<open>The effect of every event\<close>

lemma flush_full_cases:
  assumes "flush_full rt mode trunc env s = Some s'"
  obtains (idle) "\<not> ShouldFlush (b_mem s)" "s' = s"
  | (written) seg r st where "ShouldFlush (b_mem s)"
    "WriteSegment bench_writer (append_outcomes env) (new_uuid env) (now env) (data (b_mem s)) TIERED 0
       (b_file s) (b_globals s) = Some (Inr (Some seg), b_file s', b_globals s')"
    "alloc seg (fst (b_meta s)) = (r, st)" "b_meta s' = RegisterSegment rt r (st, snd (b_meta s))"
    "b_mem s' = (b_mem s)\<lparr>data := []\<rparr>" "liveKeys s' = liveKeys s"
    "physicalBytes s' = (if mode = CountNone then physicalBytes s else i64 (physicalBytes s + Length seg))"
proof (cases "ShouldFlush (b_mem s)")
  case False
  then have "s' = s" using assms by (simp add: flush_full_def)
  with False show ?thesis by (rule idle)
next
  case True
  have fl: "Flush (b_mem s) = (data (b_mem s), (b_mem s)\<lparr>data := []\<rparr>)"
    using Flush_simps [of "b_mem s"] by (metis prod.collapse)
  obtain seg f g where w: "WriteSegment bench_writer (append_outcomes env) (new_uuid env) (now env) (data (b_mem s))
       TIERED 0 (b_file s) (b_globals s) = Some (Inr (Some seg), f, g)"
    using assms True by (auto simp: flush_full_def fl split: option.splits sum.splits)
  obtain r st where al: "alloc seg (fst (b_meta s)) = (r, st)" by fastforce
  have s': "b_file s' = f" "b_globals s' = g" "b_meta s' = RegisterSegment rt r (st, snd (b_meta s))"
    "b_mem s' = (b_mem s)\<lparr>data := []\<rparr>" "liveKeys s' = liveKeys s"
    "physicalBytes s' = (if mode = CountNone then physicalBytes s else i64 (physicalBytes s + Length seg))"
    using assms True by (cases trunc; simp add: flush_full_def fl w al Let_def; clarsimp)+
  show ?thesis by (rule written [OF True _ al s'(3-6)]) (simp add: s' w)
qed

lemma flush_effect:
  assumes "flush_full rt mode trunc env s = Some s'" "sf_inv (b_file s)"
  shows "quiet s s' \<or> (\<exists>m new. registers (mode \<noteq> CountNone) s m new s')"
  using assms(1)
proof (cases rule: flush_full_cases)
  case idle
  then show ?thesis using assms(2) by (simp add: quiet_def)
next
  case (written seg r st)
  have "one_more (b_meta s) seg r (b_meta s')"
    unfolding written(4) using one_more_Register [OF written(3), of "snd (b_meta s)" rt] by simp
  then have "registers (mode \<noteq> CountNone) s seg r s'"
    using write_grows [OF written(2) assms(2)] WriteSegment_adds [OF written(2)] written(7)
    by (simp add: registers_def at_level0_def)
  then show ?thesis by blast
qed

text \<open>The state from which a put flushes.\<close>

definition after_put :: "counting \<Rightarrow> int \<Rightarrow> gostring \<Rightarrow> iter_in \<Rightarrow> bench \<Rightarrow> bench" where
  "after_put mode vs key i s =
     (let val = make_value vs (it_value i);
          s2 = count_put mode vs key val
            (s\<lparr>b_wal := snd (LogPut (log_outcomes (it_env i)) key (Some val) (b_wal s)),
               b_mem := Put key (Some val) (b_mem s)\<rparr>)
      in s2\<lparr>liveKeys := AList.update key (int (length val)) (liveKeys s2)\<rparr>)"

lemma put_step_flush: "put_step rt mode vs key i s = flush_full rt mode True (it_env i) (after_put mode vs key i s)"
  by (simp add: put_step_def after_put_def Let_def)

lemma after_put_simps [simp]:
  "b_meta (after_put mode vs key i s) = b_meta s" "b_file (after_put mode vs key i s) = b_file s"
  "b_globals (after_put mode vs key i s) = b_globals s" "physicalBytes (after_put mode vs key i s) = physicalBytes s"
  "b_mem (after_put mode vs key i s) = Put key (Some (make_value vs (it_value i))) (b_mem s)"
  "liveKeys (after_put mode vs key i s) = AList.update key (int (length (make_value vs (it_value i)))) (liveKeys s)"
  "b_director (after_put mode vs key i s) = b_director s"
  by (cases mode; simp add: after_put_def Let_def)+

lemma put_effect:
  assumes "put_step rt mode vs key i s = Some s'" "sf_inv (b_file s)"
  shows "quiet s s' \<or> (\<exists>m new. registers (mode \<noteq> CountNone) s m new s')"
proof -
  let ?s = "after_put mode vs key i s"
  have "quiet ?s s' = quiet s s'" "registers c ?s m new s' = registers c s m new s'" for c m new
    by (simp_all add: quiet_def registers_def)
  then show ?thesis using flush_effect [OF assms(1) [unfolded put_step_flush]] assms(2) by simp
qed

lemma probe_effect:
  assumes "probe_step rt key i s = Some (k, s')" "sf_inv (b_file s)"
  shows "quiet s s' \<and> b_mem s' = b_mem s \<and> liveKeys s' = liveKeys s"
proof -
  obtain x stt f g where h: "handler_loop (reader_Get (it_mmap i)) key (GetSegmentsForKey rt key (b_meta s)) (b_meta s)
      (b_file s) (b_globals s) = Some (x, stt, f, g)"
    and s': "s' = s\<lparr>totalReads := i64 (totalReads s + 1), b_meta := stt, b_file := f, b_globals := g\<rparr>"
    using assms(1) by (auto simp: probe_step_def Let_def split: option.splits)
  from handler_loop_frame [OF assms(2) h] show ?thesis
    by (simp add: s' quiet_def same_segments_stats same_file_def)
qed

lemma run_plan_effect:
  assumes "run_plan rt k p s = Some (r, s')" "sf_inv (b_file s)"
  shows "b_mem s' = b_mem s \<and> liveKeys s' = liveKeys s \<and> b_director s' = b_director s \<and> physicalBytes s' = physicalBytes s \<and>
    (case r of Inl e \<Rightarrow> quiet s s'
     | Inr new \<Rightarrow> \<exists>m. registers True s m new (count_compaction new s') \<and> Length (cells (fst (b_meta s')) new) = Length m)"
proof -
  let ?scan = "reader_Scan (fst (tk_scan k)) (snd (tk_scan k))"
  let ?wr = "WriteSegment bench_writer (tk_append k) (tk_uuid k) (tk_now k)"
  obtain st t where meta: "b_meta s = (st, t)" by fastforce
  obtain stt f g where ex: "Execute rt ?scan ?wr p (st, t) (b_file s) (b_globals s) = Some (r, stt, f, g)"
    and s': "s' = s\<lparr>b_meta := stt, b_file := f, b_globals := g\<rparr>"
    using assms(1) by (auto simp: run_plan_def meta split: option.splits)
  let ?mg = "merge_inputs rt ?scan (map the (Inputs p)) [] (set_flags True (map the (Inputs p)) st, t) (b_file s)"
  have scanned: "same_file (b_file s) (snd (snd ?mg))" by (rule merge_inputs_file [OF assms(2)])
  show ?thesis
  proof (cases r)
    case (Inl e)
    note fl = Execute_failed [OF ex [unfolded Inl]]
    have "sf_inv f \<and> sf_closed f = sf_closed (b_file s) \<and> (\<exists>suf. sf_bytes f = sf_bytes (b_file s) @ suf) \<and>
      GlobalPhysicalWriteBytes g = GlobalPhysicalWriteBytes (b_globals s) \<and>
      GlobalCompactionWriteBytes g = GlobalCompactionWriteBytes (b_globals s)"
      using fl
    proof (elim conjE disjE exE)
      fix es e assume w: "?wr es (OutputStrategy p) (TargetLevel p) (snd (snd ?mg)) (b_globals s) = Some (Inl e, f, g)"
      then show ?thesis
        using write_grows [OF w same_file_inv [OF scanned]] WriteSegment_error [OF w] scanned
        by (simp add: same_file_def)
    qed (use assms(2) in simp)
    then show ?thesis using fl by (simp add: Inl s' quiet_def meta)
  next
    case (Inr new)
    obtain es m where w: "?wr es (OutputStrategy p) (TargetLevel p) (snd (snd ?mg)) (b_globals s) = Some (Inr (Some m), f, g)"
      and one: "one_more (st, t) m new stt"
      using Execute_registers [OF ex [unfolded Inr]] by blast
    have "fixed_part (cells (fst stt) new) = fixed_part m" using one unfolding one_more_def by blast
    then have len: "Length (cells (fst stt) new) = Length m" by (rule fixed_part_fields(3))
    have "registers True s m new (count_compaction new s')"
      using write_grows [OF w same_file_inv [OF scanned]] WriteSegment_adds [OF w] scanned one
      by (simp add: registers_def count_compaction_def s' meta len at_level0_def same_file_def)
    then show ?thesis using len by (auto simp: Inr s')
  qed
qed

lemma quiet_director: "quiet (s\<lparr>b_director := d\<rparr>) s' = quiet s s'"
  "registers c (s\<lparr>b_director := d\<rparr>) m new s' = registers c s m new s'"
  by (simp_all add: quiet_def registers_def)

lemma quiet_refl: "sf_inv (b_file s) \<Longrightarrow> quiet s (s\<lparr>b_director := d\<rparr>)" "sf_inv (b_file s) \<Longrightarrow> quiet s s"
  by (simp_all add: quiet_def)

lemma bg_tick_cases:
  assumes "bg_tick rt k s = Some s'"
  obtains (idle) d where "s' = s\<lparr>b_director := d\<rparr>"
  | (failed) p d err where "MaybePlan rt (tk_clock k) (b_meta s) (b_director s) = (Some p, d)"
      "run_plan rt k p (s\<lparr>b_director := d\<rparr>) = Some (Inl err, s')"
  | (compacted) p d new s1 where "MaybePlan rt (tk_clock k) (b_meta s) (b_director s) = (Some p, d)"
      "run_plan rt k p (s\<lparr>b_director := d\<rparr>) = Some (Inr new, s1)" "s' = count_compaction new s1"
  using assms by (auto simp: bg_tick_def Let_def split: prod.splits option.splits if_splits sum.splits)

lemma last_compaction_cases:
  assumes "last_compaction rt k s = Some s'"
  obtains (idle) d where "s' = s\<lparr>b_director := d\<rparr>"
  | (compacted) p d new s1 where "MaybePlan rt (tk_clock k) (b_meta s) (b_director s) = (Some p, d)"
      "run_plan rt k p (s\<lparr>b_director := d\<rparr>) = Some (Inr new, s1)" "s' = count_compaction new s1"
  using assms by (auto simp: last_compaction_def split: prod.splits option.splits sum.splits)

lemma tick_effect:
  assumes "bg_tick rt k s = Some s' \<or> last_compaction rt k s = Some s'" "sf_inv (b_file s)"
  shows "(quiet s s' \<or> (\<exists>m new. registers True s m new s')) \<and> b_mem s' = b_mem s \<and> liveKeys s' = liveKeys s"
proof -
  consider d where "s' = s\<lparr>b_director := d\<rparr>"
    | p d err where "run_plan rt k p (s\<lparr>b_director := d\<rparr>) = Some (Inl err, s')"
    | p d new s1 where "run_plan rt k p (s\<lparr>b_director := d\<rparr>) = Some (Inr new, s1)" "s' = count_compaction new s1"
    using assms(1) by (auto elim!: bg_tick_cases last_compaction_cases)
  then show ?thesis
  proof cases
    case 1
    then show ?thesis using quiet_refl(1) [OF assms(2)] by simp
  next
    case 2
    then show ?thesis using run_plan_effect [OF 2] assms(2) by (simp add: quiet_director)
  next
    case 3
    have "b_mem s' = b_mem s1" "liveKeys s' = liveKeys s1" by (simp_all add: 3(2) count_compaction_def)
    then show ?thesis
      using run_plan_effect [OF 3(1)] assms(2) by (auto simp: quiet_director 3(2))
  qed
qed

fun counted :: "event \<Rightarrow> bool" where
  "counted (EvPut mode key i) \<longleftrightarrow> mode \<noteq> CountNone"
| "counted (EvFlush mode env) \<longleftrightarrow> mode \<noteq> CountNone"
| "counted EvReset \<longleftrightarrow> False"
| "counted ev \<longleftrightarrow> True"

lemma step_effect:
  assumes "bench_step rt vs ev s = Some s'" "sf_inv (b_file s)"
  shows "(if ev = EvReset then s' = reset_bytes s else quiet s s' \<or> (\<exists>m new. registers (counted ev) s m new s'))"
proof (cases ev)
  case (EvPut mode key i)
  then show ?thesis using assms put_effect [of rt mode vs key i s s'] by simp
next
  case (EvFlush mode env)
  then show ?thesis using assms flush_effect [of rt mode False env s s'] by simp
next
  case (EvProbe key i)
  then show ?thesis using assms probe_effect [of rt key i s] by auto
next
  case (EvScans n)
  then show ?thesis using assms by (auto simp: add_scans_def quiet_def)
next
  case (EvTick k)
  then show ?thesis using assms tick_effect [of rt k s s'] by simp
next
  case (EvCompact k)
  then show ?thesis using assms tick_effect [of rt k s s'] by simp
qed (use assms in simp)

lemma account_run:
  "account s \<Longrightarrow> list_all counted evs \<Longrightarrow> run_events rt vs evs s = Some s' \<Longrightarrow> account s'"
proof (induction evs arbitrary: s)
  case (Cons ev evs)
  obtain s1 where s1: "bench_step rt vs ev s = Some s1" "run_events rt vs evs s1 = Some s'"
    using Cons.prems(3) by (auto split: option.splits)
  have c: "counted ev" "ev \<noteq> EvReset" using Cons.prems(2) by auto
  have "sf_inv (b_file s)" using Cons.prems(1) by (simp add: account_def)
  from step_effect [OF s1(1) this] c have "quiet s s1 \<or> (\<exists>m new. registers True s m new s1)" by simp
  then have "account s1" using account_quiet account_registers Cons.prems(1) by blast
  then show ?case using Cons.IH Cons.prems(2) s1(2) by simp
qed simp

lemma event_of_counted: "event_of ins fin n False ev \<Longrightarrow> counted ev"
  by (cases ev) auto

lemma initial_account:
  assumes "initial_bench w n = Some s"
  shows "account s"
proof -
  obtain f where f: "NewSegmentFileManager (w_open_file w) (w_file_left w) = Inr f"
    and s: "b_file s = f" "b_meta s = (empty_store, NewTracker)" "physicalBytes s = 0" "b_globals s = zero_counters"
    using assms by (auto simp: initial_bench_def split: sum.splits)
  have "i64 0 = 0" by (rule i64_id) simp_all
  then show ?thesis
    using sf_inv_New [OF f] by (simp add: account_def s refs_ok_def NewTracker_def total_length_def zero_counters_def)
qed

lemma workload_account:
  assumes "account s" "run_workload rt w fl s = Some (Some (ph, s'))" "workloadFlag fl \<noteq> ''pure-read''"
  shows "account s'"
proof -
  obtain evs where "list_all (event_of (w_ins w) {w_final w} (numKeysFlag fl) False) evs"
    "run_events rt (valueSizeFlag fl) evs s = Some s'"
    using run_workload_run [OF assms(2)] assms(3) by (auto simp: event_run_def)
  moreover from this(1) have "list_all counted evs" by (rule list.pred_mono_strong) (rule event_of_counted)
  ultimately show ?thesis using account_run assms(1) by blast
qed

end
