(* ===== verification/Workload_Safety.thy ===== *)
theory Workload_Safety
  imports Workload_Effects
begin

text \<open>
  What the benchmark's state holds of the puts: the invariant \<open>serving\<close> says that the memtable and
  the live segments hold only values that were put, and hold one for every key that was put. Every
  event keeps it, and a read of such a state succeeds.
\<close>

section \<open>What the state holds of the puts\<close>

type_synonym history = "gostring \<Rightarrow> byte list list"

definition stored_ok :: "history \<Rightarrow> kv_entry \<Rightarrow> bool" where
  "stored_ok h e \<longleftrightarrow> \<not> Tombstone e \<and> readable e \<and> (\<exists>v. Value e = Some v \<and> v \<noteq> [] \<and> v \<in> set (h (Key e)))"

definition serving ::
  "history \<Rightarrow> (ref \<Rightarrow> kv_entry list) \<Rightarrow> memtable \<Rightarrow> store \<times> tracker \<Rightarrow> segfile \<Rightarrow> bool" where
  "serving h runs mem stt f \<longleftrightarrow> mem_inv mem \<and> file_state bench_writer runs stt f \<and>
     (\<forall>e \<in> set (data mem). stored_ok h e) \<and>
     (\<forall>r \<in> live_refs stt. \<forall>e \<in> set (runs r). stored_ok h e) \<and>
     (\<forall>k. h k \<noteq> [] \<longrightarrow> mem_map mem k \<noteq> None \<or> (\<exists>r \<in> live_refs stt. run_map (runs r) k \<noteq> None))"

definition serves :: "history \<Rightarrow> bench \<Rightarrow> bool" where
  "serves h s \<longleftrightarrow> (\<exists>runs. serving h runs (b_mem s) (b_meta s) (b_file s))"

text \<open>Bounds on a state; they hold of every earlier state too.\<close>

definition plausible :: "bench \<Rightarrow> bool" where
  "plausible s \<longleftrightarrow>
     distinct (map (\<lambda>r. ID (cells (fst (b_meta s)) r)) (ordered (snd (b_meta s)))) \<and>
     int (length (sf_bytes (b_file s))) < 2 ^ 57 \<and>
     (\<forall>r \<in> set (ordered (snd (b_meta s))). Length (cells (fst (b_meta s)) r) \<le> 500 * 1024 * 1024)"

lemma plausible_quiet:
  assumes "plausible s'" "quiet s s'"
  shows "plausible s"
proof -
  have sg: "ordered (snd (b_meta s')) = ordered (snd (b_meta s))"
    "\<And>r. fixed_part (cells (fst (b_meta s')) r) = fixed_part (cells (fst (b_meta s)) r)"
    using assms(2) by (simp_all add: quiet_def same_segments_def)
  have "ID (cells (fst (b_meta s')) r) = ID (cells (fst (b_meta s)) r)"
    "Length (cells (fst (b_meta s')) r) = Length (cells (fst (b_meta s)) r)" for r
    using fixed_part_fields(1,3) [OF sg(2)] by blast+
  moreover have "length (sf_bytes (b_file s)) \<le> length (sf_bytes (b_file s'))"
    using assms(2) by (auto simp: quiet_def)
  ultimately show ?thesis using assms(1) by (simp add: plausible_def sg(1))
qed

lemma plausible_registers:
  assumes "plausible s'" "registers c s m new s'" "refs_ok (b_meta s)"
  shows "plausible s"
proof -
  have new: "r \<noteq> new" if "r \<in> set (ordered (snd (b_meta s)))" for r
    using that assms(2,3) by (auto simp: registers_def one_more_def refs_ok_def)
  have ord: "ordered (snd (b_meta s')) = new # ordered (snd (b_meta s))"
    using assms(2) by (simp add: registers_def one_more_def)
  have "fixed_part (cells (fst (b_meta s')) r) = fixed_part (cells (fst (b_meta s)) r)"
    if "r \<in> set (ordered (snd (b_meta s)))" for r
    using assms(2) new [OF that] by (simp add: registers_def one_more_def)
  then have keep: "ID (cells (fst (b_meta s')) r) = ID (cells (fst (b_meta s)) r)"
    "Length (cells (fst (b_meta s')) r) = Length (cells (fst (b_meta s)) r)"
    if "r \<in> set (ordered (snd (b_meta s)))" for r using fixed_part_fields(1,3) that by blast+
  have eq: "map (\<lambda>r. ID (cells (fst (b_meta s')) r)) (ordered (snd (b_meta s))) =
      map (\<lambda>r. ID (cells (fst (b_meta s)) r)) (ordered (snd (b_meta s)))"
    by (rule map_cong [OF refl keep(1)])
  have "distinct (map (\<lambda>r. ID (cells (fst (b_meta s')) r)) (ordered (snd (b_meta s))))"
    using assms(1) by (simp add: plausible_def ord)
  then have "distinct (map (\<lambda>r. ID (cells (fst (b_meta s)) r)) (ordered (snd (b_meta s))))" unfolding eq .
  moreover have "length (sf_bytes (b_file s)) \<le> length (sf_bytes (b_file s'))"
    using assms(2) by (auto simp: registers_def)
  ultimately show ?thesis using assms(1) keep(2) by (simp add: plausible_def ord)
qed

text \<open>The identifier and the length of what was registered last.\<close>

lemma plausible_new:
  assumes "plausible s'" "one_more stt m new (b_meta s')" "refs_ok stt"
  shows "\<forall>r \<in> set (ordered (snd stt)). ID (cells (fst stt) r) \<noteq> ID m" "Length m \<le> 500 * 1024 * 1024"
proof -
  have ord: "ordered (snd (b_meta s')) = new # ordered (snd stt)"
    and fx: "fixed_part (cells (fst (b_meta s')) new) = fixed_part m"
    "\<And>r. r \<in> set (ordered (snd stt)) \<Longrightarrow> fixed_part (cells (fst (b_meta s')) r) = fixed_part (cells (fst stt) r)"
    using assms(2,3) by (auto simp: one_more_def refs_ok_def)
  have "ID (cells (fst (b_meta s')) new) = ID m" "Length (cells (fst (b_meta s')) new) = Length m"
    using fixed_part_fields(1,3) [OF fx(1)] by auto
  moreover have "ID (cells (fst (b_meta s')) r) = ID (cells (fst stt) r)" if "r \<in> set (ordered (snd stt))" for r
    using fixed_part_fields(1) [OF fx(2) [OF that]] .
  ultimately show "\<forall>r \<in> set (ordered (snd stt)). ID (cells (fst stt) r) \<noteq> ID m" "Length m \<le> 500 * 1024 * 1024"
    using assms(1) by (auto simp: plausible_def ord image_iff)
qed

section \<open>Segments stay readable\<close>

lemma Execute_failed_live:
  assumes "Execute rt scan wr p (st, t) s g = Some (Inl err, stt', s', g')"
  shows "snd stt' = t \<and> live_refs stt' = live_refs (st, t)"
proof (cases "validate st 0 (Inputs p)")
  case (Some e)
  then show ?thesis using assms by (auto simp: Execute_def)
next
  case None
  let ?rs = "map the (Inputs p)"
  obtain merged stt1 s1 where mg: "merge_inputs rt scan ?rs [] (set_flags True ?rs st, t) s = (merged, stt1, s1)"
    by (metis prod.collapse)
  have step: "stats_step (set_flags True ?rs st, t) stt1"
    using merge_inputs_stats [of "(set_flags True ?rs st, t)" rt scan ?rs "[]" s] by (simp add: mg)
  have "obsolete (cells (fst stt1) r) = obsolete (cells (set_flags True ?rs st) r)" for r
    by (rule stats_only_same(1)) (use step in \<open>simp add: stats_step_def\<close>)
  then have "live_refs (set_flags False ?rs (fst stt1), snd stt1) = live_refs (st, t)"
    using step by (simp add: live_refs_def stats_step_def)
  moreover have "stt' = (set_flags False ?rs (fst stt1), snd stt1)"
    using assms by (auto simp: Execute_def None mg Let_def split: option.splits sum.splits prod.splits)
  ultimately show ?thesis using step by (simp add: stats_step_def)
qed

lemma bench_writer_stride: "0 < stride bench_writer"
  by (simp add: bench_writer_def NewBuilder_stride)

lemma stored_ok_mono: "stored_ok h e \<Longrightarrow> (\<And>k. set (h k) \<subseteq> set (h' k)) \<Longrightarrow> stored_ok h' e"
  by (fastforce simp: stored_ok_def)

lemma serving_keep:
  assumes "serving h runs mem stt f" "same_segments stt stt'" "tracker_inv stt'" "file_ready f'"
    "sf_bytes f' = sf_bytes f @ suf" "int (length (sf_bytes f')) < 2 ^ 63" "live_refs stt' = live_refs stt"
  shows "serving h runs mem stt' f'"
proof -
  have "file_state bench_writer runs stt f" using assms(1) by (simp add: serving_def)
  from file_state_keep [OF this assms(2-6)] assms(7) have "file_state bench_writer runs stt' f'" by simp
  then show ?thesis using assms(1,7) by (simp add: serving_def)
qed

lemma serving_put:
  assumes "serving h runs mem stt f" "v \<noteq> []" "length k \<le> 1024 * 1024" "length v \<le> 10 * 1024 * 1024"
  shows "serving (h(k := v # h k)) runs (Put k (Some v) mem) stt f"
proof -
  let ?h = "h(k := v # h k)" and ?e = "live_entry k (Some v)"
  have inv: "mem_inv mem" using assms(1) by (simp add: serving_def)
  have mono: "stored_ok h e \<Longrightarrow> stored_ok ?h e" for e by (erule stored_ok_mono) auto
  have "stored_ok ?h ?e" using assms(2-4) by (simp add: stored_ok_def readable_def live_entry_def)
  moreover have "set (data (Put k (Some v) mem)) \<subseteq> insert ?e (set (data mem))"
    by (auto simp: data_Put [OF inv] stored_def)
  ultimately have "\<forall>e \<in> set (data (Put k (Some v) mem)). stored_ok ?h e"
    using assms(1) mono by (auto simp: serving_def)
  moreover have "\<forall>r \<in> live_refs stt. \<forall>e \<in> set (runs r). stored_ok ?h e"
    using assms(1) mono by (auto simp: serving_def)
  ultimately show ?thesis
    using assms(1) by (simp add: serving_def mem_inv_Put mem_map_Put inv)
qed

lemma scannable_stored:
  assumes "\<forall>e \<in> set es. stored_ok h e" "int (length (frames es)) \<le> 500 * 1024 * 1024"
  shows "scannable es"
proof -
  have "\<forall>e \<in> set es. readable e \<and> slice_bytes (Value e) \<noteq> []" using assms(1) by (auto simp: stored_ok_def)
  then have "parsable es" by (auto simp: parsable_def lone_empty_def)
  then show ?thesis using assms(2) by (simp add: scannable_def)
qed

lemma tracker_refs: "tracker_inv stt \<Longrightarrow> refs_ok stt"
  by (auto simp: tracker_inv_def refs_ok_def split: prod.splits)

lemma serving_refs: "serving h runs mem stt f \<Longrightarrow> tracker_inv stt \<and> refs_ok stt \<and> file_ready f"
  using tracker_refs by (auto simp: serving_def file_state_def)

text \<open>A run that is stored in a new segment may take the place of segments and of a memtable.\<close>

lemma serving_replace:
  assumes sv: "serving h runs mem stt f0" and mem': "mem_inv mem'" "\<forall>e \<in> set (data mem'). stored_ok h e"
    and fst: "file_state bench_writer (runs(new := E)) stt' f"
    and live: "live_refs stt' = insert new (live_refs stt - R)" "new \<notin> live_refs stt"
    and E: "\<forall>e \<in> set E. stored_ok h e"
    and cover: "\<And>x k. x \<in> R \<Longrightarrow> x \<in> live_refs stt \<Longrightarrow> run_map (runs x) k \<noteq> None \<Longrightarrow> run_map E k \<noteq> None"
      "\<And>k. mem_map mem k \<noteq> None \<Longrightarrow> mem_map mem' k \<noteq> None \<or> run_map E k \<noteq> None"
  shows "serving h (runs(new := E)) mem' stt' f"
proof -
  let ?runs = "runs(new := E)"
  have other: "?runs x = runs x" if "x \<in> live_refs stt" for x using that live(2) by auto
  have "mem_map mem' k \<noteq> None \<or> (\<exists>r \<in> live_refs stt'. run_map (?runs r) k \<noteq> None)" if hk: "h k \<noteq> []" for k
  proof -
    consider "mem_map mem k \<noteq> None" | x where "x \<in> live_refs stt" "run_map (runs x) k \<noteq> None"
      using sv hk unfolding serving_def by blast
    then show ?thesis
    proof cases
      case 1
      then show ?thesis using cover(2) [of k] by (auto simp: live)
    next
      case (2 x)
      then have "x \<in> R \<Longrightarrow> run_map (?runs new) k \<noteq> None" "run_map (?runs x) k \<noteq> None"
        using cover(1) [of x k] other [of x] by simp_all
      then show ?thesis using 2(1) unfolding live(1) by blast
    qed
  qed
  moreover have "\<forall>r \<in> live_refs stt'. \<forall>e \<in> set (?runs r). stored_ok h e"
    using sv E other by (auto simp: live serving_def)
  ultimately show ?thesis using mem' fst unfolding serving_def by blast
qed

lemma stored_run_fits:
  assumes "\<forall>e \<in> set E. stored_ok h e" "WriteSegment bench_writer os u n0 E strat lvl f0 g = Some (Inr (Some m), f, g')"
    "Length m \<le> 500 * 1024 * 1024" "int (length (sf_bytes f)) < 2 ^ 57"
  shows "file_fits bench_writer E f"
proof -
  have "scannable E" by (rule scannable_stored [OF assms(1)]) (use WriteSegment_adds [OF assms(2)] assms(3) in simp)
  then show ?thesis using assms(4) bench_writer_stride by (simp add: file_fits_def)
qed

lemma file_state_flush:
  assumes fst: "file_state bench_writer runs (st, t) f0"
    and w: "WriteSegment bench_writer os u n0 es strat lvl f0 g = Some (Inr (Some seg), f, g')"
    and run: "sorted_run es" "file_fits bench_writer es f"
    and new: "alloc seg st = (r, st1)" "\<forall>r' \<in> set (ordered t). ID (cells st r') \<noteq> ID seg"
  shows "file_state bench_writer (runs(r := es)) (RegisterSegment rt r (st1, t)) f \<and>
    live_refs (RegisterSegment rt r (st1, t)) = insert r (live_refs (st, t)) \<and> r \<notin> live_refs (st, t)"
proof -
  have ref: "tracker_inv (st, t)" "refs_ok (st, t)" "file_ready f0"
    using fst tracker_refs by (auto simp: file_state_def)
  obtain st' t' where stt': "RegisterSegment rt r (st1, t) = (st', t')" by fastforce
  obtain n where reg: "tracker_inv (st', t')" "ordered t' = r # ordered t" "r = fresh st"
    "cells st' r = seg\<lparr>OverlapCount := n\<rparr>" "\<forall>r'. r' \<noteq> r \<longrightarrow> cells st' r' = cells st r'"
    using RegisterSegment_new [OF ref(1) new, of rt] unfolding stt' prod.inject by blast
  note fw = file_write_ok [OF ref(3) run(1) w run(2)]
  have old: "x \<noteq> r" if "x \<in> set (ordered t)" for x using ref(2) that reg(3) by (auto simp: refs_ok_def)
  have "file_holds bench_writer f (cells st' r) es" using fw by (simp add: reg(4) sst.holds_frame)
  then have "file_state bench_writer (runs(r := es)) (st', t') f"
    using fst reg fw old by (auto simp: file_state_def)
  then show ?thesis using fw old reg(2,4,5) by (auto simp: stt' live_refs_def)
qed

lemma serving_flush:
  assumes "serving h runs (b_mem s) (b_meta s) (b_file s)" "flush_full rt mode trunc env s = Some s'" "plausible s'"
  shows "serves h s'"
  using assms(2)
proof (cases rule: flush_full_cases)
  case idle
  then show ?thesis using assms(1) by (auto simp: serves_def)
next
  case (written seg r st1)
  obtain st t where meta: "b_meta s = (st, t)" by fastforce
  let ?es = "data (b_mem s)"
  have fst: "file_state bench_writer runs (st, t) (b_file s)" using assms(1) by (simp add: serving_def meta)
  have al: "alloc seg st = (r, st1)" and b: "b_meta s' = RegisterSegment rt r (st1, t)"
    using written(3,4) by (simp_all add: meta)
  have "one_more (st, t) seg r (b_meta s')" unfolding b by (rule one_more_Register [OF al])
  from plausible_new [OF assms(3) this] serving_refs [OF assms(1)]
  have uid: "\<forall>r' \<in> set (ordered t). ID (cells st r') \<noteq> ID seg" and len: "Length seg \<le> 500 * 1024 * 1024"
    by (auto simp: meta)
  have es: "\<forall>e \<in> set ?es. stored_ok h e" "sorted_run ?es" using assms(1) by (auto simp: serving_def mem_inv_def)
  have fits: "file_fits bench_writer ?es (b_file s')"
    by (rule stored_run_fits [OF es(1) written(2) len]) (use assms(3) in \<open>simp add: plausible_def\<close>)
  note new = file_state_flush [OF fst written(2) es(2) fits al uid, of rt, folded b]
  have "serving h (runs(r := ?es)) (b_mem s') (b_meta s') (b_file s')"
    by (rule serving_replace [OF assms(1), where R = "{}"])
       (use new es in \<open>auto simp: written(5) mem_inv_def mem_map_def meta\<close>)
  then show ?thesis by (auto simp: serves_def)
qed

lemma serving_probe:
  assumes "serving h runs (b_mem s) (b_meta s) (b_file s)" "probe_step rt key i s = Some (k, s')" "plausible s'"
  shows "serves h s'"
proof -
  obtain x stt f g where hl: "handler_loop (reader_Get (it_mmap i)) key (GetSegmentsForKey rt key (b_meta s)) (b_meta s)
      (b_file s) (b_globals s) = Some (x, stt, f, g)"
    and s': "s' = s\<lparr>totalReads := i64 (totalReads s + 1), b_meta := stt, b_file := f, b_globals := g\<rparr>"
    using assms(2) by (auto simp: probe_step_def Let_def split: option.splits)
  note ref = serving_refs [OF assms(1)]
  have fr: "stats_step (b_meta s) stt" "same_file (b_file s) f"
    using handler_loop_frame [OF _ hl] ref by (auto simp: file_ready_def)
  have "obsolete (cells (fst stt) r) = obsolete (cells (fst (b_meta s)) r)" for r
    by (rule stats_only_same(1)) (use fr(1) in \<open>simp add: stats_step_def\<close>)
  then have live: "live_refs stt = live_refs (b_meta s)" using fr(1) by (simp add: live_refs_def stats_step_def)
  have "serving h runs (b_mem s) stt f"
  proof (rule serving_keep [OF assms(1) same_segments_stats [OF fr(1)] _ _ _ _ live])
    show "tracker_inv stt"
      by (rule tracker_inv_same [OF _ same_segments_stats [OF fr(1)]]) (use ref fr(1) in \<open>simp_all add: stats_step_def\<close>)
    show "file_ready f" using ref fr(2) by (simp add: file_ready_def same_file_def)
    show "sf_bytes f = sf_bytes (b_file s) @ []" using fr(2) by (simp add: same_file_def)
    show "int (length (sf_bytes f)) < 2 ^ 63" using assms(3) by (simp add: plausible_def s')
  qed
  then show ?thesis by (auto simp: serves_def s')
qed

section \<open>A compaction keeps what is stored\<close>

lemma merged_values_simps: "merged_values [] = Map.empty" "merged_values (xs @ [x]) = merged_values xs ++ live_value x"
  by (simp_all add: merged_values_def)

lemma merged_values_Some: "merged_values xs k = Some v \<Longrightarrow> \<exists>es \<in> set xs. live_value es k = Some v"
  by (induction xs rule: rev_induct) (auto simp: merged_values_simps map_add_Some_iff)

lemma merged_values_None: "merged_values xs k = None \<Longrightarrow> es \<in> set xs \<Longrightarrow> live_value es k = None"
  by (induction xs rule: rev_induct) (auto simp: merged_values_simps)

lemma live_value_stored:
  assumes "\<forall>e \<in> set es. stored_ok h e"
  shows "live_value es k = Some v \<Longrightarrow> \<exists>e \<in> set es. e = live_entry k (Some v)" "run_map es k \<noteq> None \<Longrightarrow> live_value es k \<noteq> None"
proof -
  have val: "scan_value e = Value e" "e = live_entry (Key e) (Value e)" if "e \<in> set es" for e
    using assms that by (auto simp: stored_ok_def scan_value_def nonempty_def live_entry_def)
  show "\<exists>e \<in> set es. e = live_entry k (Some v)" if lv: "live_value es k = Some v"
  proof -
    obtain e where e: "run_map es k = Some e" "scan_value e = Some v"
      using lv by (auto simp: live_value_def split: option.splits)
    then show ?thesis using run_map_SomeD [OF e(1)] val by metis
  qed
  show "live_value es k \<noteq> None" if rm: "run_map es k \<noteq> None"
  proof -
    obtain e where e: "run_map es k = Some e" using rm by blast
    then have "e \<in> set es" using run_map_SomeD by blast
    then show ?thesis using e val(1) assms by (fastforce simp: live_value_def stored_ok_def)
  qed
qed

text \<open>The inputs of a plan, and what the writer is given for them.\<close>

definition calm_tick :: "tick_env \<Rightarrow> bool" where
  "calm_tick k \<longleftrightarrow> tk_scan k = (all_done, all_done)"

lemma merged_stored:
  assumes "\<forall>es \<in> set xs. \<forall>e \<in> set es. stored_ok h e" "sorted_run E"
    "\<forall>k. run_map E k = map_option (\<lambda>v. live_entry k (Some v)) (merged_values xs k)"
  shows "\<forall>e \<in> set E. stored_ok h e" "es \<in> set xs \<Longrightarrow> run_map es k \<noteq> None \<Longrightarrow> run_map E k \<noteq> None"
proof -
  show "\<forall>e \<in> set E. stored_ok h e"
  proof
    fix e assume "e \<in> set E"
    then have "run_map E (Key e) = Some e" by (rule run_map_mem [OF assms(2)])
    then obtain v where v: "merged_values xs (Key e) = Some v" "e = live_entry (Key e) (Some v)"
      using assms(3) by auto
    obtain es where es: "es \<in> set xs" "live_value es (Key e) = Some v" using merged_values_Some [OF v(1)] by blast
    then obtain e' where "e' \<in> set es" "e' = live_entry (Key e) (Some v)"
      using live_value_stored(1) [of es h] assms(1) by blast
    then have "e \<in> set es" using v(2) by simp
    then show "stored_ok h e" using assms(1) es(1) by blast
  qed
  show "run_map E k \<noteq> None" if es: "es \<in> set xs" and k: "run_map es k \<noteq> None"
  proof -
    have "\<forall>e \<in> set es. stored_ok h e" using assms(1) es by blast
    then have "live_value es k \<noteq> None" using k by (rule live_value_stored(2))
    then have "merged_values xs k \<noteq> None" using merged_values_None [OF _ es] by metis
    then show ?thesis using assms(3) by simp
  qed
qed

lemma serving_run_plan_failed:
  assumes "serving h runs (b_mem s) (b_meta s) (b_file s)" "run_plan rt k p s = Some (Inl e, s')" "plausible s'"
  shows "serves h s'"
proof -
  obtain st t where meta: "b_meta s = (st, t)" by fastforce
  note ref = serving_refs [OF assms(1)]
  have "quiet s s'" "b_mem s' = b_mem s"
    using run_plan_effect [OF assms(2)] ref by (simp_all add: file_ready_def)
  moreover have "snd (b_meta s') = t \<and> live_refs (b_meta s') = live_refs (st, t)"
    using assms(2) by (auto simp: run_plan_def meta split: option.splits dest: Execute_failed_live)
  ultimately have "serving h runs (b_mem s) (b_meta s') (b_file s')"
    using serving_keep [OF assms(1), of "b_meta s'" "b_file s'"] tracker_inv_same [of "b_meta s" "b_meta s'"] ref assms(3)
    by (auto simp: quiet_def meta plausible_def file_ready_def)
  then show ?thesis using \<open>b_mem s' = b_mem s\<close> by (auto simp: serves_def)
qed

lemma serving_run_plan_done:
  assumes "go_runtime rt" "calm_tick k" "serving h runs (b_mem s) (b_meta s) (b_file s)"
    "plan_ok (b_meta s) p" "run_plan rt k p s = Some (Inr new, s')" "plausible s'"
  shows "serves h s'"
proof -
  obtain st t where meta: "b_meta s = (st, t)" by fastforce
  let ?wr = "WriteSegment bench_writer (tk_append k) (tk_uuid k) (tk_now k)"
  obtain st' t' f g where ex: "Execute rt (reader_Scan all_done all_done) ?wr p (st, t) (b_file s) (b_globals s) =
      Some (Inr new, (st', t'), f, g)"
    and s': "s' = s\<lparr>b_meta := (st', t'), b_file := f, b_globals := g\<rparr>"
    using assms(2,5) by (auto simp: run_plan_def meta calm_tick_def split: option.splits)
  note ref = serving_refs [OF assms(3), unfolded meta]
  have fst: "file_state bench_writer runs (st, t) (b_file s)" using assms(3) by (simp add: serving_def meta)
  obtain rs where rs: "Inputs p = map Some rs" "\<forall>x \<in> set rs. x \<in> live_refs (st, t)"
    using assms(4) by (auto simp: plan_ok_def meta live_refs_def)
  then have sub: "set rs \<subseteq> set (ordered t)" by (auto simp: live_refs_def)
  have hold: "\<forall>x \<in> set rs. file_holds bench_writer (b_file s) (cells st x) (runs x)"
    using fst rs(2) by (auto simp: file_state_def live_refs_def)
  note io = file_compaction_io [OF assms(1), of bench_writer "tk_append k" "tk_uuid k" "tk_now k"]
  obtain E s1 m where E: "sorted_run E"
    "\<forall>k. run_map E k = map_option (\<lambda>v. live_entry k (Some v)) (merged_values (map runs rs) k)"
    and w: "?wr E (OutputStrategy p) (TargetLevel p) s1 (b_globals s) = Some (Inr (Some m), f, g)"
    and one: "one_more (st, t) m new (st', t')"
    using compaction_io.Execute_output [OF io _ rs(1) hold ex] ref by blast
  have one': "one_more (st, t) m new (b_meta s')" using one by (simp add: s')
  from plausible_new [OF assms(6) one'] ref
  have uid: "\<forall>x \<in> set (ordered t). ID (cells st x) \<noteq> ID m" and len: "Length m \<le> 500 * 1024 * 1024" by auto
  have "fixed_part (cells st' new) = fixed_part m" using one unfolding one_more_def fst_conv by blast
  then have "ID (cells st' new) = ID m" by (rule fixed_part_fields(1))
  with uid have uid': "\<forall>x \<in> set (ordered t). ID (cells st x) \<noteq> ID (cells st' new)" by simp
  have src: "\<forall>es \<in> set (map runs rs). \<forall>e \<in> set es. stored_ok h e"
    using assms(3) rs(2) by (auto simp: serving_def meta)
  note ok = merged_stored [OF src E]
  have fits: "file_fits bench_writer E f"
    by (rule stored_run_fits [OF ok(1) w len]) (use assms(6) in \<open>simp add: plausible_def s'\<close>)
  note fin = file_state_compaction [OF assms(1) fst rs(1) sub ex uid' E(1) spec [OF E(2)] fits]
  have old: "x \<noteq> new" if "x \<in> set (ordered t)" for x
    using one ref that by (auto simp: one_more_def refs_ok_def)
  have live: "live_refs (st', t') = insert new (live_refs (st, t) - set rs)"
    using fin old stats_only_same(1) by (fastforce simp: live_refs_def)
  have "new \<notin> live_refs (st, t)" using old by (auto simp: live_refs_def)
  moreover have "run_map E key \<noteq> None" if "x \<in> set rs" "run_map (runs x) key \<noteq> None" for x key
    using ok(2) [of "runs x"] that by auto
  ultimately have "serving h (runs(new := E)) (b_mem s) (st', t') f"
    by (intro serving_replace [OF assms(3) _ _ conjunct1 [OF fin], where R = "set rs"])
      (use assms(3) live ok(1) in \<open>simp_all add: meta serving_def\<close>)
  then show ?thesis by (auto simp: serves_def s')
qed

lemma serving_run_plan:
  assumes "go_runtime rt" "calm_tick k" "serving h runs (b_mem s) (b_meta s) (b_file s)"
    "plan_ok (b_meta s) p" "run_plan rt k p s = Some (r, s')" "plausible s'"
  shows "serves h s'"
  using assms serving_run_plan_failed [OF assms(3) _ assms(6)] serving_run_plan_done [OF assms(1-4) _ assms(6)]
  by (cases r) auto

section \<open>Runs of events\<close>

fun record_put :: "int \<Rightarrow> event \<Rightarrow> history \<Rightarrow> history" where
  "record_put vs (EvPut mode key i) h = h(key := make_value vs (it_value i) # h key)"
| "record_put vs ev h = h"

text \<open>The values put under each key, the last one first.\<close>

definition history_of_run :: "int \<Rightarrow> event list \<Rightarrow> history" where
  "history_of_run vs evs = fold (record_put vs) evs (\<lambda>_. [])"

fun calm :: "event \<Rightarrow> bool" where
  "calm (EvPut mode key i) \<longleftrightarrow> length key \<le> 1024 * 1024"
| "calm (EvTick k) \<longleftrightarrow> calm_tick k"
| "calm (EvCompact k) \<longleftrightarrow> calm_tick k"
| "calm ev \<longleftrightarrow> True"

lemma serves_refs: "serves h s \<Longrightarrow> sf_inv (b_file s) \<and> refs_ok (b_meta s)"
  unfolding serves_def file_ready_def [symmetric] using serving_refs file_ready_def by blast

lemma serves_tick:
  assumes "go_runtime rt" "calm_tick k" "serves h s" "bg_tick rt k s = Some s' \<or> last_compaction rt k s = Some s'"
    "plausible s'"
  shows "serves h s'"
proof -
  obtain runs where sv: "serving h runs (b_mem s) (b_meta s) (b_file s)" using assms(3) by (auto simp: serves_def)
  consider d where "s' = s\<lparr>b_director := d\<rparr>"
    | p d r s1 where "MaybePlan rt (tk_clock k) (b_meta s) (b_director s) = (Some p, d)"
      "run_plan rt k p (s\<lparr>b_director := d\<rparr>) = Some (r, s1)" "s' = s1 \<or> (\<exists>new. s' = count_compaction new s1)"
    using assms(4)
  proof
    assume "bg_tick rt k s = Some s'"
    then show thesis by (cases rule: bg_tick_cases) (use that in blast)+
  next
    assume "last_compaction rt k s = Some s'"
    then show thesis by (cases rule: last_compaction_cases) (use that in blast)+
  qed
  then show ?thesis
  proof cases
    case 1
    then show ?thesis using assms(3) by (simp add: serves_def)
  next
    case (2 p d r s1)
    have eq: "b_mem s' = b_mem s1" "b_meta s' = b_meta s1" "b_file s' = b_file s1"
      using 2(3) by (auto simp: count_compaction_def)
    have "plan_ok (b_meta s) p"
      using go_runtime.MaybePlan_ok [OF assms(1)] 2(1) serving_refs [OF sv] by (metis prod.collapse)
    then have "serves h s1"
      using serving_run_plan [OF assms(1,2), of h runs "s\<lparr>b_director := d\<rparr>" p r s1] sv 2(2) assms(5)
      by (simp add: plausible_def eq)
    then show ?thesis by (simp add: serves_def eq)
  qed
qed

lemma serves_event:
  assumes "go_runtime rt" "0 < vs" "vs \<le> 10 * 1024 * 1024" "calm ev" "serves h s"
    "bench_step rt vs ev s = Some s'" "plausible s'"
  shows "serves (record_put vs ev h) s'"
proof -
  obtain runs where sv: "serving h runs (b_mem s) (b_meta s) (b_file s)" using assms(5) by (auto simp: serves_def)
  show ?thesis
  proof (cases ev)
    case (EvPut mode key i)
    let ?v = "make_value vs (it_value i)"
    have "length ?v = nat vs" "nat vs \<noteq> 0" "nat vs \<le> 10 * 1024 * 1024"
      using assms(2,3) by (simp_all add: make_value_def)
    then have "?v \<noteq> []" "length ?v \<le> 10 * 1024 * 1024" by auto
    then have "serving (h(key := ?v # h key)) runs (Put key (Some ?v) (b_mem s)) (b_meta s) (b_file s)"
      using serving_put [OF sv] assms(4) by (simp add: EvPut)
    then show ?thesis
      using serving_flush [of _ runs "after_put mode vs key i s"] assms(6,7) by (simp add: EvPut put_step_flush)
  next
    case (EvFlush mode env)
    then show ?thesis using serving_flush [OF sv] assms(6,7) by simp
  next
    case (EvProbe key i)
    then show ?thesis using serving_probe [OF sv] assms(6,7) by auto
  next
    case (EvScans n)
    then show ?thesis using assms(5,6) by (auto simp: serves_def add_scans_def)
  next
    case EvReset
    then show ?thesis using assms(5,6) by (auto simp: serves_def reset_bytes_def)
  qed (use serves_tick [OF assms(1) _ assms(5) _ assms(7)] assms(4,6) in auto)
qed

lemma event_keeps_refs:
  assumes "bench_step rt vs ev s = Some s'" "sf_inv (b_file s)" "refs_ok (b_meta s)"
  shows "sf_inv (b_file s') \<and> refs_ok (b_meta s') \<and> (plausible s' \<longrightarrow> plausible s)"
proof (cases "ev = EvReset")
  case True
  then show ?thesis using assms by (auto simp: reset_bytes_def plausible_def)
next
  case False
  then consider "quiet s s'" | m new where "registers (counted ev) s m new s'"
    using step_effect [OF assms(1,2)] by auto
  then show ?thesis
  proof cases
    case 1
    then show ?thesis
      using plausible_quiet [OF _ 1] refs_ok_same [of "b_meta s" "b_meta s'"] assms(3) by (simp add: quiet_def)
  next
    case 2
    then show ?thesis
      using plausible_registers [OF _ 2 assms(3)] refs_ok_one_more [of "b_meta s" m new "b_meta s'"] assms(3)
      by (simp add: registers_def)
  qed
qed

lemma run_plausible:
  "run_events rt vs evs s = Some s' \<Longrightarrow> sf_inv (b_file s) \<Longrightarrow> refs_ok (b_meta s) \<Longrightarrow> plausible s' \<Longrightarrow> plausible s"
proof (induction evs arbitrary: s)
  case (Cons ev evs)
  obtain s1 where s1: "bench_step rt vs ev s = Some s1" "run_events rt vs evs s1 = Some s'"
    using Cons.prems(1) by (auto split: option.splits)
  from event_keeps_refs [OF s1(1) Cons.prems(2,3)] Cons.IH [OF s1(2)] Cons.prems(4) show ?case by blast
qed simp

lemma serves_run:
  assumes "go_runtime rt" "0 < vs" "vs \<le> 10 * 1024 * 1024"
  shows "list_all calm evs \<Longrightarrow> serves h s \<Longrightarrow> run_events rt vs evs s = Some s' \<Longrightarrow> plausible s' \<Longrightarrow>
    serves (fold (record_put vs) evs h) s'"
proof (induction evs arbitrary: h s)
  case (Cons ev evs)
  obtain s1 where s1: "bench_step rt vs ev s = Some s1" "run_events rt vs evs s1 = Some s'"
    using Cons.prems(3) by (auto split: option.splits)
  have "sf_inv (b_file s) \<and> refs_ok (b_meta s)"
    using Cons.prems(2) by (rule serves_refs)
  then have "plausible s1"
    using run_plausible [OF s1(2)] event_keeps_refs [OF s1(1)] Cons.prems(4) by blast
  then have "serves (record_put vs ev h) s1"
    using serves_event [OF assms _ Cons.prems(2) s1(1)] Cons.prems(1) by simp
  then show ?case using Cons.IH Cons.prems(1,4) s1(2) by simp
qed simp

lemma initial_serves:
  assumes "initial_bench w n = Some s"
  shows "serves (\<lambda>_. []) s" "liveKeys s = []"
proof -
  obtain f where f: "NewSegmentFileManager (w_open_file w) (w_file_left w) = Inr f"
    and s: "b_file s = f" "b_meta s = (empty_store, NewTracker)" "b_mem s = NewMemtable n" "liveKeys s = []"
    using assms by (auto simp: initial_bench_def split: sum.splits)
  have "\<not> sf_closed f" using f by (cases "w_open_file w") auto
  then have "file_state bench_writer (\<lambda>_. []) (empty_store, NewTracker) f"
    using sf_inv_New [OF f] tracker_inv_New by (simp add: file_state_def file_ready_def NewTracker_def)
  then have "serving (\<lambda>_. []) (\<lambda>_. []) (b_mem s) (b_meta s) (b_file s)"
    by (simp add: serving_def s live_refs_def NewTracker_def NewMemtable_def mem_inv_def)
  then show "serves (\<lambda>_. []) s" "liveKeys s = []" by (auto simp: serves_def s)
qed

section \<open>Reads\<close>

lemma first_live_some:
  "\<exists>r \<in> set segs. snd (entry_result (f r)) \<Longrightarrow>
   \<exists>r \<in> set segs. first_live (map f segs) = entry_result (f r) \<and> snd (entry_result (f r))"
  by (induction segs) auto

lemma stored_result:
  assumes "stored_ok h e" "Key e = key"
  shows "\<exists>v \<in> set (h key). entry_result (Some e) = (Some v, True)"
  using assms by (auto simp: stored_ok_def entry_result_def nonempty_def)

lemma serves_hit:
  assumes "serving h runs mem stt f" "mem_map mem key = Some e"
  shows "\<exists>v \<in> set (h key). Get key mem = (Some v, True)"
proof -
  have inv: "mem_inv mem" using assms(1) by (simp add: serving_def)
  have e: "e \<in> set (data mem)" "Key e = key" using assms(2) run_map_SomeD by (auto simp: mem_map_def)
  then have "stored_ok h e" using assms(1) by (simp add: serving_def)
  then obtain v where "v \<in> set (h key)" "\<not> Tombstone e" "Value e = Some v"
    using e(2) by (auto simp: stored_ok_def)
  then show ?thesis using assms(2) inv by (auto simp: Get_run_map mem_map_def)
qed

text \<open>Among the candidates for a key, a segment that answers is found exactly when there is one.\<close>

lemma serves_first_live:
  assumes "go_runtime rt" "serving h runs mem stt f" "mem_map mem key = None"
    and r: "r = first_live (map (\<lambda>r. run_map (runs r) key) (GetSegmentsForKey rt key stt))"
  shows "if h key = [] then r = (None, False) else \<exists>v \<in> set (h key). r = (Some v, True)"
proof -
  let ?segs = "GetSegmentsForKey rt key stt" and ?f = "\<lambda>r. run_map (runs r) key"
  have segs: "set ?segs = {r \<in> live_refs stt. in_key_range key (cells (fst stt) r)}"
    using go_runtime.GetSegmentsForKey_set [OF assms(1), of key "fst stt" "snd stt"] by (auto simp: live_refs_def)
  have found: "\<exists>v \<in> set (h key). entry_result (?f x) = (Some v, True)"
    if "x \<in> live_refs stt" "?f x = Some e" for x e
    using stored_result [of h e key] run_map_SomeD [OF that(2)] assms(2) that by (auto simp: serving_def)
  show ?thesis
  proof (cases "h key = []")
    case True
    then have "\<forall>x \<in> set ?segs. \<not> snd (entry_result (?f x))"
      using found by (fastforce simp: segs entry_result_def split: option.splits)
    then show ?thesis using True first_live_none r by auto
  next
    case False
    then obtain x where x: "x \<in> live_refs stt" "?f x \<noteq> None"
      using assms(2,3) by (auto simp: serving_def)
    then have "file_holds bench_writer f (cells (fst stt) x) (runs x)"
      using assms(2) by (cases stt) (simp add: serving_def file_state_def live_refs_def)
    then have "in_key_range key (cells (fst stt) x)"
      using out_of_range_None [of "runs x" key] x(2)
      by (fastforce simp: file_holds_def seg_holds_def in_key_range_def not_less [symmetric])
    then have "\<exists>x \<in> set ?segs. snd (entry_result (?f x))" using x found by (fastforce simp: segs)
    from first_live_some [OF this] obtain y where y: "y \<in> set ?segs"
      "first_live (map ?f ?segs) = entry_result (?f y)" "snd (entry_result (?f y))" by blast
    then obtain e where e: "?f y = Some e" by (auto simp: entry_result_def split: option.splits)
    show ?thesis using found [OF _ e] y(1,2) False by (auto simp: segs r)
  qed
qed

lemma serves_reads:
  assumes "go_runtime rt" "serves h s"
  shows "\<exists>r x. handler_Get rt (reader_Get all_done) key (b_mem s) (b_meta s) (b_file s) (b_globals s) = Some (r, x) \<and>
    (if h key = [] then r = (None, False) else \<exists>v \<in> set (h key). r = (Some v, True))"
proof -
  obtain runs where sv: "serving h runs (b_mem s) (b_meta s) (b_file s)" using assms(2) by (auto simp: serves_def)
  obtain st t where meta: "b_meta s = (st, t)" by fastforce
  show ?thesis
  proof (cases "mem_map (b_mem s) key")
    case (Some e)
    then show ?thesis using serves_hit [OF sv Some] by (cases "h key = []") (auto simp: handler_Get_def)
  next
    case None
    then have miss: "\<not> snd (Get key (b_mem s))" using sv by (simp add: serving_def Get_run_map mem_map_def)
    have fst: "file_state bench_writer runs (st, t) (b_file s)" using sv by (simp add: serving_def meta)
    show ?thesis
      using handler_Get_miss [OF assms(1) fst miss] serves_first_live [OF assms(1) sv None refl] unfolding meta by blast
  qed
qed

end
