(* ===== verification/Reader_Limits.thy ===== *)
theory Reader_Limits
  imports Sstable_Reader
begin

text \<open>
  What a lookup of \<^verbatim>\<open>internal/sstable/reader/reader.go\<close> costs and when it ends: the number of frames
  it compares, on a segment that was written and on arbitrary bytes, and the agreement of the
  indexed lookup with one that scans the segment from its first frame.
\<close>

section \<open>Arbitrary bytes\<close>

lemma parse_frame_consumes: "parse_frame bs = Frame k v t rest \<Longrightarrow> length rest + 9 \<le> length bs"
  by (auto simp: parse_frame_def bin_read_def buf_read_def Let_def split: if_splits option.splits prod.splits)

text \<open>Every comparison but the last has consumed a frame of nine bytes or more.\<close>

lemma get_loop_count:
  assumes "get_loop target buf c = (r, c', commit)" "0 \<le> c" "c + int (length buf) < 2 ^ 63"
  shows "c \<le> c' \<and> 9 * (c' - c) \<le> int (length buf) + 8"
  using assms
proof (induction target buf c arbitrary: r c' commit rule: get_loop.induct)
  case (1 target buf c)
  show ?case
  proof (cases "buf = []")
    case True
    then show ?thesis using 1(2) by (subst (asm) get_loop.simps) simp
  next
    case False
    then have "1 \<le> int (length buf)" by (cases buf) simp_all
    then have c: "i64 (c + 1) = c + 1" using 1(3,4) by (intro i64_id) auto
    show ?thesis
    proof (cases "parse_frame buf")
      case (Frame k v t rest)
      note len = parse_frame_consumes [OF Frame]
      show ?thesis
      proof (cases "k < target")
        case True
        then have rest: "get_loop target rest (c + 1) = (r, c', commit)"
          using 1(2) \<open>buf \<noteq> []\<close> Frame c less_imp_neq [OF True] less_not_sym [OF True]
          by (simp only: get_loop.simps [of target buf c] Let_def frame_result.simps if_False)
        have "c + 1 \<le> c' \<and> 9 * (c' - (c + 1)) \<le> int (length rest) + 8"
          using 1(1) [OF False refl Frame, unfolded c, OF _ _ rest] True 1(3,4) len by simp
        then show ?thesis using len by simp
      next
        case False
        then have "c' = c + 1"
          using 1(2) \<open>buf \<noteq> []\<close> Frame c by (subst (asm) get_loop.simps) (auto simp: Let_def split: if_splits)
        then show ?thesis using len by simp
      qed
    qed (use 1(2) False c \<open>1 \<le> int (length buf)\<close> in \<open>subst (asm) get_loop.simps, simp add: Let_def\<close>)+
  qed
qed

text \<open>The search of the index stays in range without any order of the keys.\<close>

lemma search_loop_le: "i \<le> j \<Longrightarrow> fst (search_loop f c i j) \<le> j"
proof (induction f c i j rule: search_loop.induct)
  case (1 f c i j)
  let ?h = "(i + j) div 2"
  show ?case
  proof (cases "i < j")
    case True
    then have h: "i \<le> ?h" "?h < j" by auto
    then show ?thesis
      using "1.IH"(1) [OF True refl] "1.IH"(2) [OF True refl] True
      by (subst search_loop.simps) (auto simp: Let_def intro: le_less_trans less_imp_le)
  next
    case False
    then show ?thesis using "1.prems" by (subst search_loop.simps) simp
  qed
qed

lemma Seek_total:
  assumes "length (Offsets idx) = length (Keys idx)"
  obtains off k where "Seek idx target = Some (off, k)" "2 ^ k \<le> max 1 (2 * length (Keys idx))"
proof -
  have "go_search (length (Keys idx)) f \<le> length (Keys idx)" for f
    using search_loop_le [of 0 _ f 0] by (simp add: go_search_def)
  moreover have "i - 1 < n" if "i \<le> n" "n \<noteq> 0" for i n :: nat using that by linarith
  ultimately have "\<exists>off k. Seek idx target = Some (off, k)" by (simp add: Seek_def Let_def assms)
  then obtain off k where k: "Seek idx target = Some (off, k)" by blast
  have "2 ^ k \<le> max 1 (2 * length (Keys idx))"
  proof (cases "Keys idx = []")
    case True
    then show ?thesis using k by (simp add: Seek_def)
  next
    case False
    then show ?thesis using Seek_calls [OF k] by simp
  qed
  with k show thesis by (rule that)
qed

text \<open>Any outcomes of the mapping: a lookup panics neither in \<open>Seek\<close> nor in the slice expression.\<close>

lemma get_body_returns:
  assumes "\<forall>idx. SparseIndex m = Some idx \<longrightarrow> length (Offsets idx) = length (Keys idx)"
  shows "get_body os (Some m) target s \<noteq> None"
proof (cases "SparseIndex m")
  case (Some idx)
  obtain off k where "Seek idx target = Some (off, k)" by (rule Seek_total [OF spec [OF assms, THEN mp, OF Some]])
  then show ?thesis
    using Some by (auto simp: get_body_def go_slice_def Let_def simp del: not_None_eq split: prod.split sum.split)
qed (simp add: get_body_def Let_def del: not_None_eq)

lemma reader_Get_returns:
  assumes "obsolete m \<or> (\<forall>idx. SparseIndex m = Some idx \<longrightarrow> length (Offsets idx) = length (Keys idx))"
  shows "reader_Get os (Some m) target s g \<noteq> None"
proof -
  have "get_body os (Some m) target s \<noteq> None"
    using assms get_body_returns [of m os target s] by (cases "obsolete m") (auto simp: get_body_def IsObsolete_def Let_def simp del: not_None_eq)
  then show ?thesis by (auto simp: reader_Get_def Let_def)
qed

text \<open>The index of a written segment has as many offsets as keys.\<close>

lemma file_holds_index:
  "file_holds b s m es \<Longrightarrow> \<forall>idx. SparseIndex m = Some idx \<longrightarrow> length (Offsets idx) = length (Keys idx)"
  by (auto simp: file_holds_def seg_holds_def sampled_index_def)

lemma get_body_any:
  assumes "sf_inv s" "length (sf_bytes s) < 2 ^ 61" "SparseIndex m = Some idx"
    "length (Offsets idx) = length (Keys idx)" "length (Keys idx) < 2 ^ 61"
  shows "\<exists>r c commit s' k. get_body os (Some m) target s = Some ((r, c, commit), s') \<and>
    sf_bytes s' = sf_bytes s \<and> 2 ^ k \<le> max 1 (2 * length (Keys idx)) \<and> 0 \<le> c \<and>
    9 * (c - int k) \<le> int (length (sf_bytes s)) + 8"
proof -
  have early: ?thesis if "get_body os (Some m) target s = Some (((None, False), 0, False), s')"
    "sf_bytes s' = sf_bytes s" for s'
    using that by (auto intro!: exI [of _ "0 :: nat"])
  obtain off k where seek: "Seek idx target = Some (off, k)" "2 ^ k \<le> max 1 (2 * length (Keys idx))"
    by (rule Seek_total [OF assms(4)])
  have "k < 2 ^ k" by simp
  from less_le_trans [OF this seek(2)] have "k < 2 ^ 62" using assms(5) by (auto simp: max_def split: if_splits)
  then have k: "i64 (int k) = int k" "int k < 2 ^ 62" by (auto intro!: i64_id)
  show ?thesis
  proof (cases "IsObsolete m \<or> target < MinKey m \<or> MaxKey m < target")
    case True
    then show ?thesis by (intro early [of s]) (auto simp: get_body_def Let_def)
  next
    case False
    obtain x s' where x: "mmap_bytes os s = (x, s')" by fastforce
    show ?thesis
    proof (cases x)
      case (Inl e)
      then show ?thesis
        using x False mmap_bytes_err [OF assms(1)] assms(3) by (intro early [of s']) (auto simp: get_body_def Let_def)
    next
      case (Inr d)
      then have d: "mmap_bytes os s = (Inr d, s')" "d = sf_bytes s" "sf_bytes s' = sf_bytes s"
        using x mmap_bytes_ok [OF assms(1)] by simp_all
      define start where "start = i64 (i64 (Offset m + DataStartOffset m) + off)"
      define stop where "stop = i64 (Offset m + SparseIndexOffset m)"
      let ?buf = "sub_slice d start stop"
      have slice: "go_slice d start stop = Some ?buf"
        if "\<not> (start < 0 \<or> int (length d) < stop \<or> stop < start)"
        using that by (simp add: go_slice_def)
      have buf: "length ?buf \<le> length (sf_bytes s)" by (simp add: sub_slice_def d(2))
      obtain r c commit where c: "get_loop target ?buf (int k) = (r, c, commit)" by (metis prod_cases3)
      have count: "int k \<le> c \<and> 9 * (c - int k) \<le> int (length ?buf) + 8"
        by (rule get_loop_count [OF c]) (use k(2) buf assms(2) in auto)
      have "get_body os (Some m) target s \<in>
          {Some (((None, False), 0, False), s'), Some (((None, False), int k, False), s'), Some ((r, c, commit), s')}"
        using False assms(3) d(1) seek(1) c k(1) slice unfolding start_def stop_def
        by (simp add: get_body_def Let_def)
      then consider "get_body os (Some m) target s = Some (((None, False), 0, False), s')"
        | "get_body os (Some m) target s = Some (((None, False), int k, False), s')"
        | "get_body os (Some m) target s = Some ((r, c, commit), s')" by blast
      then show ?thesis
      proof cases
        case 1
        then show ?thesis using d(3) by (rule early)
      qed (use d(3) seek(2) count buf in \<open>auto intro!: exI [of _ k]\<close>)
    qed
  qed
qed

section \<open>Written segments\<close>

text \<open>The loop stops at the first key that is not below the target.\<close>

lemma get_loop_stops:
  assumes "sorted_run es" "parsable es" "\<forall>e \<in> set (drop n es). target < Key e"
    "0 \<le> c" "c + int (length es) < 2 ^ 63"
  shows "\<exists>c'. get_loop target (frames es) c = (entry_result (run_map es target), c', True) \<and>
    c \<le> c' \<and> c' \<le> c + int n + 1"
  using assms
proof (induction es arbitrary: n c)
  case Nil
  then show ?case by (subst get_loop.simps) (simp add: entry_result_def)
next
  case (Cons e es)
  note p = parsable_Cons [OF Cons.prems(2,1)]
  have c: "i64 (c + 1) = c + 1" using Cons.prems(4,5) by (intro i64_id) auto
  have tail: "run_map es target = None" if "target \<le> Key e"
    using Cons.prems(1) that by (auto simp: run_map_None_iff)
  note here = get_loop.simps [of target "kv_frame e @ frames es" c] parse_frame_kv [OF p(1,2)]
  show ?case
  proof (cases "Key e < target")
    case True
    then obtain n' where n: "n = Suc n'" using Cons.prems(3) by (cases n) auto
    have "\<exists>c'. get_loop target (frames es) (c + 1) = (entry_result (run_map es target), c', True) \<and>
        c + 1 \<le> c' \<and> c' \<le> c + 1 + int n' + 1"
      using Cons.IH [of n' "c + 1"] Cons.prems p(3) by (simp add: n)
    then show ?thesis using True by (auto simp: here c Let_def n)
  next
    case False
    then show ?thesis using tail by (auto simp: here c Let_def entry_result_def)
  qed
qed

lemma frames_count: "9 * length es \<le> length (frames es)"
  by (induction es) (simp_all add: kv_frame_def frame_length)

lemma i64_le: "0 \<le> x \<Longrightarrow> i64 x \<le> x"
  by (simp add: i64_def signed_take_bit_int_less_eq_self_iff)

text \<open>The comparisons of a lookup in a written segment: the search of the index and one block.\<close>

lemma get_body_cost:
  assumes "file_holds b s m es" "file_ready s" "\<not> obsolete m"
  shows "\<exists>r c commit s' k. get_body all_done (Some m) target s = Some ((r, c, commit), s') \<and>
    2 ^ k \<le> 2 * length es \<and> 0 \<le> c \<and> c \<le> int k + stride b + 1"
proof (cases "target < MinKey m \<or> MaxKey m < target")
  case True
  then have "get_body all_done (Some m) target s = Some (((None, False), 0, False), s)"
    using assms(3) by (simp add: get_body_def IsObsolete_def Let_def)
  moreover have "0 < stride b" "1 \<le> length es" using assms(1) by (cases es; simp add: file_holds_def seg_holds_def)+
  ultimately show ?thesis by (auto intro!: exI [of _ "0 :: nat"])
next
  case False
  have h: "seg_holds b (sf_bytes s) m es" "scannable es" using assms(1) by (simp_all add: file_holds_def)
  have inv: "sf_inv s" "\<not> sf_closed s" using assms(2) by (simp_all add: file_ready_def)
  obtain p k s' where p: "get_body all_done (Some m) target s =
      Some (get_loop target (frames (drop p es)) (i64 (int k)), s')"
    "2 ^ k \<le> 2 * length es" "near b target (drop p es)"
    by (rule get_body_frames [OF h(1) assms(3) inv False])
  have run: "sorted_run (drop p es)" "parsable (drop p es)"
    using parsable_drop [of es p] h by (simp_all add: seg_holds_def scannable_def)
  have "k < 2 ^ k" by simp
  then have k: "k < 2 * length es" using p(2) by linarith
  moreover have small: "9 * int (length es) < 2 ^ 63"
    using frames_count [of es] h(1) by (simp add: seg_holds_def)
  ultimately have fit: "i64 (int k) = int k" "int k + int (length (drop p es)) < 2 ^ 63"
    by (auto intro!: i64_id)
  obtain c' where "get_loop target (frames (drop p es)) (int k) = (entry_result (run_map (drop p es) target), c', True)"
    "int k \<le> c'" "c' \<le> int k + int (nat (stride b)) + 1"
    using get_loop_stops [OF run p(3) [unfolded near_def] _ fit(2)] by auto
  moreover have "0 < stride b" using h(1) by (simp add: seg_holds_def)
  ultimately show ?thesis using p(1,2) unfolding fit(1) by (auto intro!: exI [of _ k])
qed

section \<open>Properties\<close>

text \<open>C17: The index does not change an answer: after any appends and mappings, a lookup in a written
  segment returns what the loop returns when it starts at the segment's first frame.\<close>

theorem lookup_agrees_with_linear_scan:
  assumes "file_ready s" "sorted_run es" "file_fits b es s2"
    "WriteSegment b os uid now es strategy level s g = Some (Inr (Some m), s1, g1)"
    "s2 = fold sf.store_step later s1" "\<not> sf_closed s2"
  shows "\<exists>m3 s3 g3. reader_Get all_done (Some m) key s2 g2 =
    Some (fst (get_loop key (sub_slice (sf_bytes s2) (Offset m + DataStartOffset m) (Offset m + SparseIndexOffset m)) 0),
      m3, s3, g3)"
proof -
  note w = written_later [OF assms]
  have h: "seg_holds b (sf_bytes s2) m es" using w by (simp add: file_holds_def)
  have run: "sorted_run es" "parsable es" using w by (auto simp: file_holds_def seg_holds_def scannable_def)
  have "fst (get_loop key (frames es) 0) = entry_result (run_map es key)"
    using get_loop_frames [OF run, of key 0] by auto
  moreover have "sub_slice (sf_bytes s2) (Offset m + DataStartOffset m) (Offset m + SparseIndexOffset m) = frames es"
    using seg_holds_slice [OF h, of 0] by (simp add: entry_offset_def)
  ultimately show ?thesis using w sst.get_ok [of s2 b m es key g2] by fastforce
qed

lemma lookup_agrees_with_linear_scan_witness:
  "\<exists>m3 s3 g3. reader_Get all_done (Some old_meta) [5] (snd stage1) zero_counters =
     Some (fst (get_loop [5] (sub_slice (sf_bytes (snd stage1)) (Offset old_meta + DataStartOffset old_meta)
       (Offset old_meta + SparseIndexOffset old_meta)) 0), m3, s3, g3)"
  using lookup_agrees_with_linear_scan [OF fresh_file_ready sample_runs(1) _ write_old, of "snd stage1" "[]" "[5]"]
    sample_fits1 stage1_ready by (simp add: file_ready_def)

text \<open>C18: A lookup in a written segment compares at most one block of keys, one key more, and
  logarithmically many samples of the index, however long the segment and whatever was appended
  later; the comparisons are what it adds to the global count.\<close>

theorem lookup_cost:
  assumes "file_ready s" "sorted_run es" "file_fits b es s2"
    "WriteSegment b os uid now es strategy level s g = Some (Inr (Some m), s1, g1)"
    "s2 = fold sf.store_step later s1" "\<not> sf_closed s2"
  shows "\<exists>r m3 s3 g3 k. reader_Get all_done (Some m) key s2 zero_counters = Some (r, m3, s3, g3) \<and>
    2 ^ k \<le> 2 * length es \<and> GlobalReadComparisons g3 \<le> int k + stride b + 1"
proof -
  have w: "file_holds b s2 m es" "file_ready s2" "\<not> obsolete m" using written_later [OF assms] by simp_all
  obtain r c commit s' k where c: "get_body all_done (Some m) key s2 = Some ((r, c, commit), s')"
    "2 ^ k \<le> 2 * length es" "0 \<le> c" "c \<le> int k + stride b + 1"
    using get_body_cost [OF w] by blast
  have "i64 c \<le> c" using c(3) by (rule i64_le)
  moreover have "0 < stride b" using w(1) by (simp add: file_holds_def seg_holds_def)
  ultimately show ?thesis
    using c by (auto simp: reader_Get_def zero_counters_def Let_def intro!: exI [of _ k])
qed

lemma lookup_cost_witness:
  "\<exists>r m3 s3 g3 k. reader_Get all_done (Some old_meta) [5] (snd stage1) zero_counters = Some (r, m3, s3, g3) \<and>
     2 ^ k \<le> 2 * length old_run \<and> GlobalReadComparisons g3 \<le> int k + 3"
  using lookup_cost [OF fresh_file_ready sample_runs(1) _ write_old, of "snd stage1" "[]" "[5]"]
    sample_fits1 stage1_ready by (simp add: file_ready_def sample_b_def NewBuilder_def add.commute)

text \<open>C19: Whatever the bytes of the file and the offsets and lengths in the segment's metadata are, and
  whichever calls fail, neither a lookup nor a scan of the segment panics: the checks before each
  slice expression keep it in range. They come to an end and leave the bytes as they are, and the
  comparisons of the lookup are at most those of the search of the index, logarithmic in its
  samples, and one for every nine bytes of the file. The lookup relies on the index in memory
  having as many offsets as keys, and on sizes below 2^61.\<close>

theorem lookup_survives_any_bytes:
  assumes "sf_inv s" "length (sf_bytes s) < 2 ^ 61" "SparseIndex m = Some idx"
    "length (Offsets idx) = length (Keys idx)" "length (Keys idx) < 2 ^ 61"
  shows "(\<exists>r m' s' g'. reader_Get os (Some m) target s zero_counters = Some (r, m', s', g') \<and>
     sf_bytes s' = sf_bytes s \<and>
     (\<exists>k. 2 ^ k \<le> max 1 (2 * length (Keys idx)) \<and>
        9 * (GlobalReadComparisons g' - int k) \<le> int (length (sf_bytes s)) + 8)) \<and>
    (\<exists>r s'. scan_method os2 os3 (Some m) s = Some (r, s') \<and> sf_bytes s' = sf_bytes s)"
proof (intro conjI)
  obtain r c commit s' k where c: "get_body os (Some m) target s = Some ((r, c, commit), s')"
    "sf_bytes s' = sf_bytes s" "2 ^ k \<le> max 1 (2 * length (Keys idx))" "0 \<le> c"
    "9 * (c - int k) \<le> int (length (sf_bytes s)) + 8"
    using get_body_any [OF assms] by blast
  have "i64 c \<le> c" using c(4) by (rule i64_le)
  then show "\<exists>r m' s' g'. reader_Get os (Some m) target s zero_counters = Some (r, m', s', g') \<and>
    sf_bytes s' = sf_bytes s \<and>
    (\<exists>k. 2 ^ k \<le> max 1 (2 * length (Keys idx)) \<and>
       9 * (GlobalReadComparisons g' - int k) \<le> int (length (sf_bytes s)) + 8)"
    using c by (auto simp: reader_Get_def zero_counters_def Let_def intro!: exI [of _ k])
  show "\<exists>r s'. scan_method os2 os3 (Some m) s = Some (r, s') \<and> sf_bytes s' = sf_bytes s"
    using scan_method_file [OF assms(1), of os2 os3 "Some m"] scan_method_eq by (metis prod.collapse)
qed

lemma lookup_survives_any_bytes_witness:
  "(\<exists>r m' s' g'. reader_Get (Done, Fault 0, Done) (Some old_meta) [5] (fresh_file (replicate 99 255)) zero_counters =
     Some (r, m', s', g') \<and> sf_bytes s' = replicate 99 255) \<and>
   (\<exists>r s'. scan_method all_done (Done, Done, Fault 1) (Some old_meta) (fresh_file (replicate 99 255)) = Some (r, s'))"
proof -
  let ?idx = "sampled_index sample_b old_run"
  have "seg_holds sample_b (sf_bytes (snd stage1)) old_meta old_run"
    using file_write_ok [OF fresh_file_ready sample_runs(1) write_old sample_fits1] by (simp add: file_holds_def)
  then have idx: "SparseIndex old_meta = Some ?idx" "length (Offsets ?idx) = length (Keys ?idx)"
    by (simp_all add: seg_holds_def sampled_index_def)
  have "length (Keys ?idx) < 2 ^ 61" using sampled_index_size [of sample_b old_run] by (simp add: old_run_def)
  from lookup_survives_any_bytes [OF fresh_file_inv(1) _ idx(1,2) this, of "replicate 99 255"
      "(Done, Fault 0, Done)" "[5]" all_done "(Done, Done, Fault 1)"]
  show ?thesis by (auto simp: fresh_file_def)
qed

end
