(* ===== verification/Workload_Progress.thy ===== *)
theory Workload_Progress
  imports Workload_Safety Reader_Limits
begin

text \<open>
  What stops the program and what does not: in a state that serves the puts, a flush stops exactly
  when its append fails and a lookup never does. The execution of a plan goes on when its inputs
  can be scanned, for its output is never empty and never too long for its length fields, and stops
  when none of them can.
\<close>

lemma Append_fails_iff:
  assumes "\<not> sf_closed s"
  shows "(\<exists>e s'. Append os bs s = (Inl e, s')) \<longleftrightarrow> os \<noteq> all_done"
proof -
  obtain o1 o2 o3 where "os = (o1, o2, o3)" by (metis prod_cases3)
  then show ?thesis
    using assms by (cases o1; cases o2; cases o3) (auto simp: Append_def sf_stat_def all_done_def Let_def)
qed

lemma WriteSegment_outcome:
  assumes "es \<noteq> []" "int (length (frames es)) < 2 ^ 63" "\<not> sf_closed s"
  obtains err s' g' where "WriteSegment bench_writer os uid t es strategy level s g = Some (Inl err, s', g')" "os \<noteq> all_done"
  | m s' g' where "WriteSegment bench_writer os uid t es strategy level s g = Some (Inr (Some m), s', g')" "os = all_done"
proof -
  obtain img where img: "segment_image bench_writer uid es strategy = Some img"
    by (rule segment_image_ok [OF bench_writer_stride assms(1,2), of uid strategy]) blast
  obtain r s' where ap: "Append os (img_bytes img) s = (r, s')" by fastforce
  show thesis
  proof (cases r)
    case (Inl e)
    then have "os \<noteq> all_done" using Append_fails_iff [OF assms(3)] ap by blast
    moreover have "WriteSegment bench_writer os uid t es strategy level s g = Some (Inl e, s', g)"
      using assms(1) by (simp add: WriteSegment_def img ap Inl)
    ultimately show thesis by (rule that(1) [rotated])
  next
    case (Inr x)
    obtain off len where x: "x = (off, len)" by fastforce
    have "os = all_done" using Append_fails_iff [OF assms(3), of os "img_bytes img"] ap Inr by auto
    moreover obtain m g' where "WriteSegment bench_writer os uid t es strategy level s g = Some (Inr (Some m), s', g')"
      using assms(1) by (simp add: WriteSegment_def img ap Inr x Let_def)
    ultimately show thesis by (rule that(2) [rotated])
  qed
qed

lemma frames_length: "length (frames es) = (\<Sum>e \<leftarrow> es. length (kv_frame e))"
  by (induction es) simp_all

lemma frames_readable:
  assumes "\<forall>e \<in> set es. readable e"
  shows "length (frames es) \<le> 2 ^ 24 * length es"
  using assms
proof (induction es)
  case (Cons e es)
  have "length (kv_frame e) \<le> 2 ^ 24" using Cons.prems by (simp add: kv_frame_def frame_length readable_def)
  then show ?case using Cons by simp
qed simp

lemma flush_progress:
  assumes "serving h runs (b_mem s) (b_meta s) (b_file s)" "data (b_mem s) \<noteq> []" "length (data (b_mem s)) < 2 ^ 39"
  shows "flush_full rt mode trunc env s = None \<longleftrightarrow> ShouldFlush (b_mem s) \<and> append_outcomes env \<noteq> all_done"
proof -
  let ?es = "data (b_mem s)"
  have "\<forall>e \<in> set ?es. readable e" using assms(1) by (auto simp: serving_def stored_ok_def)
  from frames_readable [OF this] assms(3) have bound: "int (length (frames ?es)) < 2 ^ 63" by simp
  have op: "\<not> sf_closed (b_file s)" using serving_refs [OF assms(1)] by (simp add: file_ready_def)
  have fl: "Flush (b_mem s) = (?es, (b_mem s)\<lparr>data := []\<rparr>)"
    using Flush_simps [of "b_mem s"] by (metis prod.collapse)
  show ?thesis
    by (rule WriteSegment_outcome [OF assms(2) bound op, of "append_outcomes env" "new_uuid env" "now env" TIERED 0
          "b_globals s"])
      (simp_all add: flush_full_def fl Let_def split: prod.split)
qed

text \<open>A lookup does not panic whatever its mappings return: the index of a live segment has its shape.\<close>

definition indexed :: "segment_meta \<Rightarrow> bool" where
  "indexed m \<longleftrightarrow> obsolete m \<or> (\<forall>idx. SparseIndex m = Some idx \<longrightarrow> length (Offsets idx) = length (Keys idx))"

lemma indexed_stats: "stats_only m m' \<Longrightarrow> indexed m' = indexed m"
  by (cases m; cases m'; simp add: stats_only_def no_stats_def indexed_def)

lemma handler_loop_returns:
  assumes "sf_inv s" "\<forall>r \<in> set segs. indexed (cells (fst stt) r)"
  shows "handler_loop (reader_Get os) key segs stt s g \<noteq> None"
  using assms
proof (induction segs arbitrary: stt s g)
  case (Cons seg segs)
  let ?m = "cells (fst stt) seg"
  have "reader_Get os (Some ?m) key s g \<noteq> None"
    using Cons.prems(2) by (intro reader_Get_returns) (simp add: indexed_def)
  then obtain val ok m1 s1 g1 where get: "reader_Get os (Some ?m) key s g = Some ((val, ok), m1, s1, g1)" by auto
  obtain n where m1: "same_file s s1" "m1 = Some (?m\<lparr>TotalComparisons := n\<rparr>)"
    using reader_Get_frame [OF Cons.prems(1) get] by blast
  define stt1 where "stt1 = UpdateStats (ID ?m) 1 0 (upd_cell seg (\<lambda>_. ?m\<lparr>TotalComparisons := n\<rparr>) (fst stt), snd stt)"
  have "stats_step (fst stt, snd stt) (upd_cell seg (\<lambda>_. ?m\<lparr>TotalComparisons := n\<rparr>) (fst stt), snd stt)"
    by (intro stats_step_upd_cell) simp
  then have "stats_step (fst stt, snd stt) stt1" unfolding stt1_def by (rule stats_step_trans [OF _ stats_step_UpdateStats])
  then have "indexed (cells (fst stt1) r) = indexed (cells (fst stt) r)" for r
    by (intro indexed_stats) (simp add: stats_step_def)
  with Cons.IH [OF same_file_inv [OF m1(1)], of stt1 g1] Cons.prems(2) show ?case
    by (simp add: get m1(2) store_back_def stt1_def Let_def del: not_None_eq)
qed simp

lemma probe_progress:
  assumes "go_runtime rt" "serving h runs (b_mem s) (b_meta s) (b_file s)"
  shows "probe_step rt key i s \<noteq> None"
proof -
  obtain st t where meta: "b_meta s = (st, t)" by fastforce
  have fst: "file_state bench_writer runs (st, t) (b_file s)" using assms(2) by (simp add: serving_def meta)
  have "\<forall>r \<in> set (GetSegmentsForKey rt key (st, t)). file_holds bench_writer (b_file s) (cells st r) (runs r)"
    using fst by (auto simp: go_runtime.GetSegmentsForKey_set [OF assms(1)] file_state_def)
  then have "\<forall>r \<in> set (GetSegmentsForKey rt key (b_meta s)). indexed (cells (fst (b_meta s)) r)"
    using file_holds_index by (fastforce simp: meta indexed_def)
  moreover have "sf_inv (b_file s)" using fst by (simp add: file_state_def file_ready_def)
  ultimately show ?thesis
    using handler_loop_returns [of "b_file s" "GetSegmentsForKey rt key (b_meta s)" "b_meta s" "it_mmap i" key "b_globals s"]
    by (auto simp: probe_step_def Let_def)
qed

lemma live_input_ok: "file_state b runs (st, t) f \<Longrightarrow> r \<in> live_refs (st, t) \<Longrightarrow> input_ok st (Some r)"
  by (auto simp: file_state_def live_refs_def file_holds_def seg_holds_def input_ok_def)

text \<open>The output of a compaction is not larger than its inputs.\<close>

lemma sum_set_le: "(\<Sum>x \<in> set xs. f x) \<le> (\<Sum>x \<leftarrow> xs. (f x :: nat))"
  by (induction xs) (auto simp: sum.insert_if)

lemma frames_subset:
  assumes "sorted_run E" "set E \<subseteq> set es"
  shows "length (frames E) \<le> length (frames es)"
proof -
  have "distinct (map Key E)" using assms(1) strict_sorted_iff unfolding sorted_run_def by blast
  then have "distinct E" by (simp add: distinct_map)
  then have "length (frames E) = (\<Sum>e \<in> set E. length (kv_frame e))"
    by (simp add: frames_length sum_list_distinct_conv_sum_set)
  also have "\<dots> \<le> (\<Sum>e \<in> set es. length (kv_frame e))" using assms(2) by (intro sum_mono2) auto
  also have "\<dots> \<le> length (frames es)" unfolding frames_length by (rule sum_set_le)
  finally show ?thesis .
qed

lemma frames_concat_bound:
  "\<forall>es \<in> set xs. length (frames es) \<le> n \<Longrightarrow> length (frames (concat xs)) \<le> n * length xs"
  by (induction xs) auto

lemma merged_subset:
  assumes "\<forall>es \<in> set xs. \<forall>e \<in> set es. stored_ok h e" "sorted_run E"
    "\<forall>k. run_map E k = map_option (\<lambda>v. live_entry k (Some v)) (merged_values xs k)"
  shows "set E \<subseteq> set (concat xs)"
proof
  fix e assume "e \<in> set E"
  then have "run_map E (Key e) = Some e" by (rule run_map_mem [OF assms(2)])
  then obtain v where v: "merged_values xs (Key e) = Some v" "e = live_entry (Key e) (Some v)"
    using assms(3) by auto
  obtain es where es: "es \<in> set xs" "live_value es (Key e) = Some v" using merged_values_Some [OF v(1)] by blast
  then have "live_entry (Key e) (Some v) \<in> set es" using live_value_stored(1) [of es h] assms(1) by blast
  then show "e \<in> set (concat xs)" using es(1) v(2) by auto
qed

text \<open>The inputs of a plan hold something, and what they hold fits a segment's length fields.\<close>

lemma plan_output:
  assumes hold: "\<forall>x \<in> set rs. runs x \<noteq> [] \<and> scannable (runs x)" and len: "rs \<noteq> []" "length rs \<le> 50"
    and src: "\<forall>es \<in> set (map runs rs). \<forall>e \<in> set es. stored_ok h e"
  shows "merged_values (map runs rs) \<noteq> Map.empty"
    and "sorted_run E \<Longrightarrow> \<forall>k. run_map E k = map_option (\<lambda>v. live_entry k (Some v)) (merged_values (map runs rs) k) \<Longrightarrow>
      int (length (frames E)) < 2 ^ 63 \<and> E \<noteq> []"
proof -
  obtain x where x: "x \<in> set rs" using len(1) by (cases rs) auto
  then obtain e where e: "e \<in> set (runs x)" using hold by (cases "runs x") auto
  have stored: "\<forall>e \<in> set (runs x). stored_ok h e" using src x by simp
  have "run_map (runs x) (Key e) \<noteq> None" using e by (auto simp: run_map_None_iff)
  then have "live_value (runs x) (Key e) \<noteq> None" by (rule live_value_stored(2) [OF stored])
  then show ne: "merged_values (map runs rs) \<noteq> Map.empty"
    using merged_values_None [of "map runs rs" "Key e" "runs x"] x by auto
  have "\<forall>es \<in> set (map runs rs). length (frames es) \<le> 500 * 1024 * 1024"
    using hold by (auto simp: scannable_def)
  from frames_concat_bound [OF this] len(2)
  have bound: "length (frames (concat (map runs rs))) \<le> 500 * 1024 * 1024 * 50" by simp
  assume E: "sorted_run E" "\<forall>k. run_map E k = map_option (\<lambda>v. live_entry k (Some v)) (merged_values (map runs rs) k)"
  have "int (length (frames E)) < 2 ^ 63"
    using frames_subset [OF E(1) merged_subset [OF src E]] bound by simp
  moreover have "E \<noteq> []" using E(2) ne by (auto simp: fun_eq_iff run_map_def)
  ultimately show "int (length (frames E)) < 2 ^ 63 \<and> E \<noteq> []" ..
qed

lemma write_returns:
  assumes "int (length (frames E)) < 2 ^ 63" "E \<noteq> []"
  shows "\<exists>r s2 g2. WriteSegment bench_writer os uid tm E str lvl s1 g = Some (r, s2, g2) \<and> r \<noteq> Inr None"
proof -
  from WriteSegment_total [OF bench_writer_stride assms(1)] obtain r s2 g2 where
    w: "WriteSegment bench_writer os uid tm E str lvl s1 g = Some (r, s2, g2)" by fastforce
  then show ?thesis using WriteSegment_result assms(2) by blast
qed

lemma run_plan_outcome:
  assumes "go_runtime rt" "calm_tick k" "serving h runs (b_mem s) (b_meta s) (b_file s)" "plan_ok (b_meta s) p"
  shows "\<exists>q s'. run_plan rt k p s = Some (q, s') \<and> (isl q \<longleftrightarrow> tk_append k \<noteq> all_done)"
proof -
  obtain st t where meta: "b_meta s = (st, t)" by fastforce
  have fst: "file_state bench_writer runs (st, t) (b_file s)" using assms(3) by (simp add: serving_def meta)
  obtain rs where rs: "Inputs p = map Some rs" "rs \<noteq> []" "length rs \<le> 50" "\<forall>x \<in> set rs. x \<in> live_refs (st, t)"
    using assms(4) by (auto simp: plan_ok_def meta live_refs_def)
  have hold: "\<forall>x \<in> set rs. file_holds bench_writer (b_file s) (cells st x) (runs x)"
    using fst rs(4) by (auto simp: file_state_def live_refs_def)
  then have full: "\<forall>x \<in> set rs. runs x \<noteq> [] \<and> scannable (runs x)" by (auto simp: file_holds_def seg_holds_def)
  have ok: "\<forall>x \<in> set rs. input_ok st (Some x)" using live_input_ok [OF fst] rs(4) by blast
  have ready: "file_ready (b_file s)" using serving_refs [OF assms(3)] by simp
  have src: "\<forall>es \<in> set (map runs rs). \<forall>e \<in> set es. stored_ok h e"
    using assms(3) rs(4) by (auto simp: serving_def meta)
  let ?wr = "WriteSegment bench_writer (tk_append k) (tk_uuid k) (tk_now k)"
  from compaction_io.Execute_writes [OF file_compaction_io [OF assms(1)] ready rs(1) ok hold, of "tk_append k" "tk_uuid k" "tk_now k" "b_globals s" t]
  obtain E s1 where E: "sorted_run E" "file_ready s1"
    "\<forall>k. run_map E k = map_option (\<lambda>v. live_entry k (Some v)) (merged_values (map runs rs) k)"
    and ex: "\<And>r s2 g2. ?wr E (OutputStrategy p) (TargetLevel p) s1 (b_globals s) = Some (r, s2, g2) \<Longrightarrow> r \<noteq> Inr None \<Longrightarrow>
      \<exists>q x. Execute rt (reader_Scan all_done all_done) ?wr p (st, t) (b_file s) (b_globals s) = Some (q, x) \<and> isl q = isl r"
    by blast
  have out: "E \<noteq> []" "int (length (frames E)) < 2 ^ 63" using plan_output(2) [OF full rs(2,3) src E(1,3)] by simp_all
  have op: "\<not> sf_closed s1" using E(2) by (simp add: file_ready_def)
  have "\<exists>q x. Execute rt (reader_Scan all_done all_done) ?wr p (st, t) (b_file s) (b_globals s) = Some (q, x) \<and>
      (isl q \<longleftrightarrow> tk_append k \<noteq> all_done)"
    by (rule WriteSegment_outcome [OF out op, of "tk_append k" "tk_uuid k" "tk_now k" "OutputStrategy p" "TargetLevel p" "b_globals s"])
      (use ex in \<open>fastforce\<close>)+
  then show ?thesis using assms(2) by (auto simp: run_plan_def meta calm_tick_def)
qed

lemma plan_of_serving:
  assumes "go_runtime rt" "serving h runs (b_mem s) (b_meta s) (b_file s)"
    "MaybePlan rt clk (b_meta s) (b_director s) = (Some p, d)"
  shows "plan_ok (b_meta s) p" "\<not> list_ex (stale_input (fst (b_meta s))) (Inputs p)"
proof -
  show ok: "plan_ok (b_meta s) p"
    using go_runtime.MaybePlan_ok [OF assms(1)] assms(3) serving_refs [OF assms(2)] by (metis prod.collapse)
  then show "\<not> list_ex (stale_input (fst (b_meta s))) (Inputs p)"
    by (auto simp: plan_ok_def list_ex_iff stale_input_def IsObsolete_def)
qed

lemma put_progress:
  assumes "serving h runs (b_mem s) (b_meta s) (b_file s)" "0 < vs" "vs \<le> 10 * 1024 * 1024" "length (data (b_mem s)) < 2 ^ 38"
    "length key \<le> 1024 * 1024"
  shows "put_step rt mode vs key i s = None \<longleftrightarrow>
    ShouldFlush (Put key (Some (make_value vs (it_value i))) (b_mem s)) \<and> append_outcomes (it_env i) \<noteq> all_done"
proof -
  let ?v = "make_value vs (it_value i)" and ?s = "after_put mode vs key i s"
  have "length ?v = nat vs" "nat vs \<noteq> 0" "nat vs \<le> 10 * 1024 * 1024" using assms(2,3) by (simp_all add: make_value_def)
  then have "?v \<noteq> []" "length ?v \<le> 10 * 1024 * 1024" by auto
  then have sv: "serving (h(key := ?v # h key)) runs (b_mem ?s) (b_meta ?s) (b_file ?s)"
    using serving_put [OF assms(1) _ assms(5)] by simp
  have inv: "mem_inv (b_mem s)" using assms(1) by (simp add: serving_def)
  have dat: "data (b_mem ?s) = stored key (live_entry key (Some ?v)) (data (b_mem s))" by (simp add: data_Put [OF inv])
  have "length (filter (\<lambda>x. Key x < key) (data (b_mem s))) + length (filter (\<lambda>x. key < Key x) (data (b_mem s)))
      \<le> length (data (b_mem s)) + length (data (b_mem s))"
    by (intro add_mono length_filter_le)
  then have "length (data (b_mem ?s)) < 2 ^ 39" "data (b_mem ?s) \<noteq> []"
    unfolding dat using assms(4) by (simp_all add: stored_def)
  then show ?thesis using flush_progress [OF sv] by (simp add: put_step_flush)
qed

text \<open>When no input can be scanned, the output is empty, and the executor dereferences nil.\<close>

definition unscannable :: "tick_env \<Rightarrow> bool" where
  "unscannable k \<longleftrightarrow> fst (fst (tk_scan k)) \<noteq> Done \<and> fst (snd (fst (tk_scan k))) \<noteq> Done"

lemma mmap_bytes_no_stat: "o1 \<noteq> Done \<Longrightarrow> o2 \<noteq> Done \<Longrightarrow> \<exists>e s'. mmap_bytes (o1, o2, o3) s = (Inl e, s')"
  by (cases o1; cases o2)
    (auto simp: mmap_bytes_def GetMmapData_def mmap_fast_def mmap_first_def sf_stat_def Let_def)

lemma scan_no_stat:
  assumes "o1 \<noteq> Done" "o2 \<noteq> Done"
  shows "\<exists>e s'. reader_Scan (o1, o2, o3) os2 m s = (Inl e, s')"
proof -
  obtain e s1 where "mmap_bytes (o1, o2, o3) s = (Inl e, s1)" using mmap_bytes_no_stat [OF assms] by blast
  then have "\<exists>e s'. scan_method (o1, o2, o3) os2 m s = Some (Inl e, s')" by (cases m) (simp_all add: scan_method_def)
  then show ?thesis by (auto simp: reader_Scan_def)
qed

lemma merge_nothing: "(\<And>m s. \<exists>e s'. scan m s = (Inl e, s')) \<Longrightarrow> fst (merge_inputs rt scan rs merged stt s) = merged"
proof (induction rs arbitrary: stt s)
  case (Cons r rs)
  obtain e s' where "scan (Some (cells (fst stt) r)) s = (Inl e, s')" using Cons.prems by blast
  then show ?case using Cons by simp
qed simp

lemma run_plan_unscannable:
  assumes "go_runtime rt" "unscannable k" "serving h runs (b_mem s) (b_meta s) (b_file s)" "plan_ok (b_meta s) p"
  shows "run_plan rt k p s = None"
proof -
  obtain st t where meta: "b_meta s = (st, t)" by fastforce
  have fst: "file_state bench_writer runs (st, t) (b_file s)" using assms(3) by (simp add: serving_def meta)
  obtain o1 o2 o3 where o: "fst (tk_scan k) = (o1, o2, o3)" by (metis prod_cases3)
  have "\<forall>i \<in> set (Inputs p). input_ok st i"
    using live_input_ok [OF fst] assms(4) by (auto simp: plan_ok_def meta live_refs_def)
  then have valid: "validate st 0 (Inputs p) = None" by (simp add: validate_None)
  have "fst (merge_inputs rt (reader_Scan (o1, o2, o3) (snd (tk_scan k))) rs [] stt f) = []" for rs stt f
    using assms(2) by (intro merge_nothing scan_no_stat) (simp_all add: unscannable_def o)
  then have merge: "\<exists>x. merge_inputs rt (reader_Scan (o1, o2, o3) (snd (tk_scan k))) rs [] stt f = ([], x)" for rs stt f
    by (metis prod.collapse)
  have "range_slices rt [] = []" using go_runtime.range_slices_perm [OF assms(1), of "[]"] by simp
  then have "final_entries rt [] = []" by (simp add: final_entries_def)
  then show ?thesis
    using merge [of "map the (Inputs p)" "(set_flags True (map the (Inputs p)) st, t)" "b_file s"]
    by (auto simp: run_plan_def Execute_def meta o valid Let_def WriteSegment_def split: prod.split)
qed

text \<open>The background and the last compaction of a workload.\<close>

lemma tick_progress:
  assumes "go_runtime rt" "serving h runs (b_mem s) (b_meta s) (b_file s)"
  shows "calm_tick k \<Longrightarrow> bg_tick rt k s \<noteq> None"
    "unscannable k \<Longrightarrow> bg_tick rt k s = None \<longleftrightarrow> fst (MaybePlan rt (tk_clock k) (b_meta s) (b_director s)) \<noteq> None"
    "calm_tick k \<Longrightarrow> last_compaction rt k s = None \<longleftrightarrow>
      fst (MaybePlan rt (tk_clock k) (b_meta s) (b_director s)) \<noteq> None \<and> tk_append k \<noteq> all_done"
proof -
  obtain q d where q: "MaybePlan rt (tk_clock k) (b_meta s) (b_director s) = (q, d)" by fastforce
  let ?s = "s\<lparr>b_director := d\<rparr>"
  have sv: "serving h runs (b_mem ?s) (b_meta ?s) (b_file ?s)" using assms(2) by simp
  have plan: "plan_ok (b_meta ?s) p" "\<not> list_ex (stale_input (fst (b_meta s))) (Inputs p)" if "q = Some p" for p
    using plan_of_serving [OF assms(1,2)] q that by simp_all
  show "bg_tick rt k s \<noteq> None" if c: "calm_tick k"
  proof (cases q)
    case (Some p)
    obtain r s' where "run_plan rt k p ?s = Some (r, s')"
      using run_plan_outcome [OF assms(1) c sv plan(1) [OF Some]] by blast
    then show ?thesis using plan(2) [OF Some] by (cases r) (simp_all add: bg_tick_def q Some Let_def)
  qed (simp add: bg_tick_def q)
  show "bg_tick rt k s = None \<longleftrightarrow> fst (MaybePlan rt (tk_clock k) (b_meta s) (b_director s)) \<noteq> None" if "unscannable k"
  proof (cases q)
    case (Some p)
    then show ?thesis
      using run_plan_unscannable [OF assms(1) that sv plan(1)] plan(2) by (simp add: bg_tick_def q Let_def)
  qed (simp add: bg_tick_def q)
  show "last_compaction rt k s = None \<longleftrightarrow>
      fst (MaybePlan rt (tk_clock k) (b_meta s) (b_director s)) \<noteq> None \<and> tk_append k \<noteq> all_done" if c: "calm_tick k"
  proof (cases q)
    case (Some p)
    obtain r s' where "run_plan rt k p ?s = Some (r, s')" "isl r \<longleftrightarrow> tk_append k \<noteq> all_done"
      using run_plan_outcome [OF assms(1) c sv plan(1) [OF Some]] by blast
    then show ?thesis by (cases r) (simp_all add: last_compaction_def q Some)
  qed (simp add: last_compaction_def q)
qed

end
