(* ===== verification/Workload_Results.thy ===== *)
theory Workload_Results
  imports Workload_Effects
begin

text \<open>
  What the program reports at its end: the logical bytes are those of the puts, so that the ratios
  of the phases are finite and the results are saved.
\<close>

section \<open>Counting through a loop\<close>

lemma loop_counts:
  assumes "for_range n body a = Some a'" "P z a"
    "\<And>i z a a'. int i < n \<Longrightarrow> P z a \<Longrightarrow> body i a = Some a' \<Longrightarrow> P (z + c i) a'"
  shows "P (z + (\<Sum>i \<leftarrow> [0..<nat n]. c i) :: int) a'"
proof -
  have "each body xs a = Some a' \<Longrightarrow> (\<And>x. x \<in> set xs \<Longrightarrow> int x < n) \<Longrightarrow> P z a \<Longrightarrow> P (z + (\<Sum>i \<leftarrow> xs. c i)) a'"
    for xs z a
  proof (induction xs arbitrary: z a)
    case (Cons x xs)
    obtain a1 where a1: "body x a = Some a1" "each body xs a1 = Some a'"
      using Cons.prems(1) by (auto split: option.splits)
    have "P (z + c x) a1" by (rule assms(3) [OF _ Cons.prems(3) a1(1)]) (simp add: Cons.prems(2))
    then have "P (z + c x + (\<Sum>i \<leftarrow> xs. c i)) a'" using Cons.IH [OF a1(2)] Cons.prems(2) by simp
    then show ?case by (simp add: algebra_simps)
  qed simp
  from this [of "[0..<nat n]" a z] show ?thesis using assms(1,2) by (simp add: for_range_def)
qed

lemma sum_const: "0 \<le> n \<Longrightarrow> (\<Sum>i \<leftarrow> [0..<nat n]. c) = n * (c :: int)"
  by (simp add: sum_list_triv)

lemma sum_chosen: "(\<Sum>i \<leftarrow> xs. if P i then c else 0) = int (length (filter P xs)) * c"
  by (induction xs) (simp_all add: algebra_simps)

section \<open>Logical bytes\<close>

text \<open>\<open>z\<close> bytes have been counted, up to wrap-around.\<close>

definition lb_counted :: "int \<Rightarrow> bench \<Rightarrow> bool" where
  "lb_counted z s \<longleftrightarrow> logicalBytes s = i64 z"

lemma flush_counted: "flush_full rt mode trunc env s = Some s' \<Longrightarrow> lb_counted z s \<Longrightarrow> lb_counted z s'"
  by (auto simp: flush_full_def lb_counted_def Let_def split: if_splits prod.splits option.splits sum.splits)

lemma put_counted:
  assumes "put_step rt mode vs (key_name k) i s = Some s'" "lb_counted z s" "mode \<noteq> CountNone" "k < 10 ^ 10"
  shows "lb_counted (z + (14 + vs)) s'"
proof -
  have "length (key_name k) = 14" using assms(4) by (simp add: key_name_fixed)
  then have "lb_counted (z + (14 + vs)) (after_put mode vs (key_name k) i s)"
    using assms(2,3) by (cases mode) (simp_all add: lb_counted_def after_put_def Let_def i64_add_left)
  then show ?thesis using flush_counted assms(1) unfolding put_step_flush by blast
qed

lemma run_plan_counted: "run_plan rt k p s = Some (r, s') \<Longrightarrow> lb_counted z s' = lb_counted z s"
  by (auto simp: run_plan_def lb_counted_def split: option.splits)

lemma tick_counted: "bg_tick rt k s = Some s' \<Longrightarrow> lb_counted z s' = lb_counted z s"
  by (cases rule: bg_tick_cases)
    (auto simp: count_compaction_def lb_counted_def dest: run_plan_counted [of _ _ _ _ _ _ z])

lemma background_counted: "background rt i s = Some s' \<Longrightarrow> lb_counted z s' = lb_counted z s"
proof -
  have "each (bg_tick rt) ks s = Some s' \<Longrightarrow> lb_counted z s' = lb_counted z s" for ks
    by (induction ks arbitrary: s) (auto split: option.splits dest: tick_counted)
  then show "background rt i s = Some s' \<Longrightarrow> lb_counted z s' = lb_counted z s" by (simp add: background_def)
qed

lemma probe_counted: "probe_step rt key i s = Some (n, s') \<Longrightarrow> lb_counted z s' = lb_counted z s"
  by (auto simp: probe_step_def lb_counted_def Let_def split: option.splits)

lemma read_counted: "read_step rt key i s = Some s' \<Longrightarrow> lb_counted z s' = lb_counted z s"
  by (auto simp: read_step_def add_scans_def lb_counted_def dest: probe_counted [of _ _ _ _ _ _ z])

lemma rand_intn_key: "rand_intn n draw = Some k \<Longrightarrow> n \<le> 10 ^ 10 \<Longrightarrow> k < 10 ^ 10"
  using rand_intn_Some [of n draw k] by simp

lemma random_put_counted:
  "random_put rt n vs i s = Some s' \<Longrightarrow> lb_counted z s \<Longrightarrow> n \<le> 10 ^ 10 \<Longrightarrow> lb_counted (z + (14 + vs)) s'"
  by (auto simp: random_put_def bind_eq_Some_conv intro: put_counted dest: rand_intn_key)

lemma random_read_counted: "random_read rt n i s = Some s' \<Longrightarrow> lb_counted z s' = lb_counted z s"
  by (auto simp: random_read_def bind_eq_Some_conv dest: read_counted [of _ _ _ _ _ z])

text \<open>A loop whose iterations start with the background's compactions.\<close>

lemma background_loop_counted:
  assumes "for_range n (\<lambda>i s. background rt (ins i) s \<bind> body i) s = Some s'" "lb_counted z s"
    "\<And>i z s s'. int i < n \<Longrightarrow> lb_counted z s \<Longrightarrow> body i s = Some s' \<Longrightarrow> lb_counted (z + c i) s'"
  shows "lb_counted (z + (\<Sum>i \<leftarrow> [0..<nat n]. c i)) s'"
  using assms(1)
proof (rule loop_counts [where P = lb_counted, OF _ assms(2)])
  fix i z a a' assume "int i < n" "lb_counted z a" "background rt (ins i) a \<bind> body i = Some a'"
  then obtain a1 where a1: "background rt (ins i) a = Some a1" "body i a1 = Some a'"
    by (auto simp: bind_eq_Some_conv)
  show "lb_counted (z + c i) a'"
    by (rule assms(3) [OF \<open>int i < n\<close> _ a1(2)]) (simp add: background_counted [OF a1(1)] \<open>lb_counted z a\<close>)
qed

lemma populate_counted:
  assumes "populate rt mode n vs ins s = Some s'" "lb_counted z s" "mode \<noteq> CountNone" "0 \<le> n" "n \<le> 10 ^ 10"
  shows "lb_counted (z + n * (14 + vs)) s'"
  using background_loop_counted [OF assms(1) [unfolded populate_def] assms(2), of "\<lambda>i. 14 + vs"]
    put_counted assms(3-5) by (simp add: sum_const)

lemma random_puts_counted:
  assumes "for_range k (\<lambda>i s. background rt (ins i) s \<bind> random_put rt n vs (ins i)) s = Some s'"
    "lb_counted z s" "0 \<le> k" "n \<le> 10 ^ 10"
  shows "lb_counted (z + k * (14 + vs)) s'"
  using background_loop_counted [OF assms(1,2), of "\<lambda>i. 14 + vs"] random_put_counted assms(3,4) by (simp add: sum_const)

lemma last_compaction_counted: "last_compaction rt k s = Some s' \<Longrightarrow> lb_counted z s' = lb_counted z s"
  by (cases rule: last_compaction_cases)
    (auto simp: count_compaction_def lb_counted_def dest: run_plan_counted [of _ _ _ _ _ _ z])

text \<open>The workloads with operations; \<open>puts\<close> says which of them are puts.\<close>

lemma operations_counted:
  assumes "populate rt CountPopulate n vs (ins 0) s = Some s1"
    "flush_full rt CountPopulate False (it_env (after n (ins 0))) s1 = Some s2"
    "for_range k (\<lambda>i s. background rt (ins 1 i) s \<bind> body i) s2 = Some s3"
    "background rt (after k (ins 1)) s3 = Some s4" "last_compaction rt final s4 = Some s'"
    and body: "\<And>i s. body i s = (if puts i then random_put rt n vs (ins 1 i) s else random_read rt n (ins 1 i) s)"
    and n: "0 \<le> n" "n \<le> 10 ^ 10" and s: "lb_counted 0 s"
  shows "lb_counted ((n + int (length (filter puts [0..<nat k]))) * (14 + vs)) s'"
proof -
  have "lb_counted (n * (14 + vs)) s2"
    using flush_counted [OF assms(2)] populate_counted [OF assms(1) s _ n] by simp
  then have "lb_counted (n * (14 + vs) + int (length (filter puts [0..<nat k])) * (14 + vs)) s3"
    using background_loop_counted [OF assms(3), of "n * (14 + vs)" "\<lambda>i. if puts i then 14 + vs else 0"]
      random_put_counted random_read_counted n(2) by (simp add: sum_chosen body split: if_splits)
  then show ?thesis
    using background_counted [OF assms(4)] last_compaction_counted [OF assms(5)] by (simp add: algebra_simps)
qed

section \<open>The phases of shift\<close>

lemma counted_pos: "lb_counted z s \<Longrightarrow> 0 < z \<Longrightarrow> z < 2 ^ 63 \<Longrightarrow> is_finite (ratio b (logicalBytes s))"
  by (simp add: lb_counted_def i64_id ratio_finite)

lemma shift_phase2_counted:
  assumes "shift_phase2 rt n ins s = Some (k, s')" "lb_counted z s"
  shows "lb_counted z s'"
  using loop_counts [where P = "\<lambda>z x. lb_counted z (snd x)" and c = "\<lambda>_. 0", OF assms(1) [unfolded shift_phase2_def], of z] assms(2)
  by (fastforce simp: Let_def bind_eq_Some_conv background_counted probe_counted sum_list_triv)

lemma shift_phase4_counted:
  assumes "shift_phase4 rt n ins s = Some (k, m, s')" "lb_counted z s" "0 \<le> n" "n \<le> 10 ^ 10"
  shows "lb_counted z s' \<and> m = 3 * n"
proof -
  have "lb_counted z s'"
    using loop_counts [where P = "\<lambda>z x. lb_counted z (snd (snd x))" and c = "\<lambda>_. 0", OF assms(1) [unfolded shift_phase4_def], of z]
      assms(2)
    by (fastforce simp: Let_def bind_eq_Some_conv background_counted probe_counted sum_list_triv)
  moreover have "m = i64 (0 + (\<Sum>i \<leftarrow> [0..<nat (i64 (n * 3))]. 1))"
    using loop_counts [where P = "\<lambda>z x. fst (snd x) = i64 z" and c = "\<lambda>_. 1", OF assms(1) [unfolded shift_phase4_def], of 0]
    by (fastforce simp: Let_def bind_eq_Some_conv i64_add_left i64_id)
  moreover have "i64 (n * 3) = 3 * n" using assms(3,4) by (simp add: i64_id)
  ultimately show ?thesis using assms(3,4) by (simp add: sum_const i64_id)
qed

definition finite_phase :: "phase_result \<Rightarrow> bool" where
  "finite_phase ph \<longleftrightarrow> is_finite (ph_WA ph) \<and> is_finite (ph_RA ph)"

lemma puts_bound:
  assumes "0 < vs" "vs \<le> 10 * 1024 * 1024" "0 < k" "k \<le> 3 * 10 ^ 10"
  shows "0 < k * (14 + vs) \<and> k * (14 + vs) < (2 :: int) ^ 63"
proof -
  have "k * (14 + vs) \<le> 3 * 10 ^ 10 * (14 + 10 * 1024 * 1024)" using assms by (intro mult_mono) simp_all
  then show ?thesis using assms by simp
qed

lemma runShiftE:
  assumes "runShift rt dur n vs ins s = Some (ph, s')"
  obtains a1 a2 s1 s2 k2 s3 s4 b1 s5 s6 k4 m4 s7 where
    "populate rt CountAll n vs (ins 0) s = Some a1"
    "for_range (n sdiv 2) (\<lambda>i s. background rt (ins 1 i) s \<bind> random_put rt n vs (ins 1 i)) a1 = Some a2"
    "flush_full rt CountAll False (it_env (after (n sdiv 2) (ins 1))) a2 = Some s1"
    "background rt (after (n sdiv 2) (ins 1)) s1 = Some s2" "shift_phase2 rt n (ins 2) s2 = Some (k2, s3)"
    "background rt (after n (ins 2)) (add_scans k2 s3) = Some s4"
    "for_range (n sdiv 2) (\<lambda>i s. background rt (ins 3 i) s \<bind> random_put rt n vs (ins 3 i)) s4 = Some b1"
    "flush_full rt CountAll False (it_env (after (n sdiv 2) (ins 3))) b1 = Some s5"
    "background rt (after (n sdiv 2) (ins 3)) s5 = Some s6" "shift_phase4 rt n (ins 4) s6 = Some (k4, m4, s7)"
    "background rt (after (i64 (n * 3)) (ins 4)) (add_scans k4 s7) = Some s'"
    "ph = [\<lparr>ph_Name = ''write'', ph_Duration = dur 1, ph_WA = ratio (physicalBytes s1) (logicalBytes s1), ph_RA = Finite 0\<rparr>,
      \<lparr>ph_Name = ''read'', ph_Duration = dur 2, ph_WA = ratio (physicalBytes s3) (logicalBytes s3), ph_RA = ratio k2 n\<rparr>,
      \<lparr>ph_Name = ''write2'', ph_Duration = dur 3, ph_WA = ratio (physicalBytes s5) (logicalBytes s5), ph_RA = ratio k2 n\<rparr>,
      \<lparr>ph_Name = ''read_after_overwrites'', ph_Duration = dur 4,
        ph_WA = ratio (physicalBytes (add_scans k4 s7)) (logicalBytes (add_scans k4 s7)), ph_RA = ratio k4 m4\<rparr>]"
  using assms
  by (auto simp: runShift_def shift_phase1_def shift_phase3_def Let_def bind_eq_Some_conv)

lemma runShift_counted:
  assumes "runShift rt dur n vs ins s = Some (ph, s')" "lb_counted 0 s" "0 < n" "n \<le> 10 ^ 10" "0 < vs" "vs \<le> 10 * 1024 * 1024"
  shows "lb_counted ((n + 2 * (n div 2)) * (14 + vs)) s' \<and>
    map ph_Name ph = [''write'', ''read'', ''write2'', ''read_after_overwrites''] \<and> list_all finite_phase ph"
proof -
  let ?c = "14 + vs" and ?m = "n sdiv 2"
  have m: "?m = n div 2" "0 \<le> ?m" using assms(3) by (simp_all add: signed_divide_int_def)
  have n: "0 \<le> n" using assms(3) by simp
  obtain a1 a2 s1 s2 k2 s3 s4 b1 s5 s6 k4 m4 s7 where *:
    "populate rt CountAll n vs (ins 0) s = Some a1"
    "for_range ?m (\<lambda>i s. background rt (ins 1 i) s \<bind> random_put rt n vs (ins 1 i)) a1 = Some a2"
    "flush_full rt CountAll False (it_env (after ?m (ins 1))) a2 = Some s1"
    "background rt (after ?m (ins 1)) s1 = Some s2" "shift_phase2 rt n (ins 2) s2 = Some (k2, s3)"
    "background rt (after n (ins 2)) (add_scans k2 s3) = Some s4"
    "for_range ?m (\<lambda>i s. background rt (ins 3 i) s \<bind> random_put rt n vs (ins 3 i)) s4 = Some b1"
    "flush_full rt CountAll False (it_env (after ?m (ins 3))) b1 = Some s5"
    "background rt (after ?m (ins 3)) s5 = Some s6" "shift_phase4 rt n (ins 4) s6 = Some (k4, m4, s7)"
    "background rt (after (i64 (n * 3)) (ins 4)) (add_scans k4 s7) = Some s'"
    and ph: "ph = [\<lparr>ph_Name = ''write'', ph_Duration = dur 1, ph_WA = ratio (physicalBytes s1) (logicalBytes s1), ph_RA = Finite 0\<rparr>,
      \<lparr>ph_Name = ''read'', ph_Duration = dur 2, ph_WA = ratio (physicalBytes s3) (logicalBytes s3), ph_RA = ratio k2 n\<rparr>,
      \<lparr>ph_Name = ''write2'', ph_Duration = dur 3, ph_WA = ratio (physicalBytes s5) (logicalBytes s5), ph_RA = ratio k2 n\<rparr>,
      \<lparr>ph_Name = ''read_after_overwrites'', ph_Duration = dur 4,
        ph_WA = ratio (physicalBytes (add_scans k4 s7)) (logicalBytes (add_scans k4 s7)), ph_RA = ratio k4 m4\<rparr>]"
    by (rule runShiftE [OF assms(1)])
  have scans: "lb_counted z (add_scans k x) = lb_counted z x" for z k x by (simp add: lb_counted_def add_scans_def)
  have c1: "lb_counted ((n + ?m) * ?c) s1"
    using flush_counted [OF *(3)] random_puts_counted [OF *(2) populate_counted [OF *(1) assms(2) _ n assms(4)] m(2) assms(4)]
    by (simp add: algebra_simps)
  then have c3: "lb_counted ((n + ?m) * ?c) s3"
    using shift_phase2_counted [OF *(5)] background_counted [OF *(4)] by blast
  then have "lb_counted ((n + ?m) * ?c) s4" using background_counted [OF *(6)] scans by blast
  then have c5: "lb_counted ((n + 2 * ?m) * ?c) s5"
    using flush_counted [OF *(8)] random_puts_counted [OF *(7) _ m(2) assms(4)] by (fastforce simp: algebra_simps)
  then have c7: "lb_counted ((n + 2 * ?m) * ?c) s7" "m4 = 3 * n"
    using shift_phase4_counted [OF *(10) _ n assms(4)] background_counted [OF *(9)] by blast+
  have b: "0 < (n + ?m) * ?c" "(n + ?m) * ?c < 2 ^ 63" "0 < (n + 2 * ?m) * ?c" "(n + 2 * ?m) * ?c < 2 ^ 63"
    using puts_bound [OF assms(5,6), of "n + ?m"] puts_bound [OF assms(5,6), of "n + 2 * ?m"] assms(3,4) m by linarith+
  have "is_finite (Finite 0)" by (simp add: is_finite_def)
  then have "list_all finite_phase ph"
    using counted_pos [OF c1 b(1,2)] counted_pos [OF c3 b(1,2)] counted_pos [OF c5 b(3,4)]
      counted_pos [of _ "add_scans k4 s7", unfolded scans, OF c7(1) b(3,4)] ratio_finite [OF assms(3)]
      ratio_finite [of m4] c7(2) assms(3) by (simp add: ph finite_phase_def)
  then show ?thesis using c7(1) background_counted [OF *(11)] scans by (simp add: ph m(1))
qed

section \<open>All workloads\<close>

text \<open>The puts that a workload counts: those that populate, and those that the draws choose.\<close>

definition chosen :: "world \<Rightarrow> flags \<Rightarrow> (bool \<Rightarrow> bool) \<Rightarrow> int" where
  "chosen w fl coin = int (length (filter (\<lambda>i. coin (it_coin (w_ins w 1 i))) [0..<nat (2 * numKeysFlag fl)]))"

definition puts_made :: "world \<Rightarrow> flags \<Rightarrow> int" where
  "puts_made w fl =
     (if workloadFlag fl = ''shift'' then numKeysFlag fl + 2 * (numKeysFlag fl div 2)
      else if workloadFlag fl = ''pure-read'' then 0
      else if workloadFlag fl = ''mixed'' \<or> workloadFlag fl = ''write-heavy'' then numKeysFlag fl + chosen w fl id
      else if workloadFlag fl = ''read-heavy'' then numKeysFlag fl + chosen w fl Not
      else numKeysFlag fl)"

lemma chosen_bound: "0 \<le> chosen w fl c \<and> (0 \<le> numKeysFlag fl \<longrightarrow> chosen w fl c \<le> 2 * numKeysFlag fl)"
proof -
  have "length (filter (\<lambda>i. c (it_coin (w_ins w 1 i))) [0..<nat (2 * numKeysFlag fl)]) \<le> nat (2 * numKeysFlag fl)"
    using length_filter_le [of "\<lambda>i. c (it_coin (w_ins w 1 i))" "[0..<nat (2 * numKeysFlag fl)]"] by simp
  then show ?thesis by (auto simp: chosen_def le_nat_iff)
qed

lemma runPureWrite_counted:
  "runPureWrite rt n vs ins s = Some s' \<Longrightarrow> lb_counted 0 s \<Longrightarrow> 0 \<le> n \<Longrightarrow> n \<le> 10 ^ 10 \<Longrightarrow> lb_counted (n * (14 + vs)) s'"
  using populate_counted [of rt CountAll n vs "ins 0" s _ 0]
  by (fastforce simp: runPureWrite_def bind_eq_Some_conv background_counted dest: flush_counted)

lemma runZipfian_counted:
  assumes "runZipfian rt pow n vs ins s = Some s'" "lb_counted 0 s" "0 \<le> n" "n \<le> 10 ^ 10"
  shows "lb_counted (n * (14 + vs)) s'"
proof -
  obtain s1 s2 s3 where *: "populate rt CountAll n vs (ins 0) s = Some s1"
    "flush_full rt CountAll False (it_env (after n (ins 0))) s1 = Some s2"
    "for_range (i64 (n * 3)) (\<lambda>i s. background rt (ins 1 i) s \<bind>
       read_step rt (key_name (nat (zipfian pow (it_unit (ins 1 i)) n (3 / 2)))) (ins 1 i)) s2 = Some s3"
    "background rt (after (i64 (n * 3)) (ins 1)) s3 = Some s'"
    using assms(1) by (auto simp: runZipfian_def Let_def bind_eq_Some_conv)
  have "lb_counted (n * (14 + vs)) s2"
    using flush_counted [OF *(2)] populate_counted [OF *(1) assms(2) _ assms(3,4)] by simp
  from background_loop_counted [OF *(3) this, of "\<lambda>_. 0"] show ?thesis
    using background_counted [OF *(4)] by (simp add: read_counted sum_list_triv)
qed

lemma runPureRead_counted:
  assumes "runPureRead rt n vs ins s = Some s'"
  shows "lb_counted 0 s'"
proof -
  obtain s2 where *:
    "for_range (i64 (n * 3)) (\<lambda>i s. background rt (ins 1 i) s \<bind> random_read rt n (ins 1 i)) (reset_bytes s2) = Some s'"
    using assms by (auto simp: runPureRead_def Let_def bind_eq_Some_conv)
  have "lb_counted 0 (reset_bytes s2)" by (simp add: lb_counted_def reset_bytes_def i64_id)
  from background_loop_counted [OF * this, of "\<lambda>_. 0"] show ?thesis
    by (simp add: random_read_counted sum_list_triv)
qed

lemma workload_counted:
  assumes "run_workload rt w fl s = Some (Some (ph, s'))" "lb_counted 0 s" "0 < numKeysFlag fl" "numKeysFlag fl \<le> 10 ^ 10"
    "0 < valueSizeFlag fl" "valueSizeFlag fl \<le> 10 * 1024 * 1024"
  shows "lb_counted (puts_made w fl * (14 + valueSizeFlag fl)) s' \<and> list_all finite_phase ph"
proof -
  let ?n = "numKeysFlag fl" and ?v = "valueSizeFlag fl"
  have n: "0 \<le> ?n" "nat (i64 (?n * 2)) = nat (2 * ?n)" using assms(3,4) by (simp_all add: i64_id mult.commute)
  have "lb_counted ((?n + chosen w fl id) * (14 + ?v)) s'" if "runMixed rt (w_final w) ?n ?v (w_ins w) s = Some s'"
    using that operations_counted [where puts = "\<lambda>i. it_coin (w_ins w 1 i)", OF _ _ _ _ _ _ n(1) assms(4,2)]
    unfolding chosen_def id_def n(2) [symmetric]
    by (fastforce simp: runMixed_def Let_def bind_eq_Some_conv)
  moreover have "lb_counted ((?n + chosen w fl id) * (14 + ?v)) s'" if "runWriteHeavy rt (w_final w) ?n ?v (w_ins w) s = Some s'"
    using that operations_counted [where puts = "\<lambda>i. it_coin (w_ins w 1 i)", OF _ _ _ _ _ _ n(1) assms(4,2)]
    unfolding chosen_def id_def n(2) [symmetric]
    by (fastforce simp: runWriteHeavy_def Let_def bind_eq_Some_conv)
  moreover have "lb_counted ((?n + chosen w fl Not) * (14 + ?v)) s'" if "runReadHeavy rt (w_final w) ?n ?v (w_ins w) s = Some s'"
    using that operations_counted [where puts = "\<lambda>i. \<not> it_coin (w_ins w 1 i)", OF _ _ _ _ _ _ n(1) assms(4,2)]
    unfolding chosen_def n(2) [symmetric]
    by (fastforce simp: runReadHeavy_def Let_def bind_eq_Some_conv)
  ultimately show ?thesis
    using assms(1) runShift_counted [OF _ assms(2-6)] runPureWrite_counted [OF _ assms(2) n(1) assms(4)]
      runZipfian_counted [OF _ assms(2) n(1) assms(4)] runPureRead_counted
    by (auto simp: run_workload_def Let_def puts_made_def split: if_splits)
qed

lemma puts_made_bound:
  assumes "0 < numKeysFlag fl"
  shows "0 \<le> puts_made w fl \<and> puts_made w fl \<le> 3 * numKeysFlag fl"
proof -
  have "numKeysFlag fl div 2 \<le> numKeysFlag fl" using assms by linarith
  then show ?thesis
    using assms chosen_bound [of w fl id] chosen_bound [of w fl Not] by (simp add: puts_made_def)
qed

lemma finished_results:
  assumes "flags_ok fl" "numKeysFlag fl \<le> 10 ^ 10" "valueSizeFlag fl \<le> 10 * 1024 * 1024" "w_save w = Done"
    "initial_bench w (memEntriesFlag fl) = Some s0" "run_workload rt w fl s0 = Some (Some (phases, s))"
    "background rt (w_closing w) s = Some s'"
  shows "main_run rt w fl =
      Some (Inr (''results_'' @ engineFlag fl @ ''_'' @ workloadFlag fl @ ''.json'', make_results rt w fl phases s')) \<and>
    r_LogicalBytes (make_results rt w fl phases s') = puts_made w fl * (14 + valueSizeFlag fl)"
proof -
  let ?z = "puts_made w fl * (14 + valueSizeFlag fl)"
  have fl: "0 < numKeysFlag fl" "0 < valueSizeFlag fl" using assms(1) by (auto simp: flags_ok_def)
  have "lb_counted 0 s0"
    using assms(5) by (auto simp: initial_bench_def lb_counted_def i64_id split: sum.splits)
  note c = workload_counted [OF assms(6) this fl(1) assms(2) fl(2) assms(3)]
  have "lb_counted ?z s'" using c background_counted [OF assms(7)] by blast
  moreover have "0 \<le> ?z \<and> ?z < 2 ^ 63"
    using puts_bound [OF fl(2) assms(3), of "puts_made w fl"] puts_made_bound [OF fl(1), of w] assms(2)
    by (cases "puts_made w fl = 0") auto
  ultimately have "r_LogicalBytes (make_results rt w fl phases s') = ?z"
    by (simp add: make_results_def Let_def lb_counted_def i64_id)
  moreover have "list_all (\<lambda>ph. is_finite (ph_WA ph) \<and> is_finite (ph_RA ph)) phases"
    using c by (simp add: finite_phase_def [abs_def])
  ultimately show ?thesis
    using save_results_plain [of phases rt w fl s'] assms(1,4-7) by (simp add: main_run_def)
qed

end
