(* ===== verification/Workload_Properties.thy ===== *)
theory Workload_Properties
  imports Workload_Progress Workload_Results
begin

text \<open>
  The properties of the benchmark: its byte counters, what can be read after a workload, when it
  panics, and what its final flush leaves behind.
\<close>

section \<open>The live keys of the benchmark\<close>

definition live_keys_ok :: "int \<Rightarrow> history \<Rightarrow> bench \<Rightarrow> bool" where
  "live_keys_ok vs h s \<longleftrightarrow> (\<forall>k. map_of (liveKeys s) k = (if h k = [] then None else Some vs))"

lemma flush_live_keys: "flush_full rt mode trunc env s = Some s' \<Longrightarrow> liveKeys s' = liveKeys s"
  by (cases rule: flush_full_cases) auto

lemma live_keys_event:
  assumes "bench_step rt vs ev s = Some s'" "sf_inv (b_file s)" "0 < vs" "live_keys_ok vs h s"
  shows "live_keys_ok vs (record_put vs ev h) s'"
proof (cases ev)
  case (EvPut mode key i)
  have "liveKeys s' = AList.update key vs (liveKeys s)"
    using flush_live_keys assms(1,3) by (auto simp: EvPut put_step_flush make_value_def)
  then show ?thesis using assms(4) by (simp add: live_keys_ok_def EvPut update_conv')
next
  case (EvFlush mode env)
  then show ?thesis using assms(1,4) flush_live_keys by (auto simp: live_keys_ok_def)
next
  case (EvProbe key i)
  then show ?thesis using assms(1,2,4) probe_effect by (fastforce simp: live_keys_ok_def)
next
  case (EvTick k)
  then show ?thesis using assms(1,2,4) tick_effect [of rt k s s'] by (simp add: live_keys_ok_def)
next
  case (EvCompact k)
  then show ?thesis using assms(1,2,4) tick_effect [of rt k s s'] by (simp add: live_keys_ok_def)
qed (use assms(1,4) in \<open>auto simp: live_keys_ok_def add_scans_def reset_bytes_def\<close>)

lemma live_keys_run:
  "run_events rt vs evs s = Some s' \<Longrightarrow> sf_inv (b_file s) \<Longrightarrow> refs_ok (b_meta s) \<Longrightarrow> 0 < vs \<Longrightarrow> live_keys_ok vs h s \<Longrightarrow>
   live_keys_ok vs (fold (record_put vs) evs h) s'"
proof (induction evs arbitrary: s h)
  case (Cons ev evs)
  obtain s1 where s1: "bench_step rt vs ev s = Some s1" "run_events rt vs evs s1 = Some s'"
    using Cons.prems(1) by (auto split: option.splits)
  have "live_keys_ok vs (record_put vs ev h) s1" using live_keys_event [OF s1(1) Cons.prems(2,4,5)] .
  then show ?case
    using event_keeps_refs [OF s1(1) Cons.prems(2,3)] Cons.IH [OF s1(2)] Cons.prems(4) by simp
qed simp

definition calm_world :: "world \<Rightarrow> bool" where
  "calm_world w \<longleftrightarrow> (\<forall>p j. \<forall>k \<in> set (it_ticks (w_ins w p j)). calm_tick k) \<and> calm_tick (w_final w)"

lemma key_name_length:
  assumes "int x < n" "n \<le> 2 ^ 63"
  shows "length (key_name x) \<le> 1024 * 1024"
proof -
  have "x < 2 ^ 63" using assms by simp
  then have "length (decimal x) \<le> 20" using decimal_fixed [of x 20] by simp
  then show ?thesis by (simp add: key_name_def)
qed

lemma event_of_calm:
  "event_of (w_ins w) {w_final w} n pr ev \<Longrightarrow> calm_world w \<Longrightarrow> n \<le> 2 ^ 63 \<Longrightarrow> calm ev"
  by (cases ev) (auto simp: calm_world_def intro: key_name_length [simplified])

lemma workload_state:
  assumes "go_runtime rt" "initial_bench w (memEntriesFlag fl) = Some s0" "run_workload rt w fl s0 = Some (Some (ph, s))"
    "0 < valueSizeFlag fl" "valueSizeFlag fl \<le> 10 * 1024 * 1024" "numKeysFlag fl < 2 ^ 63" "calm_world w" "plausible s"
  obtains h where "serves h s" "live_keys_ok (valueSizeFlag fl) h s" "\<forall>k. \<forall>v \<in> set (h k). int (length v) = valueSizeFlag fl"
proof -
  let ?vs = "valueSizeFlag fl"
  obtain evs where evs: "list_all (event_of (w_ins w) {w_final w} (numKeysFlag fl) (workloadFlag fl = ''pure-read'')) evs"
    "run_events rt ?vs evs s0 = Some s"
    using run_workload_run [OF assms(3)] by (auto simp: event_run_def)
  have "list_all calm evs"
    using evs(1) by (rule list.pred_mono_strong) (rule event_of_calm, use assms(6,7) in auto)
  note init = initial_serves [OF assms(2)]
  let ?h = "fold (record_put ?vs) evs (\<lambda>_. [])"
  have sv: "serves ?h s" using serves_run [OF assms(1,4,5) \<open>list_all calm evs\<close> init(1) evs(2) assms(8)] .
  have lk: "live_keys_ok ?vs ?h s"
    using live_keys_run [OF evs(2) _ _ assms(4), of "\<lambda>_. []"] serves_refs [OF init(1)] init(2)
    by (simp add: live_keys_ok_def)
  have "\<forall>k. \<forall>v \<in> set (fold (record_put ?vs) xs h k). int (length v) = ?vs"
    if "\<forall>k. \<forall>v \<in> set (h k). int (length v) = ?vs" for xs h
    using that
  proof (induction xs arbitrary: h)
    case (Cons x xs)
    have "\<forall>k. \<forall>v \<in> set (record_put ?vs x h k). int (length v) = ?vs"
      using Cons.prems assms(4) by (cases x) (auto simp: make_value_def)
    then show ?case using Cons.IH by simp
  qed simp
  from this [of "\<lambda>_. []" evs] have "\<forall>k. \<forall>v \<in> set (?h k). int (length v) = ?vs" by simp
  with sv lk show thesis by (rule that)
qed

section \<open>Populating\<close>

lemma each_append: "each body (xs @ ys) s = (case each body xs s of None \<Rightarrow> None | Some s' \<Rightarrow> each body ys s')"
  by (induction xs arbitrary: s) (auto split: option.split)

lemma bg_tick_mem: "bg_tick rt k s = Some s' \<Longrightarrow> b_mem s' = b_mem s"
  by (cases rule: bg_tick_cases)
    (auto simp: run_plan_def count_compaction_def split: option.splits)

lemma background_mem: "background rt i s = Some s' \<Longrightarrow> b_mem s' = b_mem s"
proof -
  have "each (bg_tick rt) ks s = Some s' \<Longrightarrow> b_mem s' = b_mem s" for ks
    by (induction ks arbitrary: s) (auto split: option.splits dest: bg_tick_mem)
  then show "background rt i s = Some s' \<Longrightarrow> b_mem s' = b_mem s" by (simp add: background_def)
qed

text \<open>The memtable after \<open>k\<close> puts of the keys in their order.\<close>

definition tail_keys :: "nat \<Rightarrow> nat \<Rightarrow> memtable \<Rightarrow> bool" where
  "tail_keys m k mem \<longleftrightarrow> mem_inv mem \<and> maxEntries mem = int m \<and> map Key (data mem) = map key_name [k - k mod m..<k]"

lemma stored_last: "\<forall>e \<in> set es. Key e < key \<Longrightarrow> stored key x es = es @ [x]"
  by (simp add: stored_def filter_id_conv filter_empty_conv less_not_sym)

lemma put_tail:
  assumes "tail_keys m k (b_mem s)" "0 < m" "k < 10 ^ 10" "put_step rt mode vs (key_name k) i s = Some s'"
  shows "tail_keys m (Suc k) (b_mem s')"
proof -
  let ?e = "live_entry (key_name k) (Some (make_value vs (it_value i)))"
  let ?mem = "Put (key_name k) (Some (make_value vs (it_value i))) (b_mem s)"
  have inv: "mem_inv (b_mem s)" and keys: "map Key (data (b_mem s)) = map key_name [k - k mod m..<k]"
    and lim: "maxEntries (b_mem s) = int m"
    using assms(1) by (simp_all add: tail_keys_def)
  have "\<forall>x \<in> set (map Key (data (b_mem s))). x < key_name k"
    unfolding keys using key_name_mono assms(3) by auto
  then have dat: "data ?mem = data (b_mem s) @ [?e]" by (simp add: data_Put [OF inv] stored_last)
  have max: "maxEntries ?mem = int m" by (simp add: data_Put [OF inv] lim)
  have upto: "[k - k mod m..<Suc k] = [k - k mod m..<k] @ [k]" by simp
  have keys': "map Key (data ?mem) = map key_name [k - k mod m..<Suc k]"
    unfolding dat upto by (simp add: keys)
  then have len: "length (data ?mem) = Suc (k mod m)"
    by (metis diff_diff_cancel length_map length_upt mod_less_eq_dividend Suc_diff_le diff_le_self)
  have inv': "mem_inv ?mem" by (rule mem_inv_Put [OF inv])
  have step: "Suc k mod m = (if Suc (k mod m) = m then 0 else Suc (k mod m))" by (rule mod_Suc)
  from assms(4) show ?thesis unfolding put_step_flush
  proof (cases rule: flush_full_cases)
    case idle
    then have "Suc (k mod m) \<noteq> m" by (simp add: ShouldFlush_def len max lim)
    moreover have "k mod m \<le> k" by simp
    ultimately show ?thesis using idle(2) inv' max keys' by (simp add: tail_keys_def step)
  next
    case (written seg r st)
    have "Suc (k mod m) = m"
      using written(1) assms(2) mod_less_divisor [OF assms(2), of k] by (simp add: ShouldFlush_def len max lim)
    then show ?thesis using written(5) max by (simp add: tail_keys_def step)
  qed
qed

lemma populate_tail:
  assumes "populate rt mode n vs ins s = Some s'" "b_mem s = NewMemtable (int m)" "0 < m" "n < 10 ^ 10"
  shows "tail_keys m (nat n) (b_mem s')"
proof -
  let ?body = "\<lambda>i s. background rt (ins i) s \<bind> put_step rt mode vs (key_name i) (ins i)"
  have "each ?body [0..<k] s = Some s' \<Longrightarrow> k \<le> 10 ^ 10 \<Longrightarrow> tail_keys m k (b_mem s')" for k s'
  proof (induction k arbitrary: s')
    case 0
    then show ?case using assms(2) by (simp add: tail_keys_def NewMemtable_def mem_inv_def)
  next
    case (Suc k)
    obtain s1 where s1: "each ?body [0..<k] s = Some s1" "each ?body [k] s1 = Some s'"
      using Suc.prems(1) by (auto simp: each_append split: option.splits)
    then obtain s2 where s2: "background rt (ins k) s1 = Some s2" "put_step rt mode vs (key_name k) (ins k) s2 = Some s'"
      by (auto simp: bind_eq_Some_conv split: option.splits)
    have "tail_keys m k (b_mem s2)" using Suc s1(1) background_mem [OF s2(1)] by simp
    then show ?case using put_tail [OF _ assms(3) _ s2(2)] Suc.prems(2) by simp
  qed
  moreover have "nat n \<le> 10 ^ 10" using assms(4) by (simp add: nat_le_iff)
  ultimately show ?thesis using assms(1) by (simp add: populate_def for_range_def)
qed

section \<open>Properties\<close>

text \<open>
  A small run of \<^verbatim>\<open>pure-write\<close>: of three puts the second fills the memtable and is flushed with the
  first, the third stays in it, and a tick during the sleep finds nothing to compact.
\<close>

definition demo_tick :: tick_env where
  "demo_tick = \<lparr>tk_clock = (\<lambda>_. tick 50), tk_scan = (all_done, all_done), tk_append = all_done, tk_uuid = [9], tk_now = 50\<rparr>"

definition demo_input :: "nat \<Rightarrow> nat \<Rightarrow> iter_in" where
  "demo_input p j = \<lparr>it_ticks = (if j = 3 then [demo_tick] else []), it_draw = j, it_coin = even j, it_unit = 1 / 2,
     it_value = (\<lambda>x. of_nat (100 + j)), it_env = good_env\<lparr>new_uuid := [of_nat p, of_nat j], now := int (10 * j)\<rparr>,
     it_mmap = all_done\<rparr>"

definition demo_world :: world where
  "demo_world = \<lparr>w_open_wal = Done, w_wal_left = [], w_open_file = Done, w_file_left = [], w_start = \<lparr>unix = 0, mono = 0\<rparr>,
     w_ins = demo_input, w_final = demo_tick, w_pow = (\<lambda>x y. x), w_dur = (\<lambda>_. 1), w_closing = demo_input 5 0,
     w_stat = Done, w_save = Done\<rparr>"

definition demo_flags :: flags where
  "demo_flags = \<lparr>workloadFlag = ''pure-write'', numKeysFlag = 3, valueSizeFlag = 1, memEntriesFlag = 2,
     engineFlag = ''adaptive''\<rparr>"

definition demo_start :: bench where
  "demo_start = the (initial_bench demo_world 2)"

definition demo_events :: "event list" where
  "demo_events = map (\<lambda>j. EvPut CountAll (key_name j) (demo_input 0 j)) [0, 1, 2] @
     [EvFlush CountAll (it_env (demo_input 0 3)), EvTick demo_tick]"

lemma bind_case: "Option.bind m f = (case m of None \<Rightarrow> None | Some x \<Rightarrow> f x)"
  by (cases m) simp_all

lemma demo_workload:
  "run_workload rt demo_world demo_flags s = map_option (\<lambda>s. Some ([], s)) (run_events rt 1 demo_events s)"
proof -
  have "[0..<3] = [0, 1, 2 :: nat]" by (simp add: upt_rec)
  moreover have "it_ticks (demo_input p j) = (if j = 3 then [demo_tick] else [])" for p j by (simp add: demo_input_def)
  ultimately show ?thesis
    by (simp add: run_workload_def demo_flags_def runPureWrite_def populate_def for_range_def background_def after_def
        demo_world_def demo_events_def bind_case) (auto split: option.split)
qed

lemma demo_eval: "case run_events short_runtime 1 demo_events demo_start of
    Some s \<Rightarrow> ordered (snd (b_meta s)) = [0] \<and> length (sf_bytes (b_file s)) = 133 \<and> Length (cells (fst (b_meta s)) 0) = 133 \<and>
      map Key (data (b_mem s)) = [key_name 2] \<and> map_of (liveKeys s) (key_name 0) = Some 1 \<and> physicalBytes s = 133 \<and> ShouldFlush (Put (key_name 3) (Some [103]) (b_mem s))
  | None \<Rightarrow> False" by code_simp

lemma demo_run:
  obtains s where "run_events short_runtime 1 demo_events demo_start = Some s" "plausible s"
    "map Key (data (b_mem s)) = [key_name 2]" "map_of (liveKeys s) (key_name 0) = Some 1" "physicalBytes s = 133"
    "ShouldFlush (Put (key_name 3) (Some [103]) (b_mem s))"
proof -
  obtain s where s: "run_events short_runtime 1 demo_events demo_start = Some s"
    using demo_eval by (cases "run_events short_runtime 1 demo_events demo_start") simp_all
  then have f: "ordered (snd (b_meta s)) = [0]" "length (sf_bytes (b_file s)) = 133" "Length (cells (fst (b_meta s)) 0) = 133"
    "map Key (data (b_mem s)) = [key_name 2]" "map_of (liveKeys s) (key_name 0) = Some 1" "physicalBytes s = 133"
    "ShouldFlush (Put (key_name 3) (Some [103]) (b_mem s))"
    using demo_eval by simp_all
  then have "plausible s" by (simp add: plausible_def)
  with s f show thesis by (intro that)
qed

text \<open>Four puts flush twice, and there is something to compact.\<close>

definition four_puts :: "event list" where
  "four_puts = map (\<lambda>j. EvPut CountAll (key_name j) (demo_input 0 j)) [0, 1, 2, 3]"

definition blind_tick :: tick_env where
  "blind_tick = demo_tick\<lparr>tk_scan := ((Fault 1, Fault 1, Done), all_done)\<rparr>"

lemma four_eval: "case run_events short_runtime 1 four_puts demo_start of
    Some s \<Rightarrow> fst (MaybePlan short_runtime (tk_clock blind_tick) (b_meta s) (b_director s)) \<noteq> None \<and>
      ordered (snd (b_meta s)) = [1, 0] \<and> length (sf_bytes (b_file s)) = 266 \<and>
      Length (cells (fst (b_meta s)) 0) = 133 \<and> Length (cells (fst (b_meta s)) 1) = 133 \<and>
      ID (cells (fst (b_meta s)) 0) \<noteq> ID (cells (fst (b_meta s)) 1) \<and> data (b_mem s) = []
  | None \<Rightarrow> False" by code_simp

lemma demo_initial: "initial_bench demo_world 2 = Some demo_start"
  by (simp add: demo_start_def initial_bench_def demo_world_def)

lemma demo_calm: "list_all calm demo_events" "calm_world demo_world"
  by (simp_all add: demo_events_def calm_tick_def demo_tick_def calm_world_def demo_world_def demo_input_def
      key_name_length [of _ "2 ^ 63", simplified])

lemma four_run:
  obtains s where "run_events short_runtime 1 four_puts demo_start = Some s" "plausible s" "data (b_mem s) = []"
    "fst (MaybePlan short_runtime (tk_clock blind_tick) (b_meta s) (b_director s)) \<noteq> None" "list_all calm four_puts"
proof -
  obtain s where s: "run_events short_runtime 1 four_puts demo_start = Some s"
    using four_eval by (cases "run_events short_runtime 1 four_puts demo_start") simp_all
  then have f: "fst (MaybePlan short_runtime (tk_clock blind_tick) (b_meta s) (b_director s)) \<noteq> None \<and>
      ordered (snd (b_meta s)) = [1, 0] \<and> length (sf_bytes (b_file s)) = 266 \<and>
      Length (cells (fst (b_meta s)) 0) = 133 \<and> Length (cells (fst (b_meta s)) 1) = 133 \<and>
      ID (cells (fst (b_meta s)) 0) \<noteq> ID (cells (fst (b_meta s)) 1) \<and> data (b_mem s) = []"
    using four_eval by simp
  then have "plausible s" by (auto simp: plausible_def)
  moreover have "list_all calm four_puts" by (simp add: four_puts_def key_name_length [of _ "2 ^ 63", simplified])
  ultimately show thesis using s f by (intro that) blast+
qed

lemma demo_flag_values [simp]: "workloadFlag demo_flags = ''pure-write''" "numKeysFlag demo_flags = 3"
  "valueSizeFlag demo_flags = 1" "memEntriesFlag demo_flags = 2"
  by (simp_all add: demo_flags_def)

lemma demo_workload_run:
  "run_events short_runtime 1 demo_events demo_start = Some s \<Longrightarrow>
   run_workload short_runtime demo_world demo_flags demo_start = Some (Some ([], s))"
  by (simp add: demo_workload)

text \<open>C10: The byte counters of the benchmark agree with each other and with the tracker: after any
  workload but \<^verbatim>\<open>pure-read\<close>, whatever was compacted in the background and whichever calls failed,
  \<^verbatim>\<open>physicalBytes\<close> is the total length of all segments ever registered, the writer's flush counter
  is the total length of those at level 0, outputs of tiered compactions included, its compaction
  counter that of the others, and the two sum up to \<^verbatim>\<open>physicalBytes\<close>, all up to wrap-around.\<close>

theorem workload_bytes_add_up:
  assumes "initial_bench w (memEntriesFlag fl) = Some s0" "run_workload rt w fl s0 = Some (Some (ph, s))"
    "workloadFlag fl \<noteq> ''pure-read''"
  shows "physicalBytes s = i64 (total_length (\<lambda>_. True) (b_meta s)) \<and>
    GlobalPhysicalWriteBytes (b_globals s) = i64 (total_length (\<lambda>m. Level m = 0) (b_meta s)) \<and>
    GlobalCompactionWriteBytes (b_globals s) = i64 (total_length (\<lambda>m. Level m \<noteq> 0) (b_meta s)) \<and>
    r_PhysicalBytes (make_results rt w fl ph s) =
      i64 (PhysicalWriteBytes (make_results rt w fl ph s) + CompactionWriteBytes (make_results rt w fl ph s))"
proof -
  have acc: "account s" using workload_account [OF initial_account [OF assms(1)] assms(2,3)] .
  have split: "total_length (\<lambda>_. True) (b_meta s) =
      total_length at_level0 (b_meta s) + total_length (\<lambda>m. \<not> at_level0 m) (b_meta s)"
    unfolding total_length_def by (subst sum_list_addf [symmetric]) (auto intro!: arg_cong [of _ _ sum_list])
  have "at_level0 = (\<lambda>m. Level m = 0)" "(\<lambda>m. \<not> at_level0 m) = (\<lambda>m. Level m \<noteq> 0)"
    by (simp_all add: fun_eq_iff at_level0_def)
  then show ?thesis
    using acc split by (simp add: account_def make_results_def Let_def i64_add_left i64_add_right)
qed

lemma workload_bytes_add_up_witness:
  "\<exists>s. run_workload short_runtime demo_world demo_flags demo_start = Some (Some ([], s)) \<and>
     i64 (total_length (\<lambda>_. True) (b_meta s)) = 133"
proof -
  obtain s where s: "run_events short_runtime 1 demo_events demo_start = Some s" "physicalBytes s = 133" by (rule demo_run)
  have "initial_bench demo_world (memEntriesFlag demo_flags) = Some demo_start" by (simp add: demo_initial)
  from workload_bytes_add_up [OF this demo_workload_run [OF s(1)]] s demo_workload_run [OF s(1)] show ?thesis by auto
qed

text \<open>C5: A read through the handler returns a value that was put under the key: after any run of puts,
  flushes, reads and compactions, in any order, a key that was put reads as one of the values put
  under it, and a key that was not is missed. Writes, truncations, the appends of compactions and
  the mappings of reads may have failed, but the background compactions could map the file to scan
  their inputs (an input that cannot be scanned is dropped and retired), and each of them ran to its
  end between two iterations. The last read can map the file; keys and values are within the
  reader's limits, identifiers drawn distinct, and no segment above 500 MiB. That the value need
  not be the last one is the subject of other properties.\<close>

theorem reads_return_put_values:
  assumes "go_runtime rt" "initial_bench w n = Some s0" "run_events rt vs evs s0 = Some s" "list_all calm evs"
    "0 < vs" "vs \<le> 10 * 1024 * 1024" "plausible s"
  shows "\<exists>r x. handler_Get rt (reader_Get all_done) key (b_mem s) (b_meta s) (b_file s) (b_globals s) = Some (r, x) \<and>
    (if history_of_run vs evs key = [] then r = (None, False)
     else \<exists>v \<in> set (history_of_run vs evs key). r = (Some v, True))"
  unfolding history_of_run_def
  by (rule serves_reads [OF assms(1) serves_run [OF assms(1,5,6,4) initial_serves(1) [OF assms(2)] assms(3,7)]])

lemma reads_return_put_values_witness:
  "\<exists>s x. run_events short_runtime 1 demo_events demo_start = Some s \<and>
     handler_Get short_runtime (reader_Get all_done) (key_name 1) (b_mem s) (b_meta s) (b_file s) (b_globals s) =
       Some ((Some [101], True), x)"
proof -
  obtain s where s: "run_events short_runtime 1 demo_events demo_start = Some s" "plausible s" by (rule demo_run)
  have "key_name 0 \<noteq> key_name 1" "key_name 2 \<noteq> key_name 1" by (simp_all add: key_name_inject)
  then have "history_of_run 1 demo_events (key_name 1) = [[101]]"
    by (simp add: history_of_run_def demo_events_def make_value_def demo_input_def)
  with reads_return_put_values [OF short_rt.go_runtime_axioms demo_initial s(1) demo_calm(1) _ _ s(2), of "key_name 1"] s(1)
  show ?thesis by auto
qed



text \<open>C9: When the benchmark panics: in any state it reaches while the scans of compactions can map the file,
  a put panics exactly when it fills the memtable and the append of the flush fails, whose error is
  dropped and whose nil segment is dereferenced. A read never does, whatever its mappings return. A
  tick of the background does not when its scans can map the file, even when its append fails, but
  when none of them can, it panics as soon as there is a plan: the merged output is empty, the
  writer returns a nil segment without an error, and the log line after it dereferences that. The
  compaction that ends a workload panics, when its scans can map the file, exactly when there is a
  plan and its append fails. Of scans that fail for some inputs only nothing is said.\<close>

theorem panics_are_failed_calls:
  assumes "go_runtime rt" "initial_bench w n = Some s0" "run_events rt vs evs s0 = Some s" "list_all calm evs"
    "0 < vs" "vs \<le> 10 * 1024 * 1024" "plausible s" "length (data (b_mem s)) < 2 ^ 38"
  shows "(\<forall>mode key i. length key \<le> 1024 * 1024 \<longrightarrow> (bench_step rt vs (EvPut mode key i) s = None \<longleftrightarrow>
      ShouldFlush (Put key (Some (make_value vs (it_value i))) (b_mem s)) \<and> append_outcomes (it_env i) \<noteq> all_done)) \<and>
    (\<forall>key i. bench_step rt vs (EvProbe key i) s \<noteq> None) \<and>
    (\<forall>k. calm_tick k \<longrightarrow> bench_step rt vs (EvTick k) s \<noteq> None) \<and>
    (\<forall>k. unscannable k \<longrightarrow> (bench_step rt vs (EvTick k) s = None \<longleftrightarrow>
      fst (MaybePlan rt (tk_clock k) (b_meta s) (b_director s)) \<noteq> None)) \<and>
    (\<forall>k. calm_tick k \<longrightarrow> (bench_step rt vs (EvCompact k) s = None \<longleftrightarrow>
      fst (MaybePlan rt (tk_clock k) (b_meta s) (b_director s)) \<noteq> None \<and> tk_append k \<noteq> all_done))"
proof -
  obtain h where "serves h s"
    using serves_run [OF assms(1,5,6,4) initial_serves(1) [OF assms(2)] assms(3,7)] by blast
  then obtain runs where sv: "serving h runs (b_mem s) (b_meta s) (b_file s)" by (auto simp: serves_def)
  have "bench_step rt vs (EvPut mode key i) s = None \<longleftrightarrow>
      ShouldFlush (Put key (Some (make_value vs (it_value i))) (b_mem s)) \<and> append_outcomes (it_env i) \<noteq> all_done"
    if "length key \<le> 1024 * 1024" for mode key i
    using put_progress [OF sv assms(5,6,8) that] by simp
  moreover have "bench_step rt vs (EvProbe key i) s \<noteq> None" for key i
    using probe_progress [OF assms(1) sv] by simp
  ultimately show ?thesis using tick_progress [OF assms(1) sv] unfolding bench_step.simps by blast
qed

lemma panics_are_failed_calls_witness:
  "\<exists>s. run_events short_runtime 1 demo_events demo_start = Some s \<and>
     put_step short_runtime CountAll 1 (key_name 3) ((demo_input 0 3)\<lparr>it_env := bad_append\<rparr>) s = None \<and>
     (\<exists>s. run_events short_runtime 1 four_puts demo_start = Some s \<and> bg_tick short_runtime blind_tick s = None)"
proof -
  obtain s4 where s4: "run_events short_runtime 1 four_puts demo_start = Some s4" "plausible s4" "data (b_mem s4) = []"
    "fst (MaybePlan short_runtime (tk_clock blind_tick) (b_meta s4) (b_director s4)) \<noteq> None" "list_all calm four_puts"
    by (rule four_run)
  have "unscannable blind_tick" by (simp add: unscannable_def blind_tick_def)
  then have crash: "bg_tick short_runtime blind_tick s4 = None"
    using panics_are_failed_calls [OF short_rt.go_runtime_axioms demo_initial s4(1,5) _ _ s4(2)] s4(3,4) by simp
  obtain s where s: "run_events short_runtime 1 demo_events demo_start = Some s" "plausible s"
    "map Key (data (b_mem s)) = [key_name 2]" "ShouldFlush (Put (key_name 3) (Some [103]) (b_mem s))" by (rule demo_run)
  have len: "length (data (b_mem s)) = 1" using arg_cong [OF s(3), of length] by simp
  have "length (data (b_mem s)) < 2 ^ 38" unfolding len by simp
  from panics_are_failed_calls [OF short_rt.go_runtime_axioms demo_initial s(1) demo_calm(1) _ _ s(2) this]
  have "\<forall>mode key i. length key \<le> 1024 * 1024 \<longrightarrow> (bench_step short_runtime 1 (EvPut mode key i) s = None \<longleftrightarrow>
      ShouldFlush (Put key (Some (make_value 1 (it_value i))) (b_mem s)) \<and> append_outcomes (it_env i) \<noteq> all_done)" by simp
  moreover have "length (key_name 3) \<le> 1024 * 1024" by (rule key_name_length [of _ 4]) simp_all
  ultimately have "bench_step short_runtime 1 (EvPut CountAll (key_name 3) ((demo_input 0 3)\<lparr>it_env := bad_append\<rparr>)) s = None"
    using s(4) by (simp add: make_value_def demo_input_def bad_append_def good_env_def all_done_def)
  then show ?thesis using s(1) s4(1) crash by auto
qed

text \<open>C26: The flush that follows a loop never happens: after the populating loop of any workload, the
  memtable holds exactly the last keys that did not fill it, as many as the number of keys modulo
  its limit, and the guard of the final flush is false, so they stay there, where the reads of the
  benchmark never look.\<close>

theorem final_flush_leaves_tail:
  assumes "populate rt mode n vs ins s = Some s'" "b_mem s = NewMemtable (int m)" "0 < m" "n < 10 ^ 10"
  shows "map Key (data (b_mem s')) = map key_name [nat n - nat n mod m..<nat n] \<and>
    flush_full rt mode' False env s' = Some s'"
proof -
  have t: "tail_keys m (nat n) (b_mem s')" by (rule populate_tail [OF assms])
  then have keys: "map Key (data (b_mem s')) = map key_name [nat n - nat n mod m..<nat n]" by (simp add: tail_keys_def)
  have "length (data (b_mem s')) = nat n mod m" using arg_cong [OF keys, of length] by simp
  then have "\<not> ShouldFlush (b_mem s')"
    using t mod_less_divisor [OF assms(3), of "nat n"] by (simp add: ShouldFlush_def tail_keys_def)
  then show ?thesis using keys by (simp add: flush_full_def)
qed

lemma final_flush_leaves_tail_witness:
  "\<exists>s. populate short_runtime CountAll 3 1 (demo_input 0) demo_start = Some s \<and> map Key (data (b_mem s)) = [key_name 2] \<and>
     flush_full short_runtime CountAll False good_env s = Some s"
proof -
  obtain s where "run_workload short_runtime demo_world demo_flags demo_start = Some (Some ([], s))"
    using demo_run demo_workload_run by metis
  then obtain s1 where s1: "populate short_runtime CountAll 3 1 (demo_input 0) demo_start = Some s1"
    by (auto simp: run_workload_def demo_flags_def runPureWrite_def demo_world_def bind_eq_Some_conv)
  have "b_mem demo_start = NewMemtable (int 2)"
    by (simp add: demo_start_def initial_bench_def demo_world_def)
  from final_flush_leaves_tail [OF s1 this] s1 show ?thesis by (auto simp: upt_rec)
qed

text \<open>C11: A run that gets to its end saves its results, with exact logical bytes: whichever workload it is,
  no ratio that is saved is infinite or not a number, those of the phases of shift included, so
  the file is written, and the logical bytes in it are the puts the workload counts, those that
  populate and those the draws choose, times the size of an entry, without wrapping around.\<close>

theorem finished_run_is_saved:
  assumes "flags_ok fl" "numKeysFlag fl \<le> 10 ^ 10" "valueSizeFlag fl \<le> 10 * 1024 * 1024" "w_save w = Done"
    "initial_bench w (memEntriesFlag fl) = Some s0" "run_workload rt w fl s0 = Some (Some (phases, s))"
    "background rt (w_closing w) s = Some s'"
  shows "main_run rt w fl =
      Some (Inr (''results_'' @ engineFlag fl @ ''_'' @ workloadFlag fl @ ''.json'', make_results rt w fl phases s')) \<and>
    r_LogicalBytes (make_results rt w fl phases s') = puts_made w fl * (14 + valueSizeFlag fl)"
  by (rule finished_results [OF assms])

lemma finished_run_is_saved_witness:
  "\<exists>r. main_run short_runtime demo_world demo_flags = Some (Inr (''results_adaptive_pure-write.json'', r)) \<and>
     r_LogicalBytes r = 45"
proof -
  obtain s where "run_events short_runtime 1 demo_events demo_start = Some s" by (rule demo_run)
  then have w: "run_workload short_runtime demo_world demo_flags demo_start = Some (Some ([], s))"
    by (rule demo_workload_run)
  have fl: "flags_ok demo_flags" "memEntriesFlag demo_flags = 2" "valueSizeFlag demo_flags = 1"
    "puts_made demo_world demo_flags = 3" "engineFlag demo_flags = ''adaptive''"
    by (simp_all add: demo_flags_def flags_ok_def puts_made_def)
  have "background short_runtime (w_closing demo_world) s = Some s"
    by (simp add: background_def demo_world_def demo_input_def)
  moreover have "w_save demo_world = Done" by (simp add: demo_world_def)
  ultimately show ?thesis
    using finished_run_is_saved [OF fl(1) _ _ _ _ w] by (auto simp: fl demo_initial)
qed

end
