(* ===== verification/Execution_Steps.thy ===== *)
theory Execution_Steps
  imports Component_Effects
begin

text \<open>
  \<^verbatim>\<open>Execute\<close> of \<^verbatim>\<open>internal/compaction/executor.go\<close> again, one access to shared state at a time:
  the state of a segment, the file, the tracker. Between two steps other goroutines may run; what
  they do to each other is the subject of \<open>Concurrent_Compaction\<close>. Here a goroutine runs alone, and its
  steps amount to the function \<open>Execute\<close>.
\<close>

section \<open>The steps\<close>

type_synonym 's shared = "(store \<times> tracker) \<times> 's \<times> counters"

text \<open>
  Where an execution is, with its local variables: the inputs a loop has left, the merged map, the
  new segment (\<open>None\<close> when the writer returned nil), the result the deferred function runs before.
\<close>

datatype exec_pc =
  Validating nat "ref option list"
| Flagging "ref list"
| Checking "ref list" "(gostring \<times> slice) list"
| Scanning ref "ref list" "(gostring \<times> slice) list"
| Counting ref "ref list" "(gostring \<times> slice) list"
| Writing "(gostring \<times> slice) list"
| Registering segment_meta
| Retiring "ref list" "ref option"
| RetiringTracked ref "ref list" "ref option"
| Unflagging "ref list" "exec_error + ref"
| Returned "exec_error + ref"

fun exec_step ::
  "runtime \<Rightarrow> 's scan_op \<Rightarrow> 's write_op \<Rightarrow> plan \<Rightarrow> exec_pc \<Rightarrow> 's shared \<Rightarrow> (exec_pc \<times> 's shared) option" where
  "exec_step rt scan wr p (Validating i []) sh = Some (Flagging (map the (Inputs p)), sh)"
| "exec_step rt scan wr p (Validating i (seg # rest)) (stt, s, g) =
     Some (case validate (fst stt) i [seg] of
             Some err \<Rightarrow> Returned (Inl err)
           | None \<Rightarrow> Validating (Suc i) rest, stt, s, g)"
| "exec_step rt scan wr p (Flagging []) sh = Some (Checking (map the (Inputs p)) [], sh)"
| "exec_step rt scan wr p (Flagging (seg # rest)) (stt, s, g) =
     Some (Flagging rest, (upd_cell seg (\<lambda>m. m\<lparr>InCompaction := True\<rparr>) (fst stt), snd stt), s, g)"
| "exec_step rt scan wr p (Checking [] merged) sh = Some (Writing merged, sh)"
| "exec_step rt scan wr p (Checking (seg # rest) merged) (stt, s, g) =
     Some (if IsObsolete (cells (fst stt) seg) \<or> \<not> InCompaction (cells (fst stt) seg)
           then Checking rest merged else Scanning seg rest merged, stt, s, g)"
| "exec_step rt scan wr p (Scanning seg rest merged) (stt, s, g) =
     (case scan (Some (cells (fst stt) seg)) s of
        (Inl e, s') \<Rightarrow> Some (Checking rest merged, stt, s', g)
      | (Inr dat, s') \<Rightarrow> Some (Counting seg rest (merge_data (range_slices rt dat) merged), stt, s', g))"
| "exec_step rt scan wr p (Counting seg rest merged) (stt, s, g) =
     Some (Checking rest merged, UpdateStats (ID (cells (fst stt) seg)) 0 1 stt, s, g)"
| "exec_step rt scan wr p (Writing merged) (stt, s, g) =
     (case wr (final_entries rt merged) (OutputStrategy p) (TargetLevel p) s g of
        None \<Rightarrow> None
      | Some (Inl err, s', g') \<Rightarrow>
          Some (Unflagging (map the (Inputs p)) (Inl (OutputFailed err)), stt, s', g')
      | Some (Inr None, s', g') \<Rightarrow> Some (Retiring (map the (Inputs p)) None, stt, s', g')
      | Some (Inr (Some m), s', g') \<Rightarrow> Some (Registering m, stt, s', g'))"
| "exec_step rt scan wr p (Registering m) (stt, s, g) =
     (case alloc m (fst stt) of
        (newSeg, st) \<Rightarrow>
          Some (Retiring (map the (Inputs p)) (Some newSeg), RegisterSegment rt newSeg (st, snd stt), s, g))"
| "exec_step rt scan wr p (Retiring [] None) sh = None"
| "exec_step rt scan wr p (Retiring [] (Some newSeg)) sh =
     Some (Unflagging (map the (Inputs p)) (Inr newSeg), sh)"
| "exec_step rt scan wr p (Retiring (seg # rest) newSeg) (stt, s, g) =
     Some (RetiringTracked seg rest newSeg, (upd_cell seg MarkObsolete (fst stt), snd stt), s, g)"
| "exec_step rt scan wr p (RetiringTracked seg rest newSeg) (stt, s, g) =
     Some (Retiring rest newSeg, tracker_MarkObsolete (ID (cells (fst stt) seg)) stt, s, g)"
| "exec_step rt scan wr p (Unflagging [] r) sh = Some (Returned r, sh)"
| "exec_step rt scan wr p (Unflagging (seg # rest) r) (stt, s, g) =
     Some (Unflagging rest r, (upd_cell seg (\<lambda>m. m\<lparr>InCompaction := False\<rparr>) (fst stt), snd stt), s, g)"
| "exec_step rt scan wr p (Returned r) sh = Some (Returned r, sh)"

text \<open>A goroutine alone; one that has returned stays where it is.\<close>

fun exec_steps ::
  "nat \<Rightarrow> runtime \<Rightarrow> 's scan_op \<Rightarrow> 's write_op \<Rightarrow> plan \<Rightarrow> exec_pc \<Rightarrow> 's shared \<Rightarrow> (exec_pc \<times> 's shared) option" where
  "exec_steps 0 rt scan wr p pc sh = Some (pc, sh)"
| "exec_steps (Suc n) rt scan wr p pc sh =
     (case exec_step rt scan wr p pc sh of
        None \<Rightarrow> None
      | Some (pc', sh') \<Rightarrow> exec_steps n rt scan wr p pc' sh')"

section \<open>Running alone\<close>

text \<open>From a point on the outcome does not depend on the number of steps.\<close>

definition settles ::
  "runtime \<Rightarrow> 's scan_op \<Rightarrow> 's write_op \<Rightarrow> plan \<Rightarrow> nat \<Rightarrow> exec_pc \<Rightarrow> 's shared \<Rightarrow>
   (exec_pc \<times> 's shared) option \<Rightarrow> bool" where
  "settles rt scan wr p b pc sh out \<longleftrightarrow> (\<forall>n \<ge> b. exec_steps n rt scan wr p pc sh = out)"

lemma settles_mono: "settles rt scan wr p b pc sh out \<Longrightarrow> b \<le> b' \<Longrightarrow> settles rt scan wr p b' pc sh out"
  by (simp add: settles_def)

lemma settles_step:
  assumes "exec_step rt scan wr p pc sh = Some (pc', sh')" "settles rt scan wr p b pc' sh' out"
  shows "settles rt scan wr p (Suc b) pc sh out"
  unfolding settles_def
proof (intro allI impI)
  fix n assume "Suc b \<le> n"
  then obtain n' where "n = Suc n'" "b \<le> n'" by (cases n) auto
  then show "exec_steps n rt scan wr p pc sh = out" using assms by (simp add: settles_def)
qed

lemma settles_panic: "exec_step rt scan wr p pc sh = None \<Longrightarrow> settles rt scan wr p (Suc 0) pc sh None"
  unfolding settles_def by (metis Suc_le_D exec_steps.simps(2) option.case(1))

lemma settles_returned: "settles rt scan wr p 0 (Returned r) sh (Some (Returned r, sh))"
proof -
  have "exec_steps n rt scan wr p (Returned r) sh = Some (Returned r, sh)" for n by (induction n) simp_all
  then show ?thesis by (simp add: settles_def)
qed

lemma settles_unflag:
  "settles rt scan wr p (length rs + 1) (Unflagging rs r) (stt, s, g)
     (Some (Returned r, (set_flags False rs (fst stt), snd stt), s, g))"
proof (induction rs arbitrary: stt)
  case Nil
  then show ?case
    using settles_step [OF _ settles_returned, of rt scan wr p "Unflagging [] r"] by (simp add: set_flags_def)
next
  case (Cons seg rs)
  have "set_flags False (seg # rs) st = set_flags False rs (upd_cell seg (\<lambda>m. m\<lparr>InCompaction := False\<rparr>) st)" for st
    by (simp add: set_flags_def)
  then show ?case
    using settles_step [OF _ Cons.IH [of "(upd_cell seg (\<lambda>m. m\<lparr>InCompaction := False\<rparr>) (fst stt), snd stt)"]] by simp
qed

lemma settles_retire:
  assumes "settles rt scan wr p b (Retiring [] new) (retire_inputs rs stt, s, g) out"
  shows "settles rt scan wr p (2 * length rs + b) (Retiring rs new) (stt, s, g) out"
  using assms
proof (induction rs arbitrary: stt)
  case (Cons seg rs)
  let ?stt1 = "(upd_cell seg MarkObsolete (fst stt), snd stt)"
  let ?stt2 = "tracker_MarkObsolete (ID (cells (fst stt) seg)) ?stt1"
  have "retire_inputs (seg # rs) stt = retire_inputs rs ?stt2" by (simp add: retire_inputs_def)
  with Cons have "settles rt scan wr p (2 * length rs + b) (Retiring rs new) (?stt2, s, g) out" by simp
  moreover have "ID (cells (fst ?stt1) seg) = ID (cells (fst stt) seg)" by (simp add: MarkObsolete_def)
  ultimately have "settles rt scan wr p (Suc (2 * length rs + b)) (RetiringTracked seg rs new) (?stt1, s, g) out"
    by (intro settles_step) (simp_all add: MarkObsolete_def)
  then have "settles rt scan wr p (Suc (Suc (2 * length rs + b))) (Retiring (seg # rs) new) (stt, s, g) out"
    by (rule settles_step [rotated]) simp
  then show ?case by simp
qed (simp add: retire_inputs_def)

lemma settles_scan:
  assumes "merge_inputs rt scan rs merged stt s = (merged', stt', s')"
    "settles rt scan wr p b (Writing merged') (stt', s', g) out"
  shows "settles rt scan wr p (3 * length rs + 1 + b) (Checking rs merged) (stt, s, g) out"
  using assms
proof (induction rs arbitrary: merged stt s)
  case Nil
  then show ?case by (auto intro: settles_step)
next
  case (Cons seg rs)
  let ?b = "3 * length rs + 1 + b"
  show ?case
  proof (cases "IsObsolete (cells (fst stt) seg) \<or> \<not> InCompaction (cells (fst stt) seg)")
    case True
    then have "settles rt scan wr p ?b (Checking rs merged) (stt, s, g) out"
      using Cons.prems by (intro Cons.IH) simp_all
    then have "settles rt scan wr p (Suc ?b) (Checking (seg # rs) merged) (stt, s, g) out"
      by (rule settles_step [rotated]) (use True in simp)
    then show ?thesis by (rule settles_mono) simp
  next
    case False
    obtain x s1 where sc: "scan (Some (cells (fst stt) seg)) s = (x, s1)" by fastforce
    have "settles rt scan wr p (Suc (Suc ?b)) (Scanning seg rs merged) (stt, s, g) out"
    proof (cases x)
      case (Inl e)
      have "settles rt scan wr p ?b (Checking rs merged) (stt, s1, g) out"
        using Cons.prems False sc Inl by (intro Cons.IH) simp_all
      then have "settles rt scan wr p (Suc ?b) (Scanning seg rs merged) (stt, s, g) out"
        by (rule settles_step [rotated]) (simp add: sc Inl)
      then show ?thesis by (rule settles_mono) simp
    next
      case (Inr dat)
      let ?m = "merge_data (range_slices rt dat) merged"
      let ?stt = "UpdateStats (ID (cells (fst stt) seg)) 0 1 stt"
      have "settles rt scan wr p ?b (Checking rs ?m) (?stt, s1, g) out"
        using Cons.prems False sc Inr by (intro Cons.IH) simp_all
      then have "settles rt scan wr p (Suc ?b) (Counting seg rs ?m) (stt, s1, g) out"
        by (rule settles_step [rotated]) simp
      then show ?thesis by (rule settles_step [rotated]) (simp add: sc Inr)
    qed
    then have "settles rt scan wr p (Suc (Suc (Suc ?b))) (Checking (seg # rs) merged) (stt, s, g) out"
      by (rule settles_step [rotated]) (use False in simp)
    then show ?thesis by (rule settles_mono) simp
  qed
qed

lemma settles_flag:
  assumes "settles rt scan wr p b (Checking (map the (Inputs p)) []) ((set_flags True rs (fst stt), snd stt), s, g) out"
  shows "settles rt scan wr p (length rs + 1 + b) (Flagging rs) (stt, s, g) out"
  using assms
proof (induction rs arbitrary: stt)
  case Nil
  then show ?case by (auto simp: set_flags_def intro: settles_step)
next
  case (Cons seg rs)
  have "set_flags True (seg # rs) st = set_flags True rs (upd_cell seg (\<lambda>m. m\<lparr>InCompaction := True\<rparr>) st)" for st
    by (simp add: set_flags_def)
  then have "settles rt scan wr p (length rs + 1 + b) (Flagging rs)
      ((upd_cell seg (\<lambda>m. m\<lparr>InCompaction := True\<rparr>) (fst stt), snd stt), s, g) out"
    using Cons.prems by (intro Cons.IH) simp
  then have "settles rt scan wr p (Suc (length rs + 1 + b)) (Flagging (seg # rs)) (stt, s, g) out"
    by (rule settles_step [rotated]) simp
  then show ?case by simp
qed

lemma validate_Cons:
  "validate st i (seg # rest) = (case validate st i [seg] of Some e \<Rightarrow> Some e | None \<Rightarrow> validate st (Suc i) rest)"
  by (cases seg) simp_all

lemma settles_validate:
  assumes "validate (fst stt) i rest = None \<Longrightarrow>
      settles rt scan wr p b (Flagging (map the (Inputs p))) (stt, s, g) out"
    "\<And>e. validate (fst stt) i rest = Some e \<Longrightarrow> out = Some (Returned (Inl e), stt, s, g)"
  shows "settles rt scan wr p (length rest + 1 + b) (Validating i rest) (stt, s, g) out"
  using assms
proof (induction rest arbitrary: i)
  case Nil
  then show ?case by (auto intro: settles_step)
next
  case (Cons seg rest)
  show ?case
  proof (cases "validate (fst stt) i [seg]")
    case None
    then have eq: "validate (fst stt) i (seg # rest) = validate (fst stt) (Suc i) rest"
      by (subst validate_Cons) simp
    have "settles rt scan wr p (length rest + 1 + b) (Validating (Suc i) rest) (stt, s, g) out"
      by (rule Cons.IH) (rule Cons.prems [unfolded eq], assumption)+
    then have "settles rt scan wr p (Suc (length rest + 1 + b)) (Validating i (seg # rest)) (stt, s, g) out"
      by (rule settles_step [rotated]) (use None in simp)
    then show ?thesis by simp
  next
    case (Some e)
    then have "out = Some (Returned (Inl e), stt, s, g)" by (intro Cons.prems(2)) (subst validate_Cons, simp)
    then have "settles rt scan wr p (Suc 0) (Validating i (seg # rest)) (stt, s, g) out"
      using settles_step [OF _ settles_returned, of rt scan wr p "Validating i (seg # rest)" "(stt, s, g)" "Inl e" "(stt, s, g)"]
        Some by simp
    then show ?thesis by (rule settles_mono) simp
  qed
qed

lemma settles_new:
  assumes valid: "validate (fst stt) 0 (Inputs p) = None"
    and mg: "merge_inputs rt scan (map the (Inputs p)) [] (set_flags True (map the (Inputs p)) (fst stt), snd stt) s =
      (merged, stt1, s1)"
    and new: "wr (final_entries rt merged) (OutputStrategy p) (TargetLevel p) s1 g = Some (Inr (Some m), s2, g2)"
  shows "settles rt scan wr p (3 * length (Inputs p) + 4) (Writing merged) (stt1, s1, g)
    (map_option (\<lambda>(r, sh). (Returned r, sh)) (Execute rt scan wr p stt s g))"
    (is "settles _ _ _ _ _ _ _ ?out")
proof -
  let ?rs = "map the (Inputs p)"
  obtain r st where al: "alloc m (fst stt1) = (r, st)" by fastforce
  let ?stt2 = "RegisterSegment rt r (st, snd stt1)"
  let ?stt3 = "retire_inputs ?rs ?stt2"
  have "?out = Some (Returned (Inr r), (set_flags False ?rs (fst ?stt3), snd ?stt3), s2, g2)"
    using new by (simp add: Execute_def valid mg Let_def al)
  then have "settles rt scan wr p (length ?rs + 1) (Unflagging ?rs (Inr r)) (?stt3, s2, g2) ?out"
    using settles_unflag by metis
  then have "settles rt scan wr p (Suc (length ?rs + 1)) (Retiring [] (Some r)) (?stt3, s2, g2) ?out"
    by (rule settles_step [rotated]) simp
  then have "settles rt scan wr p (2 * length ?rs + Suc (length ?rs + 1)) (Retiring ?rs (Some r)) (?stt2, s2, g2) ?out"
    by (rule settles_retire)
  then have "settles rt scan wr p (Suc (2 * length ?rs + Suc (length ?rs + 1))) (Registering m) (stt1, s2, g2) ?out"
    by (rule settles_step [rotated]) (simp add: al)
  then have "settles rt scan wr p (Suc (Suc (2 * length ?rs + Suc (length ?rs + 1)))) (Writing merged) (stt1, s1, g) ?out"
    by (rule settles_step [rotated]) (use new in simp)
  then show ?thesis by (rule settles_mono) simp
qed

lemma settles_write:
  assumes valid: "validate (fst stt) 0 (Inputs p) = None"
    and mg: "merge_inputs rt scan (map the (Inputs p)) [] (set_flags True (map the (Inputs p)) (fst stt), snd stt) s =
      (merged, stt1, s1)"
  shows "settles rt scan wr p (3 * length (Inputs p) + 4) (Writing merged) (stt1, s1, g)
    (map_option (\<lambda>(r, sh). (Returned r, sh)) (Execute rt scan wr p stt s g))"
    (is "settles _ _ _ _ _ _ _ ?out")
proof -
  let ?rs = "map the (Inputs p)"
  consider (panic) "wr (final_entries rt merged) (OutputStrategy p) (TargetLevel p) s1 g = None"
    | (err) err s2 g2 where "wr (final_entries rt merged) (OutputStrategy p) (TargetLevel p) s1 g = Some (Inl err, s2, g2)"
    | (nil) s2 g2 where "wr (final_entries rt merged) (OutputStrategy p) (TargetLevel p) s1 g = Some (Inr None, s2, g2)"
    | (new) m s2 g2 where "wr (final_entries rt merged) (OutputStrategy p) (TargetLevel p) s1 g = Some (Inr (Some m), s2, g2)"
    by (metis option.exhaust prod_cases3 sum.exhaust)
  then show ?thesis
  proof cases
    case panic
    then have "?out = None" by (simp add: Execute_def valid mg)
    then have "settles rt scan wr p (Suc 0) (Writing merged) (stt1, s1, g) ?out"
      using settles_panic [of rt scan wr p "Writing merged" "(stt1, s1, g)"] panic by simp
    then show ?thesis by (rule settles_mono) simp
  next
    case err
    have "?out = Some (Returned (Inl (OutputFailed err)), (set_flags False ?rs (fst stt1), snd stt1), s2, g2)"
      using err by (simp add: Execute_def valid mg Let_def)
    then have "settles rt scan wr p (length ?rs + 1) (Unflagging ?rs (Inl (OutputFailed err))) (stt1, s2, g2) ?out"
      using settles_unflag by metis
    then have "settles rt scan wr p (Suc (length ?rs + 1)) (Writing merged) (stt1, s1, g) ?out"
      by (rule settles_step [rotated]) (use err in simp)
    then show ?thesis by (rule settles_mono) simp
  next
    case nil
    then have "?out = None" by (simp add: Execute_def valid mg)
    then have "settles rt scan wr p (Suc 0) (Retiring [] None) (retire_inputs ?rs stt1, s2, g2) ?out"
      using settles_panic [of rt scan wr p "Retiring [] None"] by simp
    then have "settles rt scan wr p (2 * length ?rs + Suc 0) (Retiring ?rs None) (stt1, s2, g2) ?out"
      by (rule settles_retire)
    then have "settles rt scan wr p (Suc (2 * length ?rs + Suc 0)) (Writing merged) (stt1, s1, g) ?out"
      by (rule settles_step [rotated]) (use nil in simp)
    then show ?thesis by (rule settles_mono) simp
  next
    case new
    then show ?thesis by (rule settles_new [OF valid mg])
  qed
qed

lemma settles_Execute:
  "settles rt scan wr p (8 * length (Inputs p) + 7) (Validating 0 (Inputs p)) (stt, s, g)
     (map_option (\<lambda>(r, sh). (Returned r, sh)) (Execute rt scan wr p stt s g))"
proof -
  let ?rs = "map the (Inputs p)" and ?n = "length (Inputs p)"
  let ?out = "map_option (\<lambda>(r, sh). (Returned r, sh)) (Execute rt scan wr p stt s g)"
  have "settles rt scan wr p (?n + 1 + (6 * ?n + (?n + 6))) (Validating 0 (Inputs p)) (stt, s, g) ?out"
  proof (rule settles_validate)
    assume valid: "validate (fst stt) 0 (Inputs p) = None"
    obtain merged stt1 s1 where mg: "merge_inputs rt scan ?rs [] (set_flags True ?rs (fst stt), snd stt) s = (merged, stt1, s1)"
      by (metis prod.collapse)
    from settles_scan [OF mg settles_write [OF valid mg]]
    have "settles rt scan wr p (3 * length ?rs + 1 + (3 * ?n + 4)) (Checking ?rs [])
        ((set_flags True ?rs (fst stt), snd stt), s, g) ?out" .
    from settles_flag [OF this]
    show "settles rt scan wr p (6 * ?n + (?n + 6)) (Flagging ?rs) (stt, s, g) ?out"
      by (rule settles_mono) simp
  next
    fix e assume "validate (fst stt) 0 (Inputs p) = Some e"
    then show "?out = Some (Returned (Inl e), stt, s, g)" by (simp add: Execute_def)
  qed
  then show ?thesis by (rule settles_mono) simp
qed

section \<open>Properties\<close>

text \<open>Taken one access to shared state at a time, and not interrupted, an execution of a plan ends
  after a number of steps linear in its inputs, with the result, the segments, the file and the
  counters of \<open>Execute\<close>, panics included.\<close>

theorem stepwise_execution_agrees:
  assumes "8 * length (Inputs p) + 7 \<le> n"
  shows "exec_steps n rt scan wr p (Validating 0 (Inputs p)) (stt, s, g) =
    map_option (\<lambda>(r, sh). (Returned r, sh)) (Execute rt scan wr p stt s g)"
  using settles_Execute [of rt scan wr p stt s g] assms by (simp add: settles_def)

lemma stepwise_execution_agrees_witness:
  "\<exists>sh. exec_steps 23 short_runtime (reader_Scan all_done all_done) (WriteSegment sample_b all_done [3] 30) merge_plan
     (Validating 0 (Inputs merge_plan)) ((two_store 20, two_tracker), sample_file, zero_counters) =
     Some (Returned (Inr 4), sh)"
proof -
  obtain st' t' s' g' where r: "merge_result = Some (Inr 4, (st', t'), s', g')" by (rule merge_done)
  have "8 * length (Inputs merge_plan) + 7 \<le> 23" by (simp add: merge_plan_def)
  from stepwise_execution_agrees [OF this, of short_runtime "reader_Scan all_done all_done"
      "WriteSegment sample_b all_done [3] 30" "(two_store 20, two_tracker)" sample_file zero_counters] r
  show ?thesis by (auto simp: merge_result_def)
qed

end
