(* ===== verification/Concurrent_Compaction.thy ===== *)
theory Concurrent_Compaction
  imports Execution_Steps Workload_Safety
begin

text \<open>
  The goroutines of \<^verbatim>\<open>cmd/amethystd/main.go\<close> in any interleaving: executions of plans, flushes and
  lookups share the tracker, the segments and the data file, and take turns after every access to
  one of them. With one execution at a time no key is lost from sight at any moment: the inputs of
  a compaction are retired only after its output is registered. What goes wrong with two, or with a
  lookup that spans a compaction, is shown at the end.
\<close>

section \<open>Goroutines\<close>

text \<open>The flush block of the workloads, and the lookup loop over the candidates.\<close>

datatype flush_pc =
  FlushWriting "kv_entry list"
| FlushRegistering segment_meta
| Flushed

fun flush_step ::
  "runtime \<Rightarrow> 's write_op \<Rightarrow> flush_pc \<Rightarrow> 's shared \<Rightarrow> (flush_pc \<times> 's shared) option" where
  "flush_step rt wr (FlushWriting entries) (stt, s, g) =
     (case wr entries TIERED 0 s g of
        Some (Inr (Some seg), s', g') \<Rightarrow> Some (FlushRegistering seg, stt, s', g')
      | _ \<Rightarrow> None)"
| "flush_step rt wr (FlushRegistering seg) (stt, s, g) =
     (case alloc seg (fst stt) of (r, st) \<Rightarrow> Some (Flushed, RegisterSegment rt r (st, snd stt), s, g))"
| "flush_step rt wr Flushed sh = Some (Flushed, sh)"

datatype lookup_pc =
  Locating
| Probing "ref list"
| Accounting ref "ref list" slice bool
| Answered slice bool

fun lookup_step ::
  "runtime \<Rightarrow> 's get_op \<Rightarrow> gostring \<Rightarrow> lookup_pc \<Rightarrow> 's shared \<Rightarrow> (lookup_pc \<times> 's shared) option" where
  "lookup_step rt get key Locating (stt, s, g) = Some (Probing (GetSegmentsForKey rt key stt), stt, s, g)"
| "lookup_step rt get key (Probing []) sh = Some (Answered None False, sh)"
| "lookup_step rt get key (Probing (seg # segs)) (stt, s, g) =
     (case get (Some (cells (fst stt) seg)) key s g of
        None \<Rightarrow> None
      | Some ((val, ok), m', s', g') \<Rightarrow>
          Some (Accounting seg segs val ok, (store_back seg m' (fst stt), snd stt), s', g'))"
| "lookup_step rt get key (Accounting seg segs val ok) (stt, s, g) =
     Some (if ok then Answered val True else Probing segs, UpdateStats (ID (cells (fst stt) seg)) 1 0 stt, s, g)"
| "lookup_step rt get key (Answered val ok) sh = Some (Answered val ok, sh)"

datatype goroutine =
  Execution plan exec_pc
| Flush flush_pc
| Lookup gostring lookup_pc

text \<open>What one step gets from outside.\<close>

record step_env =
  se_mmap :: "(outcome \<times> outcome \<times> outcome) \<times> (outcome \<times> outcome \<times> outcome)"
  se_append :: "outcome \<times> outcome \<times> outcome"
  se_uuid :: gostring
  se_now :: int

definition env_write :: "step_env \<Rightarrow> segfile write_op" where
  "env_write env = WriteSegment bench_writer (se_append env) (se_uuid env) (se_now env)"

fun go_step ::
  "runtime \<Rightarrow> step_env \<Rightarrow> goroutine \<Rightarrow> segfile shared \<Rightarrow> (goroutine \<times> segfile shared) option" where
  "go_step rt env (Execution p pc) sh =
     map_option (map_prod (Execution p) id)
       (exec_step rt (reader_Scan (fst (se_mmap env)) (snd (se_mmap env))) (env_write env) p pc sh)"
| "go_step rt env (Flush pc) sh = map_option (map_prod Flush id) (flush_step rt (env_write env) pc sh)"
| "go_step rt env (Lookup key pc) sh =
     map_option (map_prod (Lookup key) id) (lookup_step rt (reader_Get (fst (se_mmap env))) key pc sh)"

type_synonym system = "goroutine list \<times> segfile shared"

text \<open>A schedule names the goroutine that moves and what it gets; a panic ends the program.\<close>

definition sys_move :: "runtime \<Rightarrow> nat \<Rightarrow> step_env \<Rightarrow> system \<Rightarrow> system option" where
  "sys_move rt i env c =
     (if i < length (fst c)
      then map_option (\<lambda>(p, sh). ((fst c)[i := p], sh)) (go_step rt env (fst c ! i) (snd c))
      else Some c)"

fun sys_run :: "runtime \<Rightarrow> (nat \<times> step_env) list \<Rightarrow> system \<Rightarrow> system option" where
  "sys_run rt [] c = Some c"
| "sys_run rt ((i, env) # sched) c = (case sys_move rt i env c of None \<Rightarrow> None | Some c' \<Rightarrow> sys_run rt sched c')"

section \<open>Reachable states\<close>

text \<open>Identifiers drawn are new, and file and segments within the bounds of the reader.\<close>

definition roomy :: "(store \<times> tracker) \<Rightarrow> segfile \<Rightarrow> bool" where
  "roomy stt f \<longleftrightarrow>
     distinct (map (\<lambda>r. ID (cells (fst stt) r)) (ordered (snd stt))) \<and>
     int (length (sf_bytes f)) < 2 ^ 57 \<and>
     (\<forall>r \<in> set (ordered (snd stt)). Length (cells (fst stt) r) \<le> 500 * 1024 * 1024)"

inductive conc_reach :: "runtime \<Rightarrow> system \<Rightarrow> system \<Rightarrow> bool" for rt :: runtime and c0 :: system where
  start: "conc_reach rt c0 c0"
| move: "conc_reach rt c0 c \<Longrightarrow> sys_move rt i env c = Some (ps, stt, f, g) \<Longrightarrow>
    se_mmap env = (all_done, all_done) \<Longrightarrow> roomy stt f \<Longrightarrow> conc_reach rt c0 (ps, stt, f, g)"

section \<open>What the segments hold\<close>

definition keeper ::
  "gostring set \<Rightarrow> history \<Rightarrow> (ref \<Rightarrow> kv_entry list) \<Rightarrow> store \<times> tracker \<Rightarrow> segfile \<Rightarrow> bool" where
  "keeper K h runs stt f \<longleftrightarrow> file_state bench_writer runs stt f \<and>
     (\<forall>r \<in> live_refs stt. \<forall>e \<in> set (runs r). stored_ok h e) \<and>
     (\<forall>k \<in> K. \<exists>r \<in> live_refs stt. run_map (runs r) k \<noteq> None)"

text \<open>A segment that is written but not yet registered.\<close>

definition pending :: "history \<Rightarrow> segfile \<Rightarrow> segment_meta \<Rightarrow> kv_entry list \<Rightarrow> bool" where
  "pending h f m E \<longleftrightarrow> seg_holds bench_writer (sf_bytes f) m E \<and> \<not> obsolete m \<and> (\<forall>e \<in> set E. stored_ok h e)"

lemma pending_grow:
  assumes "pending h f m E" "sf_bytes f' = sf_bytes f @ suf" "int (length (sf_bytes f')) < 2 ^ 63"
  shows "pending h f' m E"
  using assms seg_holds_append by (auto simp: pending_def)

lemma write_pending:
  assumes "WriteSegment bench_writer os uid t E strategy level f g = Some (Inr (Some m), f', g')"
    "sorted_run E" "\<forall>e \<in> set E. stored_ok h e" "int (length (sf_bytes f')) < 2 ^ 63"
  shows "pending h f' m E"
proof -
  note a = WriteSegment_adds [OF assms(1)]
  have "int (length (frames E)) < 2 ^ 63" "E \<noteq> []" using a assms(4) by auto
  from WriteSegment_ok [OF bench_writer_stride this(2) assms(2) this(1) assms(1,4)] assms(3)
  show ?thesis by (simp add: pending_def)
qed

lemma keeper_keep:
  assumes "keeper K h runs stt f" "same_segments stt stt'" "tracker_inv stt'" "file_ready f'"
    "sf_bytes f' = sf_bytes f @ suf" "int (length (sf_bytes f')) < 2 ^ 63" "live_refs stt' = live_refs stt"
  shows "keeper K h runs stt' f'"
proof -
  have "file_state bench_writer runs stt f" using assms(1) by (simp add: keeper_def)
  from file_state_keep [OF this assms(2-6)] assms(7) have "file_state bench_writer runs stt' f'" by simp
  then show ?thesis using assms(1,7) by (simp add: keeper_def)
qed

lemma keeper_ready: "keeper K h runs stt f \<Longrightarrow> tracker_inv stt \<and> file_ready f"
  by (simp add: keeper_def file_state_def)

lemma keeper_holds: "keeper K h runs stt f \<Longrightarrow> r \<in> live_refs stt \<Longrightarrow> file_holds bench_writer f (cells (fst stt) r) (runs r)"
  by (simp add: keeper_def file_state_def live_refs_def)

lemma roomy_new:
  assumes "roomy stt' f" "one_more stt m new stt'" "refs_ok stt"
  shows "\<forall>r \<in> set (ordered (snd stt)). ID (cells (fst stt) r) \<noteq> ID m" "Length m \<le> 500 * 1024 * 1024"
proof -
  have ord: "ordered (snd stt') = new # ordered (snd stt)"
    and fx: "fixed_part (cells (fst stt') new) = fixed_part m"
    "\<And>r. r \<in> set (ordered (snd stt)) \<Longrightarrow> fixed_part (cells (fst stt') r) = fixed_part (cells (fst stt) r)"
    using assms(2,3) by (auto simp: one_more_def refs_ok_def)
  have "ID (cells (fst stt') new) = ID m" "Length (cells (fst stt') new) = Length m"
    using fixed_part_fields(1,3) [OF fx(1)] by auto
  moreover have "ID (cells (fst stt') r) = ID (cells (fst stt) r)" if "r \<in> set (ordered (snd stt))" for r
    using fixed_part_fields(1) [OF fx(2) [OF that]] .
  ultimately show "\<forall>r \<in> set (ordered (snd stt)). ID (cells (fst stt) r) \<noteq> ID m" "Length m \<le> 500 * 1024 * 1024"
    using assms(1) by (auto simp: roomy_def ord image_iff)
qed

lemma keeper_register:
  assumes "keeper K h runs (st, t) f" "pending h f m E" "alloc m st = (new, st1)"
    "RegisterSegment rt new (st1, t) = (st', t')" "roomy (st', t') f"
  shows "keeper K h (runs(new := E)) (st', t') f" "live_refs (st', t') = insert new (live_refs (st, t))"
    "new \<notin> set (ordered t)" "set (ordered t') = insert new (set (ordered t))"
    "\<And>r. r \<noteq> new \<Longrightarrow> cells st' r = cells st r"
proof -
  have inv: "tracker_inv (st, t)" and ready: "file_ready f" using keeper_ready [OF assms(1)] by auto
  have "one_more (st, t) m new (st', t')" using one_more_Register [OF assms(3), of t rt] assms(4) by simp
  note uid = roomy_new [OF assms(5) this tracker_refs [OF inv]]
  obtain n where reg: "tracker_inv (st', t')" "ordered t' = new # ordered t" "new = fresh st"
    "cells st' new = m\<lparr>OverlapCount := n\<rparr>" "\<forall>r. r \<noteq> new \<longrightarrow> cells st' r = cells st r"
    using RegisterSegment_new [OF inv assms(3), of rt] uid(1) assms(4) by auto
  have old: "r \<noteq> new" if "r \<in> set (ordered t)" for r using that inv reg(3) by (auto simp: tracker_inv_def)
  have pd: "seg_holds bench_writer (sf_bytes f) m E" "\<not> obsolete m" "\<forall>e \<in> set E. stored_ok h e"
    using assms(2) by (simp_all add: pending_def)
  have "int (length (frames E)) \<le> Length m" using pd(1) by (simp add: seg_holds_def)
  then have "scannable E" by (intro scannable_stored [OF pd(3)]) (use uid(2) in simp)
  then have holds: "file_holds bench_writer f (cells st' new) E"
    using pd(1) by (simp add: file_holds_def reg(4) seg_holds_frame)
  show live: "live_refs (st', t') = insert new (live_refs (st, t))"
    using old reg(2,4,5) pd(2) by (auto simp: live_refs_def)
  have "file_state bench_writer (runs(new := E)) (st', t') f"
    using assms(1) holds reg old ready by (auto simp: keeper_def file_state_def)
  moreover have "x \<noteq> new" if "x \<in> live_refs (st, t)" for x using that old by (auto simp: live_refs_def)
  ultimately show "keeper K h (runs(new := E)) (st', t') f"
    using assms(1) pd(3) unfolding keeper_def live by fastforce
  show "new \<notin> set (ordered t)" using old by blast
  show "set (ordered t') = insert new (set (ordered t))" by (simp add: reg(2))
  show "cells st' r = cells st r" if "r \<noteq> new" for r using reg(5) that by blast
qed

section \<open>The invariant of an execution\<close>

text \<open>What the output \<open>new\<close> holds for the inputs; without an output they hold nothing.\<close>

definition heir :: "(ref \<Rightarrow> kv_entry list) \<Rightarrow> ref list \<Rightarrow> store \<times> tracker \<Rightarrow> ref option \<Rightarrow> bool" where
  "heir runs rs stt new \<longleftrightarrow> (\<forall>k. (\<exists>r \<in> set rs. run_map (runs r) k \<noteq> None) \<longrightarrow>
     (\<exists>n. new = Some n \<and> n \<in> live_refs stt \<and> n \<notin> set rs \<and> run_map (runs n) k \<noteq> None))"

definition flagged :: "store \<times> tracker \<Rightarrow> ref list \<Rightarrow> bool" where
  "flagged stt rs \<longleftrightarrow> (\<forall>r \<in> set rs. InCompaction (cells (fst stt) r))"

definition all_live :: "store \<times> tracker \<Rightarrow> ref list \<Rightarrow> bool" where
  "all_live stt rs \<longleftrightarrow> set rs \<subseteq> live_refs stt"

fun exec_ok ::
  "history \<Rightarrow> (ref \<Rightarrow> kv_entry list) \<Rightarrow> ref list \<Rightarrow> store \<times> tracker \<Rightarrow> segfile \<Rightarrow> exec_pc \<Rightarrow> bool" where
  "exec_ok h runs rs stt f (Validating i rest) \<longleftrightarrow> all_live stt rs"
| "exec_ok h runs rs stt f (Flagging rest) \<longleftrightarrow> all_live stt rs \<and> (\<exists>ds. rs = ds @ rest \<and> flagged stt ds)"
| "exec_ok h runs rs stt f (Checking rest merged) \<longleftrightarrow> all_live stt rs \<and> flagged stt rs \<and>
     (\<exists>ds. rs = ds @ rest \<and> represents merged (merged_values (map runs ds)))"
| "exec_ok h runs rs stt f (Scanning seg rest merged) \<longleftrightarrow> all_live stt rs \<and> flagged stt rs \<and>
     (\<exists>ds. rs = ds @ seg # rest \<and> represents merged (merged_values (map runs ds)))"
| "exec_ok h runs rs stt f (Counting seg rest merged) \<longleftrightarrow> all_live stt rs \<and> flagged stt rs \<and>
     (\<exists>ds. rs = ds @ seg # rest \<and> represents merged (merged_values (map runs (ds @ [seg]))))"
| "exec_ok h runs rs stt f (Writing merged) \<longleftrightarrow> all_live stt rs \<and> represents merged (merged_values (map runs rs))"
| "exec_ok h runs rs stt f (Registering m) \<longleftrightarrow> all_live stt rs \<and> (\<exists>E. pending h f m E \<and>
     (\<forall>k. run_map E k = map_option (\<lambda>v. live_entry k (Some v)) (merged_values (map runs rs) k)))"
| "exec_ok h runs rs stt f (Retiring rest new) \<longleftrightarrow> set rest \<subseteq> set rs \<and> heir runs rs stt new"
| "exec_ok h runs rs stt f (RetiringTracked seg rest new) \<longleftrightarrow>
     seg \<in> set rs \<and> set rest \<subseteq> set rs \<and> obsolete (cells (fst stt) seg) \<and> heir runs rs stt new"
| "exec_ok h runs rs stt f (Unflagging rest r) \<longleftrightarrow> True"
| "exec_ok h runs rs stt f (Returned r) \<longleftrightarrow> True"

text \<open>The same for a change that leaves the segments' state alone and only adds to tracker and file.\<close>

definition adds ::
  "(ref \<Rightarrow> kv_entry list) \<Rightarrow> store \<times> tracker \<Rightarrow> segfile \<Rightarrow> (ref \<Rightarrow> kv_entry list) \<Rightarrow> store \<times> tracker \<Rightarrow> segfile \<Rightarrow> bool" where
  "adds runs stt f runs' stt' f' \<longleftrightarrow> (\<exists>suf. sf_bytes f' = sf_bytes f @ suf) \<and>
     set (ordered (snd stt)) \<subseteq> set (ordered (snd stt')) \<and>
     (\<forall>r \<in> set (ordered (snd stt)). runs' r = runs r \<and>
        obsolete (cells (fst stt') r) = obsolete (cells (fst stt) r) \<and>
        InCompaction (cells (fst stt') r) = InCompaction (cells (fst stt) r))"

lemma exec_ok_adds:
  assumes "exec_ok h runs rs stt f pc" "adds runs stt f runs' stt' f'" "set rs \<subseteq> set (ordered (snd stt))"
    "int (length (sf_bytes f')) < 2 ^ 63"
  shows "exec_ok h runs' rs stt' f' pc"
proof -
  have same: "runs' r = runs r" "obsolete (cells (fst stt') r) = obsolete (cells (fst stt) r)"
    "InCompaction (cells (fst stt') r) = InCompaction (cells (fst stt) r)" if "r \<in> set rs" for r
    using that assms(2,3) by (auto simp: adds_def)
  have live: "all_live stt rs \<Longrightarrow> all_live stt' rs"
    using same assms(2) by (auto simp: all_live_def live_refs_def adds_def)
  have flag: "flagged stt xs \<Longrightarrow> flagged stt' xs" if "set xs \<subseteq> set rs" for xs
    using same that by (auto simp: flagged_def)
  have map: "merged_values (map runs' xs) = merged_values (map runs xs)" if "set xs \<subseteq> set rs" for xs
    using that same(1) by (intro arg_cong [of _ _ merged_values] map_cong) auto
  have pend: "pending h f m E \<Longrightarrow> pending h f' m E" for m E
    using assms(2,4) pending_grow by (auto simp: adds_def)
  have heir: "heir runs' rs stt' new" if "heir runs rs stt new" for new
  proof -
    have "n \<in> live_refs stt \<Longrightarrow> n \<in> live_refs stt' \<and> runs' n = runs n" for n
      using assms(2) by (auto simp: adds_def live_refs_def)
    then show ?thesis using that same(1) unfolding heir_def by metis
  qed
  show ?thesis
  proof (cases pc)
    case (Flagging rest)
    then show ?thesis using assms(1) live flag by fastforce
  next
    case (Checking rest merged)
    then obtain ds where "rs = ds @ rest" "represents merged (merged_values (map runs ds))" "all_live stt rs" "flagged stt rs"
      using assms(1) by auto
    moreover from this have "merged_values (map runs' ds) = merged_values (map runs ds)" by (intro map) auto
    ultimately show ?thesis using Checking live flag [of rs] by auto
  next
    case (Scanning seg rest merged)
    then obtain ds where "rs = ds @ seg # rest" "represents merged (merged_values (map runs ds))" "all_live stt rs" "flagged stt rs"
      using assms(1) by auto
    moreover from this have "merged_values (map runs' ds) = merged_values (map runs ds)" by (intro map) auto
    ultimately show ?thesis using Scanning live flag [of rs] by auto
  next
    case (Counting seg rest merged)
    then obtain ds where "rs = ds @ seg # rest" "represents merged (merged_values (map runs (ds @ [seg])))"
      "all_live stt rs" "flagged stt rs" using assms(1) by auto
    moreover from this have "merged_values (map runs' (ds @ [seg])) = merged_values (map runs (ds @ [seg]))"
      by (intro map) auto
    ultimately show ?thesis using Counting live flag [of rs] by auto
  next
    case (RetiringTracked seg rest new)
    then show ?thesis using assms(1) heir same(2) by auto
  qed (use assms(1) live map [of rs] pend heir in auto)
qed

section \<open>Steps keep the invariant\<close>

lemma roomy_fits: "roomy stt f \<Longrightarrow> int (length (sf_bytes f)) < 2 ^ 63"
  by (simp add: roomy_def)

lemma keeper_upd:
  assumes "keeper K h runs (st, t) f" "roomy (upd_cell r u st, t) f"
    "\<And>m. fixed_part (u m) = fixed_part m" "\<And>m. obsolete (u m) = obsolete m" "\<And>m. ID (u m) = ID m"
  shows "keeper K h runs (upd_cell r u st, t) f" "live_refs (upd_cell r u st, t) = live_refs (st, t)"
proof -
  show live: "live_refs (upd_cell r u st, t) = live_refs (st, t)" by (auto simp: live_refs_def assms(4))
  have inv: "tracker_inv (st, t)" "file_ready f" using keeper_ready [OF assms(1)] by auto
  show "keeper K h runs (upd_cell r u st, t) f"
    by (rule keeper_keep [OF assms(1) same_segments_upd [OF assms(3)] tracker_inv_upd_cell [OF inv(1) assms(5)] inv(2) _
          roomy_fits [OF assms(2)] live]) simp
qed

lemma keeper_stats:
  assumes "keeper K h runs stt f" "stats_step stt stt'" "same_file f f'" "roomy stt' f'"
  shows "keeper K h runs stt' f'" "live_refs stt' = live_refs stt"
proof -
  have "obsolete (cells (fst stt') r) = obsolete (cells (fst stt) r)" for r
    by (rule stats_only_same(1)) (use assms(2) in \<open>simp add: stats_step_def\<close>)
  then show live: "live_refs stt' = live_refs stt" using assms(2) by (simp add: live_refs_def stats_step_def)
  have inv: "tracker_inv stt" "file_ready f" using keeper_ready [OF assms(1)] by auto
  show "keeper K h runs stt' f'"
  proof (rule keeper_keep [OF assms(1) same_segments_stats [OF assms(2)] _ _ _ roomy_fits [OF assms(4)] live])
    show "tracker_inv stt'"
      by (rule tracker_inv_same [OF inv(1) same_segments_stats [OF assms(2)]]) (use assms(2) in \<open>simp add: stats_step_def\<close>)
    show "file_ready f'" "sf_bytes f' = sf_bytes f @ []" using assms(3) inv(2) by (simp_all add: same_file_def file_ready_def)
  qed
qed

lemma keeper_file:
  assumes "keeper K h runs stt f" "f' = f\<lparr>sf_bytes := sf_bytes f @ suf\<rparr>" "roomy stt f'"
  shows "keeper K h runs stt f'"
proof -
  have inv: "tracker_inv stt" "file_ready f" using keeper_ready [OF assms(1)] by auto
  then have "file_ready f'" by (simp add: assms(2) file_ready_def sf_inv_grow)
  then show ?thesis
    by (rule keeper_keep [OF assms(1) same_segments_refl inv(1) _ _ roomy_fits [OF assms(3)] refl]) (simp add: assms(2))
qed

text \<open>Marking an input: its heir stays.\<close>

lemma keeper_retire:
  assumes "keeper K h runs (st, t) f" "heir runs rs (st, t) new" "seg \<in> set rs"
    "roomy (upd_cell seg MarkObsolete st, t) f"
  shows "keeper K h runs (upd_cell seg MarkObsolete st, t) f" "heir runs rs (upd_cell seg MarkObsolete st, t) new"
proof -
  let ?st = "upd_cell seg MarkObsolete st"
  have inv: "tracker_inv (st, t)" "file_ready f" using keeper_ready [OF assms(1)] by auto
  have live: "live_refs (?st, t) = live_refs (st, t) - {seg}" by (auto simp: live_refs_def MarkObsolete_def)
  show "heir runs rs (?st, t) new" using assms(2,3) unfolding heir_def live by blast
  have "tracker_inv (?st, t)" by (rule tracker_inv_upd_cell [OF inv(1)]) (simp add: MarkObsolete_def)
  have "file_state bench_writer runs (st, t) f" using assms(1) by (simp add: keeper_def)
  from file_state_keep [OF this same_segments_upd \<open>tracker_inv (?st, t)\<close> inv(2) _ roomy_fits [OF assms(4)]] live
  have "file_state bench_writer runs (?st, t) f" by simp
  moreover have "\<exists>x \<in> live_refs (?st, t). run_map (runs x) k \<noteq> None" if k: "k \<in> K" for k
  proof -
    obtain x where x: "x \<in> live_refs (st, t)" "run_map (runs x) k \<noteq> None"
      using assms(1) k unfolding keeper_def by blast
    show ?thesis
    proof (cases "x = seg")
      case True
      then have "\<exists>r \<in> set rs. run_map (runs r) k \<noteq> None" using assms(3) x(2) by blast
      with assms(2) obtain n where n: "n \<in> live_refs (st, t)" "n \<notin> set rs" "run_map (runs n) k \<noteq> None"
        unfolding heir_def by metis
      then have "n \<noteq> seg" using assms(3) by metis
      then show ?thesis using n live by (intro bexI [of _ n]) simp_all
    qed (use x live in blast)
  qed
  ultimately show "keeper K h runs (?st, t) f" using assms(1) live by (auto simp: keeper_def)
qed

text \<open>The second mark is for a segment that has the first.\<close>

lemma mark_again:
  assumes "tracker_inv (st, t)" "seg \<in> set (ordered t)" "obsolete (cells st seg)"
  shows "tracker_MarkObsolete (ID (cells st seg)) (st, t) = (st, t)"
proof -
  have "map_of (segments t) (ID (cells st seg)) = Some seg" using tracker_inv_lookup [OF assms(1)] assms(2) by simp
  moreover have "(cells st seg)\<lparr>obsolete := True\<rparr> = cells st seg" using assms(3) by (cases "cells st seg") simp
  then have "upd_cell seg MarkObsolete st = st" by (simp add: upd_cell_def MarkObsolete_def)
  ultimately show ?thesis by (simp add: tracker_MarkObsolete_def)
qed

text \<open>What the writer is given for the inputs, and what it leaves.\<close>

lemma merged_entries:
  assumes "go_runtime rt" "keeper K h runs stt f" "all_live stt rs" "represents merged (merged_values (map runs rs))"
  shows "sorted_run (final_entries rt merged)" "\<forall>e \<in> set (final_entries rt merged). stored_ok h e"
    "run_map (final_entries rt merged) k = map_option (\<lambda>v. live_entry k (Some v)) (merged_values (map runs rs) k)"
    "final_entries rt merged = [] \<Longrightarrow> heir runs rs stt None"
proof -
  note fe = compaction_io.final_entries_run [OF file_compaction_io [OF assms(1)] assms(4)]
  show run: "sorted_run (final_entries rt merged)" by (rule fe(1))
  show rm: "run_map (final_entries rt merged) k = map_option (\<lambda>v. live_entry k (Some v)) (merged_values (map runs rs) k)"
    for k by (rule fe(2))
  have src: "\<forall>es \<in> set (map runs rs). \<forall>e \<in> set es. stored_ok h e"
    using assms(2,3) by (auto simp: keeper_def all_live_def)
  note ms = merged_stored [OF src run, of]
  show "\<forall>e \<in> set (final_entries rt merged). stored_ok h e" by (rule ms(1)) (simp add: rm)
  show "heir runs rs stt None" if "final_entries rt merged = []"
  proof -
    have "run_map (runs r) k = None" if "r \<in> set rs" for r k
      using ms(2) [of "runs r" k] that \<open>final_entries rt merged = []\<close> rm by fastforce
    then show ?thesis by (simp add: heir_def)
  qed
qed

lemma heir_new:
  assumes "keeper K h runs stt f" "all_live stt rs" "sorted_run E"
    "\<forall>k. run_map E k = map_option (\<lambda>v. live_entry k (Some v)) (merged_values (map runs rs) k)"
    "new \<in> live_refs stt'" "new \<notin> set rs"
  shows "heir (runs(new := E)) rs stt' (Some new)"
proof -
  have src: "\<forall>es \<in> set (map runs rs). \<forall>e \<in> set es. stored_ok h e"
    using assms(1,2) by (auto simp: keeper_def all_live_def)
  have "run_map E k \<noteq> None" if "r \<in> set rs" "run_map (runs r) k \<noteq> None" for r k
    by (rule merged_stored(2) [OF src assms(3,4) _ that(2)]) (simp add: that(1))
  then show ?thesis using assms(5,6) by (auto simp: heir_def)
qed

text \<open>One step of an execution, with all that is known before it, and what is to be shown after it.\<close>

definition exec_move ::
  "runtime \<Rightarrow> plan \<Rightarrow> gostring set \<Rightarrow> history \<Rightarrow> (ref \<Rightarrow> kv_entry list) \<Rightarrow> ref list \<Rightarrow> exec_pc \<Rightarrow>
   store \<times> tracker \<Rightarrow> segfile \<Rightarrow> exec_pc \<Rightarrow> store \<times> tracker \<Rightarrow> segfile \<Rightarrow> bool" where
  "exec_move rt p K h runs rs pc stt f pc' stt' f' \<longleftrightarrow>
     go_runtime rt \<and> keeper K h runs stt f \<and> Inputs p = map Some rs \<and> set rs \<subseteq> set (ordered (snd stt)) \<and>
     exec_ok h runs rs stt f pc \<and> roomy stt' f' \<and>
     (\<exists>os uid tm g g'. exec_step rt (reader_Scan all_done all_done) (WriteSegment bench_writer os uid tm) p pc (stt, f, g) =
        Some (pc', stt', f', g'))"

definition advances ::
  "gostring set \<Rightarrow> history \<Rightarrow> (ref \<Rightarrow> kv_entry list) \<Rightarrow> ref list \<Rightarrow>
   store \<times> tracker \<Rightarrow> segfile \<Rightarrow> exec_pc \<Rightarrow> store \<times> tracker \<Rightarrow> segfile \<Rightarrow> bool" where
  "advances K h runs rs stt f pc' stt' f' \<longleftrightarrow>
     (\<exists>runs'. keeper K h runs' stt' f' \<and> exec_ok h runs' rs stt' f' pc') \<and>
     (\<exists>suf. sf_bytes f' = sf_bytes f @ suf) \<and> set (ordered (snd stt)) \<subseteq> set (ordered (snd stt'))"

lemma exec_moveE:
  assumes "exec_move rt p K h runs rs pc stt f pc' stt' f'"
  obtains s t os uid tm g g' where "stt = (s, t)" "go_runtime rt" "keeper K h runs stt f" "map the (Inputs p) = rs"
    "set rs \<subseteq> set (ordered t)" "exec_ok h runs rs stt f pc"
    "exec_step rt (reader_Scan all_done all_done) (WriteSegment bench_writer os uid tm) p pc (stt, f, g) =
      Some (pc', stt', f', g')" "roomy stt' f'" "tracker_inv (s, t)" "file_ready f"
proof -
  obtain s t where stt: "stt = (s, t)" by fastforce
  have "map the (Inputs p) = rs" using assms by (simp add: exec_move_def comp_def)
  moreover have "tracker_inv (s, t)" "file_ready f" using assms keeper_ready by (auto simp: exec_move_def stt)
  ultimately show thesis using assms that [of s t] unfolding exec_move_def stt snd_conv by blast
qed

lemma advances_keep:
  "keeper K h runs stt' f' \<Longrightarrow> exec_ok h runs rs stt' f' pc' \<Longrightarrow> sf_bytes f' = sf_bytes f @ suf \<Longrightarrow>
   ordered (snd stt') = ordered (snd stt) \<Longrightarrow> advances K h runs rs stt f pc' stt' f'"
  by (auto simp: advances_def)

lemma advances_same:
  "keeper K h runs stt f \<Longrightarrow> exec_ok h runs rs stt f pc' \<Longrightarrow> stt' = stt \<Longrightarrow> f' = f \<Longrightarrow>
   advances K h runs rs stt f pc' stt' f'"
  by (rule advances_keep [where suf = "[]"]) simp_all

lemma validating_step:
  assumes "exec_move rt p K h runs rs (Validating i rest) stt f pc' stt' f'"
  shows "advances K h runs rs stt f pc' stt' f'"
proof -
  obtain s t os uid tm g g' where stt: "stt = (s, t)" and rt: "go_runtime rt" and kp: "keeper K h runs stt f"
    and rs: "map the (Inputs p) = rs" and sub: "set rs \<subseteq> set (ordered t)" and ok: "exec_ok h runs rs stt f (Validating i rest)"
    and st: "exec_step rt (reader_Scan all_done all_done) (WriteSegment bench_writer os uid tm) p (Validating i rest) (stt, f, g) =
      Some (pc', stt', f', g')" and room: "roomy stt' f'" and inv: "tracker_inv (s, t)" "file_ready f"
    by (rule exec_moveE [OF assms])
  note same = advances_same [OF kp] and keep = advances_keep
  show ?thesis
    by (rule same) (use st ok in \<open>cases rest; auto simp: rs flagged_def split: option.splits\<close>)+
qed

lemma flagging_step:
  assumes "exec_move rt p K h runs rs (Flagging rest) stt f pc' stt' f'"
  shows "advances K h runs rs stt f pc' stt' f'"
proof -
  obtain s t os uid tm g g' where stt: "stt = (s, t)" and rt: "go_runtime rt" and kp: "keeper K h runs stt f"
    and rs: "map the (Inputs p) = rs" and sub: "set rs \<subseteq> set (ordered t)" and ok: "exec_ok h runs rs stt f (Flagging rest)"
    and st: "exec_step rt (reader_Scan all_done all_done) (WriteSegment bench_writer os uid tm) p (Flagging rest) (stt, f, g) =
      Some (pc', stt', f', g')" and room: "roomy stt' f'" and inv: "tracker_inv (s, t)" "file_ready f"
    by (rule exec_moveE [OF assms])
  note same = advances_same [OF kp] and keep = advances_keep
  show ?thesis
  proof (cases rest)
    case Nil
    show ?thesis
      by (rule same) (use st ok in \<open>auto simp: Nil rs represents_def merged_values_def\<close>)
  next
    case (Cons seg rest')
    let ?u = "\<lambda>m. m\<lparr>InCompaction := True\<rparr>"
    have out: "stt' = (upd_cell seg ?u s, t)" "f' = f" "pc' = Flagging rest'"
      using st by (auto simp: Cons stt)
    obtain ds where ds: "rs = (ds @ [seg]) @ rest'" "flagged stt ds" "all_live stt rs"
      using ok by (auto simp: Cons)
    note k = keeper_upd [OF kp [unfolded stt] room [unfolded out(1,2)]]
    have kp': "keeper K h runs stt' f'" "live_refs stt' = live_refs stt"
      using k by (simp_all add: out stt)
    have "flagged stt' (ds @ [seg])" using ds(2) by (auto simp: out stt flagged_def)
    with kp' ds(1,3) have "exec_ok h runs rs stt' f' pc'" by (auto simp: out(3) all_live_def)
    with kp'(1) show ?thesis by (rule keep [where suf = "[]"]) (simp_all add: out stt)
  qed
qed

lemma checking_step:
  assumes "exec_move rt p K h runs rs (Checking rest merged) stt f pc' stt' f'"
  shows "advances K h runs rs stt f pc' stt' f'"
proof -
  obtain s t os uid tm g g' where stt: "stt = (s, t)" and rt: "go_runtime rt" and kp: "keeper K h runs stt f"
    and rs: "map the (Inputs p) = rs" and sub: "set rs \<subseteq> set (ordered t)" and ok: "exec_ok h runs rs stt f (Checking rest merged)"
    and st: "exec_step rt (reader_Scan all_done all_done) (WriteSegment bench_writer os uid tm) p (Checking rest merged) (stt, f, g) =
      Some (pc', stt', f', g')" and room: "roomy stt' f'" and inv: "tracker_inv (s, t)" "file_ready f"
    by (rule exec_moveE [OF assms])
  note same = advances_same [OF kp] and keep = advances_keep
  show ?thesis
  proof (cases rest)
    case Nil
    show ?thesis by (rule same) (use st ok in \<open>auto simp: Nil\<close>)
  next
    case (Cons seg rest')
    have "seg \<in> set rs" using ok by (auto simp: Cons)
    then have "\<not> IsObsolete (cells s seg)" "InCompaction (cells s seg)"
      using ok by (auto simp: Cons stt all_live_def live_refs_def flagged_def IsObsolete_def)
    then show ?thesis by (intro same) (use st ok in \<open>auto simp: Cons stt\<close>)
  qed
qed

lemma scanning_step:
  assumes "exec_move rt p K h runs rs (Scanning seg rest merged) stt f pc' stt' f'"
  shows "advances K h runs rs stt f pc' stt' f'"
proof -
  obtain s t os uid tm g g' where stt: "stt = (s, t)" and rt: "go_runtime rt" and kp: "keeper K h runs stt f"
    and rs: "map the (Inputs p) = rs" and sub: "set rs \<subseteq> set (ordered t)" and ok: "exec_ok h runs rs stt f (Scanning seg rest merged)"
    and st: "exec_step rt (reader_Scan all_done all_done) (WriteSegment bench_writer os uid tm) p (Scanning seg rest merged) (stt, f, g) =
      Some (pc', stt', f', g')" and room: "roomy stt' f'" and inv: "tracker_inv (s, t)" "file_ready f"
    by (rule exec_moveE [OF assms])
  note same = advances_same [OF kp] and keep = advances_keep
  obtain ds where ds: "rs = ds @ seg # rest" "represents merged (merged_values (map runs ds))" "all_live stt rs"
    "flagged stt rs" using ok by auto
  then have live: "seg \<in> live_refs stt" by (auto simp: all_live_def)
  then have "\<not> obsolete (cells s seg)" by (simp add: live_refs_def stt)
  then obtain d f1 where d: "reader_Scan all_done all_done (Some (cells s seg)) f = (Inr d, f1)"
    "map_of d = scan_view (runs seg)" "distinct (map fst d)"
    using sst.scan_ok [OF inv(2) keeper_holds [OF kp live]] by (auto simp: stt)
  have sf: "same_file f f1" using reader_Scan_file [OF _ d(1)] inv(2) by (simp add: file_ready_def)
  let ?m = "merge_data (range_slices rt d) merged"
  have out: "pc' = Counting seg rest ?m" "stt' = stt" "f' = f1" using st by (auto simp: stt d(1))
  have "represents ?m (merged_values (map runs ds) ++ live_value (runs seg))"
    by (rule represents_merge [OF ds(2)])
      (simp_all add: go_runtime.map_of_range_slices [OF rt] go_runtime.distinct_range_slices [OF rt] d(2,3))
  then have "exec_ok h runs rs stt' f' pc'"
    using ds(1,3,4) by (auto simp: out merged_values_simps)
  moreover have "keeper K h runs stt' f'"
    using keeper_stats(1) [OF kp stats_step_refl sf] room by (simp add: out)
  ultimately show ?thesis
    by (intro keep [where suf = "[]"]) (use sf in \<open>simp_all add: out same_file_def\<close>)
qed

lemma counting_step:
  assumes "exec_move rt p K h runs rs (Counting seg rest merged) stt f pc' stt' f'"
  shows "advances K h runs rs stt f pc' stt' f'"
proof -
  obtain s t os uid tm g g' where stt: "stt = (s, t)" and rt: "go_runtime rt" and kp: "keeper K h runs stt f"
    and rs: "map the (Inputs p) = rs" and sub: "set rs \<subseteq> set (ordered t)" and ok: "exec_ok h runs rs stt f (Counting seg rest merged)"
    and st: "exec_step rt (reader_Scan all_done all_done) (WriteSegment bench_writer os uid tm) p (Counting seg rest merged) (stt, f, g) =
      Some (pc', stt', f', g')" and room: "roomy stt' f'" and inv: "tracker_inv (s, t)" "file_ready f"
    by (rule exec_moveE [OF assms])
  note same = advances_same [OF kp] and keep = advances_keep
  obtain ds where ds: "rs = (ds @ [seg]) @ rest" "represents merged (merged_values (map runs (ds @ [seg])))"
    "all_live stt rs" "flagged stt rs" using ok by auto
  have out: "pc' = Checking rest merged" "stt' = UpdateStats (ID (cells s seg)) 0 1 stt" "f' = f"
    using st by (auto simp: stt)
  have step: "stats_step stt stt'" unfolding out(2) by (rule stats_step_UpdateStats)
  have fl: "flagged stt' rs"
    using ds(4) stats_only_same(7) step unfolding flagged_def stats_step_def by metis
  have sf: "same_file f f'" using inv(2) by (simp add: out(3) same_file_refl file_ready_def)
  note k = keeper_stats [OF kp step sf room]
  have "exec_ok h runs rs stt' f' pc'" using ds fl k(2) by (auto simp: out(1) all_live_def)
  with k(1) show ?thesis
    by (rule keep [where suf = "[]"]) (use step in \<open>simp_all add: out(3) stats_step_def\<close>)
qed

lemma writing_step:
  assumes "exec_move rt p K h runs rs (Writing merged) stt f pc' stt' f'"
  shows "advances K h runs rs stt f pc' stt' f'"
proof -
  obtain s t os uid tm g g' where stt: "stt = (s, t)" and rt: "go_runtime rt" and kp: "keeper K h runs stt f"
    and rs: "map the (Inputs p) = rs" and sub: "set rs \<subseteq> set (ordered t)" and ok: "exec_ok h runs rs stt f (Writing merged)"
    and st: "exec_step rt (reader_Scan all_done all_done) (WriteSegment bench_writer os uid tm) p (Writing merged) (stt, f, g) =
      Some (pc', stt', f', g')" and room: "roomy stt' f'" and inv: "tracker_inv (s, t)" "file_ready f"
    by (rule exec_moveE [OF assms])
  note same = advances_same [OF kp] and keep = advances_keep
  have lv: "all_live stt rs" and rep: "represents merged (merged_values (map runs rs))" using ok by auto
  let ?E = "final_entries rt merged"
  note run = merged_entries [OF rt kp lv rep]
  obtain x f1 g1 where w: "WriteSegment bench_writer os uid tm ?E (OutputStrategy p) (TargetLevel p) f g = Some (x, f1, g1)"
    using st by (auto simp: split: option.splits)
  have out: "stt' = stt" "f' = f1" and pc': "pc' = (case x of Inl e \<Rightarrow> Unflagging rs (Inl (OutputFailed e))
      | Inr None \<Rightarrow> Retiring rs None | Inr (Some m) \<Rightarrow> Registering m)"
    using st by (auto simp: w rs split: sum.splits option.splits)
  obtain suf where suf: "f1 = f\<lparr>sf_bytes := sf_bytes f @ suf\<rparr>" using write_appends [OF w] by blast
  have kp': "keeper K h runs stt' f'" using keeper_file [OF kp suf] room by (simp add: out)
  have "exec_ok h runs rs stt' f' pc'"
  proof (cases "\<exists>m. x = Inr (Some m)")
    case True
    then obtain m where m: "x = Inr (Some m)" by blast
    have "pending h f1 m ?E"
      by (rule write_pending [OF w [unfolded m] run(1,2)]) (use roomy_fits [OF room] out in simp)
    then show ?thesis using lv run(3) by (auto simp: pc' m out)
  next
    case False
    have "?E = []" if "x = Inr None" using w that by (auto simp: WriteSegment_def Let_def split: if_splits option.splits prod.splits sum.splits)
    then show ?thesis using False run(4) by (auto simp: pc' out split: sum.splits option.splits)
  qed
  with kp' show ?thesis by (rule keep [where suf = suf]) (simp_all add: out suf)
qed

lemma registering_step:
  assumes "exec_move rt p K h runs rs (Registering m) stt f pc' stt' f'"
  shows "advances K h runs rs stt f pc' stt' f'"
proof -
  obtain s t os uid tm g g' where stt: "stt = (s, t)" and rt: "go_runtime rt" and kp: "keeper K h runs stt f"
    and rs: "map the (Inputs p) = rs" and sub: "set rs \<subseteq> set (ordered t)" and ok: "exec_ok h runs rs stt f (Registering m)"
    and st: "exec_step rt (reader_Scan all_done all_done) (WriteSegment bench_writer os uid tm) p (Registering m) (stt, f, g) =
      Some (pc', stt', f', g')" and room: "roomy stt' f'" and inv: "tracker_inv (s, t)" "file_ready f"
    by (rule exec_moveE [OF assms])
  note same = advances_same [OF kp] and keep = advances_keep
  obtain E where E: "pending h f m E" and lv: "all_live stt rs"
    and rm: "\<forall>k. run_map E k = map_option (\<lambda>v. live_entry k (Some v)) (merged_values (map runs rs) k)"
    using ok by auto
  obtain new s1 where al: "alloc m s = (new, s1)" by fastforce
  obtain s2 t2 where reg: "RegisterSegment rt new (s1, t) = (s2, t2)" by fastforce
  have out: "pc' = Retiring rs (Some new)" "stt' = (s2, t2)" "f' = f" using st by (auto simp: stt al reg rs)
  note k = keeper_register [OF kp [unfolded stt] E al reg room [unfolded out(2,3)]]
  have "new \<notin> set rs" using k(3) sub by (auto simp: stt)
  moreover have "sorted_run E" using E by (simp add: pending_def seg_holds_def)
  ultimately have "heir (runs(new := E)) rs stt' (Some new)"
    using heir_new [OF kp lv _ rm] k(2) by (simp add: out(2))
  then show ?thesis unfolding advances_def out stt using k(1,4) by (auto simp: out)
qed

lemma retiring_step:
  assumes "exec_move rt p K h runs rs (Retiring rest new) stt f pc' stt' f'"
  shows "advances K h runs rs stt f pc' stt' f'"
proof -
  obtain s t os uid tm g g' where stt: "stt = (s, t)" and rt: "go_runtime rt" and kp: "keeper K h runs stt f"
    and rs: "map the (Inputs p) = rs" and sub: "set rs \<subseteq> set (ordered t)" and ok: "exec_ok h runs rs stt f (Retiring rest new)"
    and st: "exec_step rt (reader_Scan all_done all_done) (WriteSegment bench_writer os uid tm) p (Retiring rest new) (stt, f, g) =
      Some (pc', stt', f', g')" and room: "roomy stt' f'" and inv: "tracker_inv (s, t)" "file_ready f"
    by (rule exec_moveE [OF assms])
  note same = advances_same [OF kp] and keep = advances_keep
  have hr: "set rest \<subseteq> set rs" "heir runs rs stt new" using ok by auto
  show ?thesis
  proof (cases rest)
    case Nil
    then show ?thesis by (intro same) (use st in \<open>cases new; auto\<close>)+
  next
    case (Cons seg rest')
    have out: "pc' = RetiringTracked seg rest' new" "stt' = (upd_cell seg MarkObsolete s, t)" "f' = f"
      using st by (auto simp: Cons stt)
    have "seg \<in> set rs" using hr(1) Cons by simp
    note k = keeper_retire [OF kp [unfolded stt] hr(2) [unfolded stt] this room [unfolded out(2,3)]]
    have "exec_ok h runs rs stt' f' pc'" using k(2) hr(1) Cons by (auto simp: out MarkObsolete_def)
    with k(1) show ?thesis by (intro keep [where suf = "[]"]) (simp_all add: out stt)
  qed
qed

lemma retiringtracked_step:
  assumes "exec_move rt p K h runs rs (RetiringTracked seg rest new) stt f pc' stt' f'"
  shows "advances K h runs rs stt f pc' stt' f'"
proof -
  obtain s t os uid tm g g' where stt: "stt = (s, t)" and rt: "go_runtime rt" and kp: "keeper K h runs stt f"
    and rs: "map the (Inputs p) = rs" and sub: "set rs \<subseteq> set (ordered t)" and ok: "exec_ok h runs rs stt f (RetiringTracked seg rest new)"
    and st: "exec_step rt (reader_Scan all_done all_done) (WriteSegment bench_writer os uid tm) p (RetiringTracked seg rest new) (stt, f, g) =
      Some (pc', stt', f', g')" and room: "roomy stt' f'" and inv: "tracker_inv (s, t)" "file_ready f"
    by (rule exec_moveE [OF assms])
  note same = advances_same [OF kp] and keep = advances_keep
  have "seg \<in> set (ordered t)" "obsolete (cells s seg)" using ok sub by (auto simp: stt)
  from mark_again [OF inv(1) this] have "stt' = stt" "f' = f" "pc' = Retiring rest new"
    using st by (auto simp: stt)
  then show ?thesis by (intro same) (use ok in \<open>auto\<close>)
qed

lemma unflagging_step:
  assumes "exec_move rt p K h runs rs (Unflagging rest r) stt f pc' stt' f'"
  shows "advances K h runs rs stt f pc' stt' f'"
proof -
  obtain s t os uid tm g g' where stt: "stt = (s, t)" and rt: "go_runtime rt" and kp: "keeper K h runs stt f"
    and rs: "map the (Inputs p) = rs" and sub: "set rs \<subseteq> set (ordered t)" and ok: "exec_ok h runs rs stt f (Unflagging rest r)"
    and st: "exec_step rt (reader_Scan all_done all_done) (WriteSegment bench_writer os uid tm) p (Unflagging rest r) (stt, f, g) =
      Some (pc', stt', f', g')" and room: "roomy stt' f'" and inv: "tracker_inv (s, t)" "file_ready f"
    by (rule exec_moveE [OF assms])
  note same = advances_same [OF kp] and keep = advances_keep
  show ?thesis
  proof (cases rest)
    case Nil
    then show ?thesis by (intro same) (use st in \<open>auto\<close>)
  next
    case (Cons seg rest')
    let ?u = "\<lambda>m. m\<lparr>InCompaction := False\<rparr>"
    have out: "stt' = (upd_cell seg ?u s, t)" "f' = f" "pc' = Unflagging rest' r"
      using st by (auto simp: Cons stt)
    have "keeper K h runs stt' f'"
      using keeper_upd(1) [OF kp [unfolded stt] room [unfolded out(1,2)]] by (simp add: out)
    then show ?thesis by (rule keep [where suf = "[]"]) (simp_all add: out stt)
  qed
qed

lemma returned_step:
  assumes "exec_move rt p K h runs rs (Returned r) stt f pc' stt' f'"
  shows "advances K h runs rs stt f pc' stt' f'"
proof -
  obtain s t os uid tm g g' where stt: "stt = (s, t)" and rt: "go_runtime rt" and kp: "keeper K h runs stt f"
    and rs: "map the (Inputs p) = rs" and sub: "set rs \<subseteq> set (ordered t)" and ok: "exec_ok h runs rs stt f (Returned r)"
    and st: "exec_step rt (reader_Scan all_done all_done) (WriteSegment bench_writer os uid tm) p (Returned r) (stt, f, g) =
      Some (pc', stt', f', g')" and room: "roomy stt' f'" and inv: "tracker_inv (s, t)" "file_ready f"
    by (rule exec_moveE [OF assms])
  note same = advances_same [OF kp] and keep = advances_keep
  then show ?thesis by (intro same) (use st in \<open>auto\<close>)
qed

lemma execution_step:
  assumes "exec_move rt p K h runs rs pc stt f pc' stt' f'"
  shows "advances K h runs rs stt f pc' stt' f'"
  using assms
  by (cases pc) (blast intro: validating_step flagging_step checking_step scanning_step counting_step writing_step
      registering_step retiring_step retiringtracked_step unflagging_step returned_step)+

section \<open>The invariant of the system\<close>

fun is_execution :: "goroutine \<Rightarrow> bool" where
  "is_execution (Execution p pc) = True"
| "is_execution (Flush pc) = False"
| "is_execution (Lookup key pc) = False"

fun go_ok :: "history \<Rightarrow> (ref \<Rightarrow> kv_entry list) \<Rightarrow> store \<times> tracker \<Rightarrow> segfile \<Rightarrow> goroutine \<Rightarrow> bool" where
  "go_ok h runs stt f (Execution p pc) \<longleftrightarrow>
     (\<exists>rs. Inputs p = map Some rs \<and> set rs \<subseteq> set (ordered (snd stt)) \<and> exec_ok h runs rs stt f pc)"
| "go_ok h runs stt f (Flush (FlushWriting es)) \<longleftrightarrow> sorted_run es \<and> (\<forall>e \<in> set es. stored_ok h e)"
| "go_ok h runs stt f (Flush (FlushRegistering m)) \<longleftrightarrow> (\<exists>E. pending h f m E)"
| "go_ok h runs stt f (Flush Flushed) \<longleftrightarrow> True"
| "go_ok h runs stt f (Lookup key pc) \<longleftrightarrow> True"

definition one_execution :: "goroutine list \<Rightarrow> bool" where
  "one_execution ps \<longleftrightarrow> (\<forall>i < length ps. \<forall>j < length ps. is_execution (ps ! i) \<and> is_execution (ps ! j) \<longrightarrow> i = j)"

definition conc_inv :: "gostring set \<Rightarrow> history \<Rightarrow> system \<Rightarrow> bool" where
  "conc_inv K h c \<longleftrightarrow> (case c of (ps, stt, f, g) \<Rightarrow>
     \<exists>runs. keeper K h runs stt f \<and> one_execution ps \<and> (\<forall>p \<in> set ps. go_ok h runs stt f p))"

lemma go_ok_adds:
  assumes "go_ok h runs stt f p" "adds runs stt f runs' stt' f'" "int (length (sf_bytes f')) < 2 ^ 63"
  shows "go_ok h runs' stt' f' p"
proof (cases p)
  case (Execution q pc)
  then show ?thesis using assms exec_ok_adds [OF _ assms(2) _ assms(3)] by (fastforce simp: adds_def)
next
  case (Flush pc)
  obtain suf where suf: "sf_bytes f' = sf_bytes f @ suf" using assms(2) by (auto simp: adds_def)
  show ?thesis using assms(1) by (cases pc) (auto simp: Flush dest: pending_grow [OF _ suf assms(3)])
qed simp

lemma go_ok_grow:
  assumes "go_ok h runs stt f p" "\<not> is_execution p" "sf_bytes f' = sf_bytes f @ suf" "int (length (sf_bytes f')) < 2 ^ 63"
  shows "go_ok h runs' stt' f' p"
proof (cases p)
  case (Flush pc)
  show ?thesis using assms(1) by (cases pc) (auto simp: Flush dest: pending_grow [OF _ assms(3,4)])
qed (use assms in auto)

lemma adds_stats:
  assumes "stats_step stt stt'" "same_file f f'"
  shows "adds runs stt f runs stt' f'"
proof -
  have "obsolete (cells (fst stt') r) = obsolete (cells (fst stt) r)"
    "InCompaction (cells (fst stt') r) = InCompaction (cells (fst stt) r)" for r
    by (rule stats_only_same; use assms(1) in \<open>simp add: stats_step_def\<close>)+
  then show ?thesis using assms by (simp add: adds_def stats_step_def same_file_def)
qed

lemma lookup_step_stats:
  assumes "sf_inv f" "lookup_step rt (reader_Get os) key pc (stt, f, g) = Some (pc', stt', f', g')"
  shows "stats_step stt stt' \<and> same_file f f'"
proof (cases pc)
  case (Probing segs)
  show ?thesis
  proof (cases segs)
    case Nil
    then show ?thesis using assms by (auto simp: Probing same_file_refl)
  next
    case (Cons seg rest)
    let ?m = "cells (fst stt) seg"
    obtain val ok m' f1 g1 where get: "reader_Get os (Some ?m) key f g = Some ((val, ok), m', f1, g1)"
      using assms(2) by (auto simp: Probing Cons split: option.splits)
    obtain n where n: "m' = Some (?m\<lparr>TotalComparisons := n\<rparr>)" "same_file f f1"
      using reader_Get_frame [OF assms(1) get] by blast
    have "stt' = (upd_cell seg (\<lambda>_. ?m\<lparr>TotalComparisons := n\<rparr>) (fst stt), snd stt)" "f' = f1"
      using assms(2) by (auto simp: Probing Cons get store_back_def n)
    moreover have "stats_step (fst stt, snd stt) (upd_cell seg (\<lambda>_. ?m\<lparr>TotalComparisons := n\<rparr>) (fst stt), snd stt)"
      by (rule stats_step_upd_cell) simp
    ultimately show ?thesis using n(2) by simp
  qed
qed (use assms in \<open>auto simp: same_file_refl intro: stats_step_UpdateStats\<close>)

lemma flush_step_ok:
  assumes "keeper K h runs stt f" "go_ok h runs stt f (Flush pc)"
    "flush_step rt (WriteSegment bench_writer os uid tm) pc (stt, f, g) = Some (pc', stt', f', g')" "roomy stt' f'"
  shows "\<exists>runs'. keeper K h runs' stt' f' \<and> go_ok h runs' stt' f' (Flush pc') \<and> adds runs stt f runs' stt' f'"
proof (cases pc)
  case (FlushWriting es)
  obtain m f1 g1 where w: "WriteSegment bench_writer os uid tm es TIERED 0 f g = Some (Inr (Some m), f1, g1)"
    using assms(3) by (auto simp: FlushWriting split: option.splits sum.splits)
  have out: "pc' = FlushRegistering m" "stt' = stt" "f' = f1" using assms(3) by (auto simp: FlushWriting w)
  obtain suf where suf: "f1 = f\<lparr>sf_bytes := sf_bytes f @ suf\<rparr>" using write_appends [OF w] by blast
  have "pending h f1 m es"
    by (rule write_pending [OF w]) (use assms(2) roomy_fits [OF assms(4)] out in \<open>simp_all add: FlushWriting\<close>)
  moreover have "keeper K h runs stt' f'" using keeper_file [OF assms(1) suf] assms(4) by (simp add: out)
  ultimately show ?thesis by (auto simp: out adds_def suf)
next
  case (FlushRegistering m)
  obtain s t where stt: "stt = (s, t)" by fastforce
  obtain E where E: "pending h f m E" using assms(2) by (auto simp: FlushRegistering)
  obtain new s1 where al: "alloc m s = (new, s1)" by fastforce
  obtain s2 t2 where reg: "RegisterSegment rt new (s1, t) = (s2, t2)" by fastforce
  have out: "pc' = Flushed" "stt' = (s2, t2)" "f' = f" using assms(3) by (auto simp: FlushRegistering stt al reg)
  note k = keeper_register [OF assms(1) [unfolded stt] E al reg assms(4) [unfolded out(2,3)]]
  have "adds runs stt f (runs(new := E)) stt' f'"
    unfolding adds_def out stt fst_conv snd_conv k(4) using k(3,5) by auto
  then show ?thesis using k(1) by (auto simp: out)
next
  case Flushed
  then show ?thesis using assms by (auto simp: adds_def)
qed

text \<open>Replacing the goroutine that moved.\<close>

lemma conc_inv_update:
  assumes "one_execution ps" "i < length ps" "keeper K h runs' stt' f'" "go_ok h runs' stt' f' p'"
    "is_execution p' = is_execution (ps ! i)" "\<And>j. j < length ps \<Longrightarrow> j \<noteq> i \<Longrightarrow> go_ok h runs' stt' f' (ps ! j)"
  shows "conc_inv K h (ps[i := p'], stt', f', g')"
proof -
  have "is_execution (ps[i := p'] ! j) = is_execution (ps ! j)" if "j < length ps" for j
    using assms(5) that by (cases "j = i") simp_all
  then have "one_execution (ps[i := p'])" using assms(1) by (simp add: one_execution_def)
  moreover have "go_ok h runs' stt' f' q" if q: "q \<in> set (ps[i := p'])" for q
  proof -
    obtain j where "j < length ps" "ps[i := p'] ! j = q" using q by (auto simp: in_set_conv_nth)
    then show ?thesis using assms(4,6) by (cases "j = i") auto
  qed
  ultimately show ?thesis using assms(3) by (auto simp: conc_inv_def)
qed

lemma go_execution_ok:
  assumes "go_runtime rt" "keeper K h runs stt f" "go_ok h runs stt f (Execution p pc)"
    "go_step rt env (Execution p pc) (stt, f, g) = Some (p', stt', f', g')" "se_mmap env = (all_done, all_done)" "roomy stt' f'"
  shows "\<exists>runs' suf. keeper K h runs' stt' f' \<and> go_ok h runs' stt' f' p' \<and> is_execution p' \<and>
    sf_bytes f' = sf_bytes f @ suf \<and> set (ordered (snd stt)) \<subseteq> set (ordered (snd stt'))"
proof -
  obtain pc' where es: "exec_step rt (reader_Scan all_done all_done)
      (WriteSegment bench_writer (se_append env) (se_uuid env) (se_now env)) p pc (stt, f, g) = Some (pc', stt', f', g')"
    and p': "p' = Execution p pc'"
    using assms(4) by (auto simp: assms(5) env_write_def)
  obtain rs where rs: "Inputs p = map Some rs" "set rs \<subseteq> set (ordered (snd stt))" "exec_ok h runs rs stt f pc"
    using assms(3) by auto
  have "exec_move rt p K h runs rs pc stt f pc' stt' f'"
    unfolding exec_move_def using assms(1,2,6) rs es by blast
  from execution_step [OF this] obtain runs' suf where r: "keeper K h runs' stt' f'"
    "exec_ok h runs' rs stt' f' pc'" "sf_bytes f' = sf_bytes f @ suf"
    "set (ordered (snd stt)) \<subseteq> set (ordered (snd stt'))"
    unfolding advances_def by blast
  moreover from this have "go_ok h runs' stt' f' p'" using rs(1,2) by (auto simp: p')
  ultimately show ?thesis by (auto simp: p')
qed

lemma go_flush_ok:
  assumes "keeper K h runs stt f" "go_ok h runs stt f (Flush pc)"
    "go_step rt env (Flush pc) (stt, f, g) = Some (p', stt', f', g')" "roomy stt' f'"
  shows "\<exists>runs'. keeper K h runs' stt' f' \<and> go_ok h runs' stt' f' p' \<and> \<not> is_execution p' \<and> adds runs stt f runs' stt' f'"
proof -
  obtain pc' where "flush_step rt (WriteSegment bench_writer (se_append env) (se_uuid env) (se_now env)) pc (stt, f, g) =
      Some (pc', stt', f', g')" "p' = Flush pc'"
    using assms(3) by (auto simp: env_write_def)
  then show ?thesis using flush_step_ok [OF assms(1,2) _ assms(4)] by fastforce
qed

lemma go_lookup_ok:
  assumes "keeper K h runs stt f" "go_step rt env (Lookup key pc) (stt, f, g) = Some (p', stt', f', g')"
    "se_mmap env = (all_done, all_done)" "roomy stt' f'"
  shows "keeper K h runs stt' f' \<and> go_ok h runs stt' f' p' \<and> \<not> is_execution p' \<and> adds runs stt f runs stt' f'"
proof -
  obtain pc' where ls: "lookup_step rt (reader_Get all_done) key pc (stt, f, g) = Some (pc', stt', f', g')"
    and p': "p' = Lookup key pc'"
    using assms(2) by (auto simp: assms(3))
  have "sf_inv f" using keeper_ready [OF assms(1)] by (simp add: file_ready_def)
  then have fr: "stats_step stt stt'" "same_file f f'" using lookup_step_stats [OF _ ls] by auto
  show ?thesis using keeper_stats(1) [OF assms(1) fr assms(4)] adds_stats [OF fr] by (simp add: p')
qed

lemma conc_inv_move:
  assumes "go_runtime rt" "conc_inv K h c" "sys_move rt i env c = Some (ps', stt', f', g')"
    "se_mmap env = (all_done, all_done)" "roomy stt' f'"
  shows "conc_inv K h (ps', stt', f', g')"
proof -
  obtain ps stt f g where c: "c = (ps, stt, f, g)" by (metis prod_cases4)
  obtain runs where kp: "keeper K h runs stt f" and one: "one_execution ps"
    and ok: "\<And>p. p \<in> set ps \<Longrightarrow> go_ok h runs stt f p" using assms(2) by (auto simp: conc_inv_def c)
  show ?thesis
  proof (cases "i < length ps")
    case False
    then show ?thesis using assms(2,3) by (simp add: sys_move_def c)
  next
    case True
    obtain p' where st: "go_step rt env (ps ! i) (stt, f, g) = Some (p', stt', f', g')" and ps': "ps' = ps[i := p']"
      using assms(3) True by (auto simp: sys_move_def c)
    have ok_i: "go_ok h runs stt f (ps ! i)" by (rule ok) (use True in simp)
    have fits: "int (length (sf_bytes f')) < 2 ^ 63" by (rule roomy_fits [OF assms(5)])
    note others = conc_inv_update [where p' = p', OF one True, folded ps']
    show ?thesis
    proof (cases "ps ! i")
      case (Execution p pc)
      obtain runs' suf where r: "keeper K h runs' stt' f'" "go_ok h runs' stt' f' p'" "is_execution p'"
        "sf_bytes f' = sf_bytes f @ suf"
        using go_execution_ok [OF assms(1) kp _ _ assms(4,5)] ok_i st unfolding Execution by blast
      have "go_ok h runs' stt' f' (ps ! j)" if j: "j < length ps" "j \<noteq> i" for j
      proof -
        have "\<not> is_execution (ps ! j)" using j one True Execution by (auto simp: one_execution_def)
        then show ?thesis using go_ok_grow [OF ok _ r(4) fits] j(1) by simp
      qed
      then show ?thesis by (intro others [OF r(1)]) (use r(2,3) in \<open>simp_all add: Execution\<close>)
    next
      case (Flush pc)
      obtain runs' where r: "keeper K h runs' stt' f'" "go_ok h runs' stt' f' p'" "\<not> is_execution p'"
        "adds runs stt f runs' stt' f'"
        using go_flush_ok [OF kp _ _ assms(5)] ok_i st unfolding Flush by blast
      show ?thesis by (rule others [OF r(1)]) (use r go_ok_adds [OF ok r(4) fits] in \<open>simp_all add: Flush\<close>)
    next
      case (Lookup key pc)
      note r = go_lookup_ok [OF kp st [unfolded Lookup] assms(4,5)]
      show ?thesis
        by (rule others [OF conjunct1 [OF r]]) (use r go_ok_adds [OF ok _ fits] in \<open>simp_all add: Lookup\<close>)
    qed
  qed
qed

lemma conc_inv_reach:
  assumes "conc_reach rt c0 c" "go_runtime rt" "conc_inv K h c0"
  shows "conc_inv K h c"
  using assms(1)
proof (induction rule: conc_reach.induct)
  case (move c i env ps stt f g)
  then show ?case by (intro conc_inv_move [OF assms(2)])
qed (rule assms(3))

section \<open>Lookups in a reachable state\<close>

fun fresh_go :: "history \<Rightarrow> store \<times> tracker \<Rightarrow> goroutine \<Rightarrow> bool" where
  "fresh_go h stt (Execution p pc) \<longleftrightarrow> plan_ok stt p \<and> pc = Validating 0 (Inputs p)"
| "fresh_go h stt (Flush pc) \<longleftrightarrow> (\<exists>es. pc = FlushWriting es \<and> sorted_run es \<and> (\<forall>e \<in> set es. stored_ok h e))"
| "fresh_go h stt (Lookup key pc) \<longleftrightarrow> pc = Locating"

lemma fresh_go_ok: "fresh_go h stt p \<Longrightarrow> go_ok h runs stt f p"
  by (cases p) (auto simp: plan_ok_def all_live_def live_refs_def)

lemma conc_inv_start:
  assumes "file_state bench_writer runs stt f" "\<forall>r \<in> live_refs stt. \<forall>e \<in> set (runs r). stored_ok h e"
    "one_execution ps" "\<forall>p \<in> set ps. fresh_go h stt p"
  shows "conc_inv {k. \<exists>r \<in> live_refs stt. run_map (runs r) k \<noteq> None} h (ps, stt, f, g)"
proof -
  have "keeper {k. \<exists>r \<in> live_refs stt. run_map (runs r) k \<noteq> None} h runs stt f"
    using assms(1,2) by (simp add: keeper_def)
  then show ?thesis using assms(3,4) fresh_go_ok by (auto simp: conc_inv_def)
qed

text \<open>A lookup that is not interrupted finds every key that the segments keep.\<close>

lemma keeper_lookup:
  assumes "go_runtime rt" "keeper K h runs stt f" "k \<in> K"
  shows "\<exists>v x. handler_loop (reader_Get all_done) k (GetSegmentsForKey rt k stt) stt f g = Some ((Some v, True), x) \<and>
    v \<in> set (h k)"
proof -
  define h' where "h' = (\<lambda>k. if \<exists>r \<in> live_refs stt. run_map (runs r) k \<noteq> None then h k else [])"
  define s :: bench where "s = undefined\<lparr>b_mem := NewMemtable 1, b_meta := stt, b_file := f, b_globals := g\<rparr>"
  have kp: "file_state bench_writer runs stt f" "\<forall>r \<in> live_refs stt. \<forall>e \<in> set (runs r). stored_ok h e"
    "\<exists>r \<in> live_refs stt. run_map (runs r) k \<noteq> None"
    using assms(2,3) by (auto simp: keeper_def)
  have "stored_ok h' e" if r: "r \<in> live_refs stt" "e \<in> set (runs r)" for r e
  proof -
    have "sorted_run (runs r)" using keeper_holds [OF assms(2) r(1)] by (simp add: file_holds_def seg_holds_def)
    then have "run_map (runs r) (Key e) \<noteq> None" using run_map_mem r(2) by fastforce
    then have "h' (Key e) = h (Key e)" using r(1) by (auto simp: h'_def)
    then show ?thesis using kp(2) r by (simp add: stored_ok_def)
  qed
  moreover have "\<exists>r \<in> live_refs stt. run_map (runs r) x \<noteq> None" if "h' x \<noteq> []" for x
    using that by (auto simp: h'_def split: if_splits)
  moreover have "mem_inv (NewMemtable 1)" "data (NewMemtable 1) = []" by (simp_all add: mem_inv_def NewMemtable_def)
  ultimately have "serving h' runs (NewMemtable 1) stt f" using kp(1) by (auto simp: serving_def)
  then have sv: "serves h' s" by (auto simp: serves_def s_def)
  obtain r x where r: "handler_Get rt (reader_Get all_done) k (b_mem s) (b_meta s) (b_file s) (b_globals s) = Some (r, x)"
    "if h' k = [] then r = (None, False) else \<exists>v \<in> set (h' k). r = (Some v, True)"
    using serves_reads [OF assms(1) sv, of k] by blast
  have miss: "Get k (NewMemtable 1) = (None, False)" by (simp add: Get_def NewMemtable_def go_search_def search_loop.simps)
  obtain y e where "y \<in> live_refs stt" "run_map (runs y) k = Some e" using kp(3) by blast
  then have "e \<in> set (runs y)" "Key e = k" using run_map_SomeD by auto
  then have "stored_ok h' e" using \<open>\<And>r e. r \<in> live_refs stt \<Longrightarrow> e \<in> set (runs r) \<Longrightarrow> stored_ok h' e\<close> \<open>y \<in> live_refs stt\<close> by blast
  then have "h' k \<noteq> []" using \<open>Key e = k\<close> by (auto simp: stored_ok_def)
  then obtain v where "v \<in> set (h' k)" "r = (Some v, True)" using r(2) by auto
  moreover have "set (h' k) \<subseteq> set (h k)" by (auto simp: h'_def)
  moreover have "handler_loop (reader_Get all_done) k (GetSegmentsForKey rt k stt) stt f g = Some (r, x)"
    using r(1) by (simp add: handler_Get_def miss s_def)
  ultimately show ?thesis by blast
qed

text \<open>A schedule that stays within the bounds, for evaluation.\<close>

fun sys_walk :: "runtime \<Rightarrow> (nat \<times> step_env) list \<Rightarrow> system \<Rightarrow> system option" where
  "sys_walk rt [] c = Some c"
| "sys_walk rt ((i, env) # sched) c =
     (if se_mmap env = (all_done, all_done) then
        (case sys_move rt i env c of
           None \<Rightarrow> None
         | Some (ps, stt, f, g) \<Rightarrow> if roomy stt f then sys_walk rt sched (ps, stt, f, g) else None)
      else None)"

lemma sys_walk_reach: "conc_reach rt c0 c \<Longrightarrow> sys_walk rt sched c = Some c' \<Longrightarrow> conc_reach rt c0 c'"
proof (induction rt sched c rule: sys_walk.induct)
  case (2 rt i env sched c)
  obtain ps stt f g where m: "se_mmap env = (all_done, all_done)" "sys_move rt i env c = Some (ps, stt, f, g)"
    "roomy stt f" "sys_walk rt sched (ps, stt, f, g) = Some c'"
    using "2.prems"(2) by (auto split: if_splits option.splits)
  have "conc_reach rt c0 (ps, stt, f, g)" by (rule conc_reach.move [OF "2.prems"(1) m(2,1,3)])
  then show ?case by (rule "2.IH" [OF m(1,2) refl refl refl m(3) _ m(4)])
qed simp

end
