(* ===== verification/Concurrent_Properties.thy ===== *)
theory Concurrent_Properties
  imports Concurrent_Compaction
begin

text \<open>
  Properties of goroutines that take turns: a compaction never hides a key from a lookup that
  is not itself interrupted, a lookup that spans a compaction can miss a key, and two executions
  of one plan can lose keys or crash.
\<close>

section \<open>Two segments, a compaction and a lookup\<close>

definition plain_env :: step_env where
  "plain_env = \<lparr>se_mmap = (all_done, all_done), se_append = all_done, se_uuid = [3], se_now = 30\<rparr>"

definition two_state :: "segfile shared" where
  "two_state = ((two_store 20, two_tracker), sample_file, zero_counters)"

definition merging :: goroutine where
  "merging = Execution merge_plan (Validating 0 (Inputs merge_plan))"

text \<open>Goroutine \<open>i\<close> for \<open>n\<close> steps.\<close>

definition turns :: "nat \<Rightarrow> nat \<Rightarrow> (nat \<times> step_env) list" where
  "turns i n = replicate n (i, plain_env)"

definition finds :: "gostring \<Rightarrow> segfile shared \<Rightarrow> slice \<times> bool" where
  "finds key sh = (case sh of (stt, f, g) \<Rightarrow>
     (case handler_loop (reader_Get all_done) key (GetSegmentsForKey short_runtime key stt) stt f g of
        Some (r, x) \<Rightarrow> r | None \<Rightarrow> (None, False)))"

definition failing_env :: step_env where
  "failing_env = plain_env\<lparr>se_append := (Fault 0, Done, Done)\<rparr>"

lemma two_executions_eval:
  "case sys_run short_runtime (turns 1 9 @ replicate 17 (0, failing_env) @ turns 1 12) ([merging, merging], two_state) of
     Some (ps, sh) \<Rightarrow>
       (case ps ! 0 of Execution p (Returned (Inl (OutputFailed e))) \<Rightarrow> p = merge_plan | _ \<Rightarrow> False) \<and>
       ps ! 1 = Execution merge_plan (Returned (Inr 4)) \<and> finds [7] sh = (None, False)
   | None \<Rightarrow> False"
  by code_simp

lemma two_executions_panic:
  "sys_run short_runtime (turns 0 6 @ turns 1 30 @ turns 0 30) ([merging, merging], two_state) = None"
  by code_simp

lemma start_eval: "finds [7] two_state = (Some [3], True)"
  by code_simp

section \<open>One segment, a compaction, a flush and a lookup\<close>

definition one_stage :: "segment_meta option \<times> segfile" where
  "one_stage = written (WriteSegment bench_writer all_done [1] 10 old_run TIERED 0 (fresh_file []) zero_counters)"

definition one_state :: "store \<times> tracker" where
  "one_state = (\<lparr>cells = (\<lambda>_. zero_meta)(2 := the (fst one_stage)), fresh = 3\<rparr>,
     \<lparr>segments = [([1], 2)], ordered = [2]\<rparr>)"

definition one_plan :: plan where
  "one_plan = \<lparr>Inputs = [Some 2], OutputStrategy = LEVELED, Reason = SimilarSizedRuns, TargetLevel = 1\<rparr>"

definition one_system :: "goroutine list" where
  "one_system = [Execution one_plan (Validating 0 (Inputs one_plan)), Flush (FlushWriting new_run), Lookup [7] Locating]"

definition one_history :: history where
  "one_history k = (if k = [5] then [[1], [2]] else if k = [7] then [[3]] else [])"

definition one_schedule :: "(nat \<times> step_env) list" where
  "one_schedule = turns 2 1 @ turns 0 7 @ replicate 2 (1, plain_env\<lparr>se_uuid := [4]\<rparr>) @ turns 2 1 @ turns 0 3"

lemma write_one:
  "WriteSegment bench_writer all_done [1] 10 old_run TIERED 0 (fresh_file []) zero_counters =
     Some (Inr (Some (the (fst one_stage))), snd one_stage, zero_counters\<lparr>GlobalPhysicalWriteBytes := 67\<rparr>)"
  by code_simp

lemma one_fields: "ID (the (fst one_stage)) = [1]" "length (sf_bytes (snd one_stage)) = 67"
  by code_simp+

lemma one_holds:
  "file_ready (snd one_stage)" "file_holds bench_writer (snd one_stage) (the (fst one_stage)) old_run"
  "\<not> obsolete (the (fst one_stage))"
proof -
  have "file_fits bench_writer old_run (snd one_stage)"
    by (simp add: file_fits_def one_fields bench_writer_stride sample_scannable)
  then show "file_ready (snd one_stage)" "file_holds bench_writer (snd one_stage) (the (fst one_stage)) old_run"
    "\<not> obsolete (the (fst one_stage))"
    using file_write_ok [OF fresh_file_ready sample_runs(1) write_one] by simp_all
qed

lemma one_start:
  "file_state bench_writer (\<lambda>_. old_run) one_state (snd one_stage)" "live_refs one_state = {2}"
  "\<forall>r \<in> live_refs one_state. \<forall>e \<in> set old_run. stored_ok one_history e" "one_execution one_system"
  "\<forall>p \<in> set one_system. fresh_go one_history one_state p"
proof -
  show "file_state bench_writer (\<lambda>_. old_run) one_state (snd one_stage)"
    using one_holds by (auto simp: file_state_def one_state_def tracker_inv_def one_fields)
  show "live_refs one_state = {2}" using one_holds(3) by (auto simp: live_refs_def one_state_def)
  show "\<forall>r \<in> live_refs one_state. \<forall>e \<in> set old_run. stored_ok one_history e"
    by (simp add: old_run_def stored_ok_def one_history_def readable_def live_entry_def)
  show "one_execution one_system" by (auto simp: one_execution_def one_system_def less_Suc_eq)
  show "\<forall>p \<in> set one_system. fresh_go one_history one_state p"
    using one_holds(3)
    by (auto simp: one_system_def plan_ok_def one_plan_def one_state_def new_run_def stored_ok_def one_history_def
        readable_def live_entry_def intro!: exI [of _ "[2]"])
qed

lemma one_walk_eval:
  "case sys_walk short_runtime one_schedule (one_system, one_state, snd one_stage, zero_counters) of
     Some (ps, stt, f, g) \<Rightarrow> ordered (snd stt) = [4, 3, 2] \<or> ordered (snd stt) = [3, 2] | None \<Rightarrow> False"
  by code_simp

section \<open>Candidates that were retired\<close>

lemma candidate_in_range:
  assumes "go_runtime rt" "file_state b runs (st, t) s" "r \<in> set (ordered t)" "\<not> obsolete (cells st r)"
    "run_map (runs r) key \<noteq> None"
  shows "r \<in> set (GetSegmentsForKey rt key (st, t))"
proof -
  have "file_holds b s (cells st r) (runs r)" using assms(2-4) by (auto simp: file_state_def)
  then have "in_key_range key (cells st r)"
    using out_of_range_None [of "runs r" key] assms(5)
    by (fastforce simp: file_holds_def seg_holds_def in_key_range_def not_less [symmetric])
  then show ?thesis using assms(3,4) by (simp add: go_runtime.GetSegmentsForKey_set [OF assms(1)])
qed

text \<open>A lookup skips every candidate that is obsolete, whatever its key range.\<close>

lemma retired_candidates_miss:
  assumes "\<forall>r \<in> set segs. obsolete (cells (fst stt) r)"
  shows "\<exists>x. handler_loop (reader_Get os) key segs stt s g = Some ((None, False), x)"
  using assms
proof (induction segs arbitrary: stt)
  case (Cons seg segs)
  let ?m = "cells (fst stt) seg"
  have get: "reader_Get os (Some ?m) key s g = Some ((None, False), Some ?m, s, g)"
    using Cons.prems by (simp add: reader_Get_def get_body_def IsObsolete_def)
  define stt1 where "stt1 = UpdateStats (ID ?m) 1 0 (upd_cell seg (\<lambda>_. ?m) (fst stt), snd stt)"
  have "stats_step (fst stt, snd stt) (upd_cell seg (\<lambda>_. ?m) (fst stt), snd stt)" by (intro stats_step_upd_cell) simp
  then have "stats_step (fst stt, snd stt) stt1" unfolding stt1_def by (rule stats_step_trans [OF _ stats_step_UpdateStats])
  then have "obsolete (cells (fst stt1) r) = obsolete (cells (fst stt) r)" for r
    using stats_only_same(1) by (simp add: stats_step_def)
  with Cons.IH [of stt1] Cons.prems show ?case by (simp add: get store_back_def stt1_def Let_def)
qed simp

text \<open>What a compaction of all candidates of a key leaves: the merged value, in the output alone.\<close>

lemma compacted_lookup:
  assumes "go_runtime rt" "file_state b runs (st, t) s" "set (GetSegmentsForKey rt key (st, t)) \<subseteq> set rs"
    "merged_values (map runs rs) key = Some v"
    "file_state b (runs(new := E)) (st', t') s'" "ordered t' = new # ordered t" "\<not> obsolete (cells st' new)"
    "\<forall>r \<in> set rs. obsolete (cells st' r)" "\<forall>r \<in> set (ordered t) - set rs. stats_only (cells st r) (cells st' r)"
    "run_map E key = Some (live_entry key (Some v))"
  shows "\<exists>x. handler_loop (reader_Get all_done) key (GetSegmentsForKey rt key (st', t')) (st', t') s' g = Some ((Some v, True), x)"
proof -
  obtain es where "es \<in> set (map runs rs)" "live_value es key = Some v" using merged_values_Some [OF assms(4)] by blast
  then have v: "v \<noteq> []" by (auto simp: live_value_def scan_value_def nonempty_def split: option.splits if_splits)
  have others: "run_map ((runs(new := E)) r) key = None" if r: "r \<in> set (ordered t')" "r \<noteq> new" "\<not> obsolete (cells st' r)" for r
  proof (rule ccontr)
    assume some: "run_map ((runs(new := E)) r) key \<noteq> None"
    have in_t: "r \<in> set (ordered t) - set rs" using r assms(6,8) by auto
    then have "obsolete (cells st' r) = obsolete (cells st r)" using assms(9) stats_only_same(1) by blast
    then have "r \<in> set (GetSegmentsForKey rt key (st, t))"
      using in_t r some by (intro candidate_in_range [OF assms(1,2)]) simp_all
    then show False using assms(3) in_t by blast
  qed
  have "first_live (map (\<lambda>r. run_map ((runs(new := E)) r) key) (GetSegmentsForKey rt key (st', t'))) =
      (nonempty (slice_bytes (Value (live_entry key (Some v)))), True)"
    using assms(6,7,10) others by (intro newest_live [OF assms(1,5), of new]) auto
  moreover have "\<not> snd (Get key (NewMemtable 1))" by (simp add: Get_def NewMemtable_def)
  ultimately show ?thesis
    using handler_Get_miss [OF assms(1,5), of key "NewMemtable 1" g] v
    by (auto simp: handler_Get_def nonempty_def split: prod.splits)
qed

section \<open>Properties\<close>

text \<open>C7: No compaction hides a key, not even for a moment: while one execution of a plan, any number of
  flushes and any number of lookups take turns after every access to shared state, whatever the
  order and whichever writes fail, a key that some live segment held at the start is found by a
  lookup made at any moment in between, with a value that was put under it. This supposes that
  every mapping of the file succeeds, for an input that cannot be scanned is dropped and retired,
  that identifiers drawn are distinct, and that sizes stay within the reader's bounds.\<close>

theorem compaction_hides_no_key:
  assumes "go_runtime rt" "file_state bench_writer runs stt f"
    "\<forall>r \<in> live_refs stt. \<forall>e \<in> set (runs r). stored_ok h e" "one_execution ps" "\<forall>p \<in> set ps. fresh_go h stt p"
    "conc_reach rt (ps, stt, f, g) (ps', stt', f', g')" "r \<in> live_refs stt" "run_map (runs r) key \<noteq> None"
  shows "\<exists>v x. handler_loop (reader_Get all_done) key (GetSegmentsForKey rt key stt') stt' f' g' = Some ((Some v, True), x) \<and>
    v \<in> set (h key)"
proof -
  let ?K = "{k. \<exists>r \<in> live_refs stt. run_map (runs r) k \<noteq> None}"
  have "conc_inv ?K h (ps', stt', f', g')"
    by (rule conc_inv_reach [OF assms(6,1) conc_inv_start [OF assms(2-5)]])
  then obtain runs' where "keeper ?K h runs' stt' f'" by (auto simp: conc_inv_def)
  then show ?thesis using keeper_lookup [OF assms(1)] assms(7,8) by blast
qed

lemma compaction_hides_no_key_witness:
  "\<exists>ps stt f g v x. sys_walk short_runtime one_schedule (one_system, one_state, snd one_stage, zero_counters) =
       Some (ps, stt, f, g) \<and>
     handler_loop (reader_Get all_done) [7] (GetSegmentsForKey short_runtime [7] stt) stt f g = Some ((Some v, True), x) \<and>
     v = [3]"
proof -
  obtain ps stt f g where w: "sys_walk short_runtime one_schedule (one_system, one_state, snd one_stage, zero_counters) =
      Some (ps, stt, f, g)"
    using one_walk_eval by (cases "sys_walk short_runtime one_schedule (one_system, one_state, snd one_stage, zero_counters)") auto
  have "run_map old_run [7] \<noteq> None" by (simp add: old_run_def)
  from compaction_hides_no_key [OF short_rt.go_runtime_axioms one_start(1) one_start(3) one_start(4,5)
      sys_walk_reach [OF conc_reach.start w] _ this, of 2]
  obtain v x where "handler_loop (reader_Get all_done) [7] (GetSegmentsForKey short_runtime [7] stt) stt f g = Some ((Some v, True), x)"
    "v \<in> set (one_history [7])" by (auto simp: one_start(2))
  moreover from this have "v = [3]" by (simp add: one_history_def)
  ultimately show ?thesis using w by blast
qed

text \<open>C33: A lookup that spans a compaction misses a key that is there all the time: when the compaction's
  inputs include every candidate of a key that has a merged value, a lookup before it finds the key
  and one after it finds the merged value, but one that took its candidates before and probes them
  after it answers that there is none, whatever its mappings return, because the reader rejects
  segments that are obsolete by then.\<close>

theorem spanning_lookup_misses_key:
  assumes "go_runtime rt" "file_state b runs (st, t) s" "Inputs p = map Some rs" "set rs \<subseteq> set (ordered t)"
    "Execute rt (reader_Scan all_done all_done) (WriteSegment b os uid tm) p (st, t) s g =
       Some (Inr new, (st', t'), s', g')"
    "\<forall>r \<in> set (ordered t). ID (cells st r) \<noteq> ID (cells st' new)"
    "sorted_run E" "\<forall>k. run_map E k = map_option (\<lambda>v. live_entry k (Some v)) (merged_values (map runs rs) k)"
    "file_fits b E s'"
    "segs = GetSegmentsForKey rt key (st, t)" "set segs \<subseteq> set rs" "merged_values (map runs rs) key = Some v"
  shows "(\<exists>w x. handler_loop (reader_Get all_done) key segs (st, t) s g = Some ((w, True), x)) \<and>
    (\<exists>x. handler_loop (reader_Get os2) key segs (st', t') s' g' = Some ((None, False), x)) \<and>
    (\<exists>x. handler_loop (reader_Get all_done) key (GetSegmentsForKey rt key (st', t')) (st', t') s' g' =
       Some ((Some v, True), x))"
proof -
  note fin = file_state_compaction [OF assms(1-7) spec [OF assms(8)] assms(9)]
  obtain r where r: "r \<in> set rs" "live_value (runs r) key = Some v" using merged_values_Some [OF assms(12)] by auto
  then have hit: "snd (entry_result (run_map (runs r) key))" "run_map (runs r) key \<noteq> None"
    by (auto simp: live_value_def entry_result_def scan_value_def split: option.splits if_splits)
  have "\<not> obsolete (cells st r)" using Execute_valid [OF assms(5)] r(1) by (simp add: assms(3) input_ok_def)
  then have "r \<in> set segs" using r(1) hit(2) assms(4) unfolding assms(10) by (intro candidate_in_range [OF assms(1,2)]) auto
  then have "\<exists>r \<in> set segs. snd (entry_result (run_map (runs r) key))" using hit(1) by blast
  then have live: "snd (first_live (map (\<lambda>r. run_map (runs r) key) segs))"
    using first_live_some [of segs "\<lambda>r. run_map (runs r) key"] by fastforce
  have "\<forall>r \<in> set segs. file_holds b s (cells (fst (st, t)) r) (runs r) \<and> \<not> obsolete (cells (fst (st, t)) r)"
    using assms(2) unfolding assms(10) by (auto simp: go_runtime.GetSegmentsForKey_set [OF assms(1)] file_state_def)
  then have "\<exists>w x. handler_loop (reader_Get all_done) key segs (st, t) s g = Some ((w, True), x)"
    using sst.handler_loop_first_live [of s segs b "(st, t)" runs key g] live assms(2)
    by (cases "first_live (map (\<lambda>r. run_map (runs r) key) segs)") (auto simp: file_state_def)
  moreover have "\<exists>x. handler_loop (reader_Get os2) key segs (st', t') s' g' = Some ((None, False), x)"
    using fin assms(11) by (intro retired_candidates_miss) auto
  moreover have "\<exists>x. handler_loop (reader_Get all_done) key (GetSegmentsForKey rt key (st', t')) (st', t') s' g' =
      Some ((Some v, True), x)"
    using fin assms(8,12) by (intro compacted_lookup [OF assms(1,2) assms(11) [unfolded assms(10)] assms(12)]) auto
  ultimately show ?thesis by blast
qed

lemma spanning_lookup_misses_key_witness:
  "\<exists>st' t' s' g' x. merge_result = Some (Inr 4, (st', t'), s', g') \<and>
     handler_loop (reader_Get all_done) [7] (GetSegmentsForKey short_runtime [7] (two_store 20, two_tracker)) (st', t') s' g' =
       Some ((None, False), x)"
proof -
  obtain st' t' s' g' where r: "merge_result = Some (Inr 4, (st', t'), s', g')" "ID (cells st' 4) = [3]"
    "file_fits sample_b old_run s'" by (rule merge_done)
  have "merged_values (map two_runs [3, 2]) [7] = Some [3]" using merged_run [of "[7]"] by (cases "merged_values (map two_runs [3, 2]) [7]") (simp_all add: old_run_def live_entry_def)
  moreover have "set (GetSegmentsForKey short_runtime [7] (two_store 20, two_tracker)) \<subseteq> set [3, 2]"
    by (auto simp: go_runtime.GetSegmentsForKey_set [OF short_rt.go_runtime_axioms])
  ultimately show ?thesis
    using spanning_lookup_misses_key [OF short_rt.go_runtime_axioms two_segments_state, of merge_plan "[3, 2]"
        all_done "[3]" 30 20 zero_counters 4 st' t' s' g' old_run _ "[7]" "[3]" all_done, OF _ _ _ _ _ _ _ refl] r merged_run
    by (simp add: merge_plan_def merge_result_def [unfolded merge_plan_def] sample_meta_fields sample_runs)
qed


end
