(* ===== verification/Concurrent_Progress.thy ===== *)
theory Concurrent_Progress
  imports Concurrent_Properties Workload_Progress
begin

text \<open>
  Goroutines that take turns do not get stuck: with one execution of a plan, and as long as the file
  can be mapped, the only step that can panic is the write of a flush.
\<close>

section \<open>No step but a flush can panic\<close>

text \<open>An execution that goes on to retire its inputs has an output.\<close>

fun has_output :: "exec_pc \<Rightarrow> bool" where
  "has_output (Retiring rest new) = (new \<noteq> None)"
| "has_output (RetiringTracked seg rest new) = (new \<noteq> None)"
| "has_output pc = True"

fun waiting :: "lookup_pc \<Rightarrow> ref list" where
  "waiting (Probing segs) = segs"
| "waiting (Accounting seg segs val ok) = segs"
| "waiting pc = []"

fun ready_go :: "tracker \<Rightarrow> goroutine \<Rightarrow> bool" where
  "ready_go t (Execution p pc) \<longleftrightarrow> Inputs p \<noteq> [] \<and> length (Inputs p) \<le> 50 \<and> has_output pc"
| "ready_go t (Flush (FlushWriting es)) \<longleftrightarrow> es \<noteq> [] \<and> length es < 2 ^ 39"
| "ready_go t (Flush pc) \<longleftrightarrow> True"
| "ready_go t (Lookup key pc) \<longleftrightarrow> set (waiting pc) \<subseteq> set (ordered t)"

lemma ready_go_mono: "ready_go t p \<Longrightarrow> set (ordered t) \<subseteq> set (ordered t') \<Longrightarrow> ready_go t' p"
  by (cases "(t, p)" rule: ready_go.cases) auto

lemma keeper_plan_output:
  assumes "keeper K h runs stt f" "all_live stt rs" "rs \<noteq> []" "length rs \<le> 50"
    "sorted_run E" "\<forall>k. run_map E k = map_option (\<lambda>v. live_entry k (Some v)) (merged_values (map runs rs) k)"
  shows "int (length (frames E)) < 2 ^ 63 \<and> E \<noteq> []"
proof -
  have "\<forall>x \<in> set rs. runs x \<noteq> [] \<and> scannable (runs x)"
    using keeper_holds [OF assms(1)] assms(2) by (auto simp: all_live_def file_holds_def seg_holds_def)
  moreover have "\<forall>es \<in> set (map runs rs). \<forall>e \<in> set es. stored_ok h e"
    using assms(1,2) by (auto simp: keeper_def all_live_def)
  ultimately show ?thesis using plan_output(2) [OF _ assms(3,4) _ assms(5,6)] by blast
qed

lemma writing_returns:
  assumes "go_runtime rt" "keeper K h runs stt f" "go_ok h runs stt f (Execution p (Writing merged))"
    "ready_go t (Execution p (Writing merged))"
  shows "\<exists>r f' g'. WriteSegment bench_writer os uid tm (final_entries rt merged) str lvl f g = Some (r, f', g') \<and> r \<noteq> Inr None"
proof -
  obtain rs where rs: "Inputs p = map Some rs" "all_live stt rs" "represents merged (merged_values (map runs rs))"
    using assms(3) by auto
  note E = merged_entries [OF assms(1,2) rs(2,3)]
  have "rs \<noteq> []" "length rs \<le> 50" using assms(4) by (simp_all add: rs(1))
  with keeper_plan_output [OF assms(2) rs(2) _ _ E(1)] E(3) show ?thesis by (intro write_returns) blast+
qed

lemma execution_progress:
  assumes "go_runtime rt" "keeper K h runs stt f" "go_ok h runs stt f (Execution p pc)" "ready_go t (Execution p pc)"
  shows "\<exists>pc' sh'. exec_step rt scan (WriteSegment bench_writer os uid tm) p pc (stt, f, g) = Some (pc', sh') \<and> has_output pc'"
proof (cases pc)
  case (Validating i rest)
  then show ?thesis by (cases rest) (auto split: option.split)
next
  case (Flagging rest)
  then show ?thesis by (cases rest) auto
next
  case (Checking rest merged)
  then show ?thesis by (cases rest) auto
next
  case (Writing merged)
  obtain r f' g' where "WriteSegment bench_writer os uid tm (final_entries rt merged) (OutputStrategy p) (TargetLevel p) f g =
      Some (r, f', g')" "r \<noteq> Inr None"
    using writing_returns [OF assms(1,2) assms(3,4) [unfolded Writing]] by blast
  then show ?thesis by (cases r) (auto simp: Writing)
next
  case (Retiring rest new)
  then show ?thesis using assms(4) by (cases rest; cases new) auto
next
  case (Unflagging rest r)
  then show ?thesis by (cases rest) auto
qed (use assms(4) in \<open>auto split: sum.splits prod.splits\<close>)

lemma lookup_progress:
  assumes "go_runtime rt" "keeper K h runs stt f" "set (waiting pc) \<subseteq> set (ordered (snd stt))"
  shows "\<exists>pc' stt' f' g'. lookup_step rt (reader_Get os) key pc (stt, f, g) = Some (pc', stt', f', g') \<and>
    set (waiting pc') \<subseteq> set (ordered (snd stt))"
proof (cases pc)
  case Locating
  have "set (GetSegmentsForKey rt key stt) \<subseteq> set (ordered (snd stt))"
    by (cases stt) (auto simp: go_runtime.GetSegmentsForKey_set [OF assms(1)])
  then show ?thesis by (simp add: Locating)
next
  case (Probing segs)
  show ?thesis
  proof (cases segs)
    case (Cons seg rest)
    let ?m = "cells (fst stt) seg"
    have "obsolete ?m \<or> (\<forall>idx. SparseIndex ?m = Some idx \<longrightarrow> length (Offsets idx) = length (Keys idx))"
    proof (cases "obsolete ?m")
      case False
      then have "seg \<in> live_refs stt" using assms(3) by (simp add: live_refs_def Probing Cons)
      then show ?thesis using file_holds_index [OF keeper_holds [OF assms(2)]] by blast
    qed simp
    then have "reader_Get os (Some ?m) key f g \<noteq> None" by (rule reader_Get_returns)
    then show ?thesis using assms(3) by (auto simp: Probing Cons)
  qed (simp add: Probing)
next
  case (Accounting seg segs val ok)
  then show ?thesis using assms(3) by simp
qed (use assms(3) in auto)

lemma go_progress:
  assumes "go_runtime rt" "keeper K h runs stt f" "go_ok h runs stt f p" "ready_go (snd stt) p"
  shows "go_step rt env p (stt, f, g) = None \<longleftrightarrow> (\<exists>es. p = Flush (FlushWriting es)) \<and> se_append env \<noteq> all_done"
proof (cases p)
  case (Execution q pc)
  then show ?thesis
    using execution_progress [OF assms(1,2) assms(3,4) [unfolded Execution],
      of "reader_Scan (fst (se_mmap env)) (snd (se_mmap env))" "se_append env" "se_uuid env" "se_now env" g]
    by (auto simp: env_write_def)
next
  case (Lookup key pc)
  then show ?thesis using lookup_progress [OF assms(1,2), of pc "fst (se_mmap env)" key g] assms(4) by auto
next
  case (Flush pc)
  show ?thesis
  proof (cases pc)
    case (FlushWriting es)
    have es: "es \<noteq> []" "length es < 2 ^ 39" "\<forall>e \<in> set es. readable e"
      using assms(3,4) by (auto simp: Flush FlushWriting stored_ok_def)
    have len: "int (length (frames es)) < 2 ^ 63" using frames_readable [OF es(3)] es(2) by simp
    have op: "\<not> sf_closed f" using keeper_ready [OF assms(2)] by (simp add: file_ready_def)
    show ?thesis
      by (rule WriteSegment_outcome [OF es(1) len op, of "se_append env" "se_uuid env" "se_now env" TIERED 0 g])
        (simp_all add: Flush FlushWriting env_write_def)
  qed (auto simp: Flush split: prod.splits)
qed

lemma ready_go_step:
  assumes "go_runtime rt" "keeper K h runs stt f" "go_ok h runs stt f p" "ready_go (snd stt) p"
    "se_mmap env = (all_done, all_done)" "go_step rt env p (stt, f, g) = Some (p', stt', f', g')"
    "set (ordered (snd stt)) \<subseteq> set (ordered (snd stt'))"
  shows "ready_go (snd stt') p'"
proof (cases p)
  case (Execution q pc)
  then show ?thesis
    using execution_progress [OF assms(1,2) assms(3,4) [unfolded Execution], of "reader_Scan all_done all_done"
      "se_append env" "se_uuid env" "se_now env" g] assms(4,5,6)
    by (auto simp: env_write_def)
next
  case (Lookup key pc)
  then show ?thesis using lookup_progress [OF assms(1,2), of pc all_done key g] assms(4-7) by auto
next
  case (Flush pc)
  then show ?thesis using assms(6) by (cases pc) (auto split: option.splits sum.splits prod.splits)
qed

section \<open>Reachable states do not get stuck\<close>

definition live_inv :: "gostring set \<Rightarrow> history \<Rightarrow> system \<Rightarrow> bool" where
  "live_inv K h c \<longleftrightarrow> conc_inv K h c \<and> (case c of (ps, stt, f, g) \<Rightarrow> \<forall>p \<in> set ps. ready_go (snd stt) p)"

lemma live_invE:
  assumes "live_inv K h (ps, stt, f, g)"
  obtains runs where "keeper K h runs stt f" "\<And>p. p \<in> set ps \<Longrightarrow> go_ok h runs stt f p \<and> ready_go (snd stt) p"
  using assms by (auto simp: live_inv_def conc_inv_def)

lemma go_step_ordered:
  assumes "go_runtime rt" "keeper K h runs stt f" "go_ok h runs stt f p"
    "go_step rt env p (stt, f, g) = Some (p', stt', f', g')" "se_mmap env = (all_done, all_done)" "roomy stt' f'"
  shows "set (ordered (snd stt)) \<subseteq> set (ordered (snd stt'))"
proof (cases p)
  case (Execution q pc)
  then show ?thesis using go_execution_ok [OF assms(1,2) _ _ assms(5,6)] assms(3,4) by blast
next
  case (Flush pc)
  then show ?thesis using go_flush_ok [OF assms(2) _ _ assms(6)] assms(3,4) unfolding adds_def by blast
next
  case (Lookup key pc)
  then show ?thesis using go_lookup_ok [OF assms(2) _ assms(5,6)] assms(4) unfolding adds_def by blast
qed

lemma live_inv_move:
  assumes "go_runtime rt" "live_inv K h c" "sys_move rt i env c = Some (ps', stt', f', g')"
    "se_mmap env = (all_done, all_done)" "roomy stt' f'"
  shows "live_inv K h (ps', stt', f', g')"
proof -
  obtain ps stt f g where c: "c = (ps, stt, f, g)" by (metis prod_cases4)
  obtain runs where kp: "keeper K h runs stt f"
    and ok: "\<And>p. p \<in> set ps \<Longrightarrow> go_ok h runs stt f p \<and> ready_go (snd stt) p"
    using live_invE [OF assms(2) [unfolded c]] by blast
  have "\<forall>p \<in> set ps'. ready_go (snd stt') p"
  proof (cases "i < length ps")
    case False
    then show ?thesis using assms(3) ok by (auto simp: sys_move_def c)
  next
    case True
    then have oki: "go_ok h runs stt f (ps ! i)" "ready_go (snd stt) (ps ! i)" using ok by simp_all
    obtain p' where st: "go_step rt env (ps ! i) (stt, f, g) = Some (p', stt', f', g')" and ps': "ps' = ps[i := p']"
      using assms(3) True by (auto simp: sys_move_def c)
    note grow = go_step_ordered [OF assms(1) kp oki(1) st assms(4,5)]
    have "ready_go (snd stt') p'" by (rule ready_go_step [OF assms(1) kp oki assms(4) st grow])
    then show ?thesis
      using ok ready_go_mono [OF _ grow] set_update_subset_insert [of ps i p'] unfolding ps' by blast
  qed
  then show ?thesis
    using conc_inv_move [OF assms(1) _ assms(3-5)] assms(2) by (simp add: live_inv_def)
qed

lemma live_inv_reach:
  assumes "conc_reach rt c0 c" "go_runtime rt" "live_inv K h c0"
  shows "live_inv K h c"
  using assms(1)
proof (induction rule: conc_reach.induct)
  case (move c i env ps stt f g)
  then show ?case by (intro live_inv_move [OF assms(2)])
qed (rule assms(3))

lemma fresh_ready: "fresh_go h stt p \<Longrightarrow> (\<And>es. p = Flush (FlushWriting es) \<Longrightarrow> es \<noteq> [] \<and> length es < 2 ^ 39) \<Longrightarrow>
  ready_go (snd stt) p"
  by (cases p) (auto simp: plan_ok_def)

section \<open>Properties\<close>

text \<open>C8: As long as every mapping of the file has succeeded, the states that one execution of a plan,
  flushes and lookups reach by taking turns are ones where the next step, its own mappings failed
  or not, panics exactly when it is the write of a flush whose append fails: an execution is not
  left without something to write, even when its own append fails, and a lookup whose candidates
  were retired under it does not crash. Identifiers drawn are distinct and sizes bounded. Of an
  execution whose scans fail nothing is claimed from the next step on.\<close>

theorem only_failed_flush_panics:
  assumes "go_runtime rt" "file_state bench_writer runs stt f"
    "\<forall>r \<in> live_refs stt. \<forall>e \<in> set (runs r). stored_ok h e" "one_execution ps" "\<forall>p \<in> set ps. fresh_go h stt p"
    "\<forall>es. Flush (FlushWriting es) \<in> set ps \<longrightarrow> es \<noteq> [] \<and> length es < 2 ^ 39"
    "conc_reach rt (ps, stt, f, g) (ps', stt', f', g')" "i < length ps'"
  shows "sys_move rt i env (ps', stt', f', g') = None \<longleftrightarrow>
    (\<exists>es. ps' ! i = Flush (FlushWriting es)) \<and> se_append env \<noteq> all_done"
proof -
  let ?K = "{k. \<exists>r \<in> live_refs stt. run_map (runs r) k \<noteq> None}"
  have "\<forall>p \<in> set ps. ready_go (snd stt) p" using assms(5,6) fresh_ready by blast
  then have "live_inv ?K h (ps, stt, f, g)"
    using conc_inv_start [OF assms(2-5)] by (simp add: live_inv_def)
  from live_inv_reach [OF assms(7,1) this] obtain runs' where kp: "keeper ?K h runs' stt' f'"
    and ok: "\<And>p. p \<in> set ps' \<Longrightarrow> go_ok h runs' stt' f' p \<and> ready_go (snd stt') p"
    by (rule live_invE) (rule that)
  have "go_step rt env (ps' ! i) (stt', f', g') = None \<longleftrightarrow>
      (\<exists>es. ps' ! i = Flush (FlushWriting es)) \<and> se_append env \<noteq> all_done"
    using go_progress [OF assms(1) kp] ok assms(8) nth_mem by blast
  then show ?thesis using assms(8) by (simp add: sys_move_def)
qed

lemma one_walk_execution:
  "case sys_walk short_runtime one_schedule (one_system, one_state, snd one_stage, zero_counters) of
     Some (ps, stt, f, g) \<Rightarrow> length ps = 3 \<and> is_execution (ps ! 0) | None \<Rightarrow> False"
  by code_simp

lemma only_failed_flush_panics_witness:
  "\<exists>c. sys_walk short_runtime one_schedule (one_system, one_state, snd one_stage, zero_counters) = Some c \<and>
     sys_move short_runtime 0 (failing_env\<lparr>se_mmap := ((Fault 0, Fault 0, Done), all_done)\<rparr>) c \<noteq> None"
proof -
  obtain ps stt f g where w: "sys_walk short_runtime one_schedule (one_system, one_state, snd one_stage, zero_counters) =
      Some (ps, stt, f, g)" and ex: "length ps = 3" "is_execution (ps ! 0)"
    using one_walk_execution
    by (cases "sys_walk short_runtime one_schedule (one_system, one_state, snd one_stage, zero_counters)") auto
  have "\<forall>es. Flush (FlushWriting es) \<in> set one_system \<longrightarrow> es \<noteq> [] \<and> length es < 2 ^ 39"
    by (simp add: one_system_def new_run_def)
  from only_failed_flush_panics [OF short_rt.go_runtime_axioms one_start(1) one_start(3) one_start(4,5) this
      sys_walk_reach [OF conc_reach.start w], of 0 "failing_env\<lparr>se_mmap := ((Fault 0, Fault 0, Done), all_done)\<rparr>"] ex
  have "sys_move short_runtime 0 (failing_env\<lparr>se_mmap := ((Fault 0, Fault 0, Done), all_done)\<rparr>) (ps, stt, f, g) \<noteq> None"
    by auto
  with w show ?thesis by blast
qed

end
