(* ===== verification/Spec2Isabelle.thy ===== *)
theory Spec2Isabelle
  imports Workload_Properties Reader_Limits Concurrent_Progress
begin

text \<open>
  This library verifies Amethyst, a log-structured storage engine in Go whose compaction switches
  between a tiered and a leveled strategy per segment. Paths below are relative to
  \<^verbatim>\<open>src/amethyst/\<close>.

  \<^bold>\<open>The program.\<close> A put goes to the write-ahead log (\<^verbatim>\<open>internal/wal\<close>) and then to the sorted memtable
  (\<^verbatim>\<open>internal/memtable\<close>). A full memtable is flushed by the engine (\<^verbatim>\<open>internal/engine\<close>): the writer
  (\<^verbatim>\<open>internal/sstable/writer\<close>) turns the sorted run into one segment image with a sparse index
  (\<^verbatim>\<open>internal/sparseindex\<close>), which the segment file manager (\<^verbatim>\<open>internal/segmentfile\<close>) appends to the
  data file, and the log is truncated. The tracker (\<^verbatim>\<open>internal/metadata\<close>) knows the segments. A read
  (\<^verbatim>\<open>internal/read\<close>) asks the memtable and then, through the reader (\<^verbatim>\<open>internal/sstable/reader\<close>) and a
  memory mapping of the file, the tracked segments. In the background the director
  (\<^verbatim>\<open>internal/compaction/director.go\<close>) chooses segments to merge, with the adaptive controller
  (\<^verbatim>\<open>internal/adaptive\<close>) deciding on changes of strategy, and the executor
  (\<^verbatim>\<open>internal/compaction/executor.go\<close>) merges them into a new segment. The command
  (\<^verbatim>\<open>cmd/amethystd/main.go\<close>) creates the components, starts a goroutine that plans and executes a
  compaction every three seconds, and runs one of seven workloads on them: each puts into log and
  memtable, flushes and registers full memtables itself, and reads through the tracker and the
  reader.

  \<^bold>\<open>The theories.\<close>
  \<^item> \<open>Amethyst_Prelude\<close>: bytes, strings (byte lists, ordered lexicographically as Go compares
    strings), slices (\<open>None\<close> is nil), wrap-around of \<^verbatim>\<open>int64\<close> and \<^verbatim>\<open>int32\<close>, big-endian fields,
    \<^verbatim>\<open>copy\<close>, and \<^verbatim>\<open>sort.Search\<close> as the library implements it, with its number of calls.
  \<^item> \<open>Go_Runtime\<close>: map iteration order and the instability of \<^verbatim>\<open>sort.Slice\<close> as fields of a record that
    the operations take, with the documented contract as the locale \<open>go_runtime\<close>.
  \<^item> \<open>Os_File\<close>: an open file, and calls on it whose outcome is an argument (done, or a fault after
    some bytes).
  \<^item> \<open>Float64\<close>: \<^verbatim>\<open>float64\<close> arithmetic as exact rational arithmetic followed by rounding to 53 bits,
    ties to even; the locale \<open>rounding\<close> has the laws the clients use.
  \<^item> \<open>Common_Types\<close>, \<open>Sparse_Index\<close>, \<open>Memtable\<close>, \<open>Wal\<close>, \<open>Segment_File\<close>, \<open>Sstable_Writer\<close>,
    \<open>Sstable_Reader\<close>, \<open>Metadata\<close>, \<open>Read_Handler\<close>, \<open>Engine\<close>, \<open>Adaptive\<close>, \<open>Director\<close>, \<open>Executor\<close>:
    one theory per Go file of \<^verbatim>\<open>internal/\<close>, in the order of the calls. Each has the file's types as
    records and datatypes, one definition per method (the loops of a method are functions of
    their own), the lemmas on it, the interface it provides as a locale with its
    interpretation, and at the end its properties.
  \<^item> \<open>Reader_Limits\<close>: what a lookup costs, that it needs no valid bytes to end, and that the index
    does not change its answer.
  \<^item> \<open>Workload\<close>, \<open>Benchmark\<close>: the command. \<open>Workload\<close> has its state (all components and counters)
    and the steps of its loops: a put with its flush, a read, a tick of the background, the last
    compaction; \<open>Benchmark\<close> the workloads, the check of the flags, the dispatch and the metrics.
  \<^item> \<open>Component_Effects\<close>, \<open>Workload_Events\<close>, \<open>Workload_Effects\<close>, \<open>Workload_Safety\<close>: what each
    operation of the components does to the rest of the state, and that a failed compaction loses
    nothing; every workload as a run of events; the effect of an event on files, tracker and
    counters; the invariant that the segments and the memtable serve what was put.
  \<^item> \<open>Workload_Progress\<close>: which steps panic, and when. \<open>Workload_Results\<close>: the puts a workload counts,
    up to wrap-around, and the ratios of its phases.
  \<^item> \<open>Workload_Properties\<close>: the properties of the command and of all components together.
  \<^item> \<open>Execution_Steps\<close>, \<open>Concurrent_Compaction\<close>, \<open>Concurrent_Properties\<close>, \<open>Concurrent_Progress\<close>: an
    execution of a plan, a flush and a lookup again, one access to shared state at a time;
    goroutines that take turns in any order, with the invariant that holds at every moment; what
    can go wrong; and which of their steps can panic.

  \<^bold>\<open>State and effects.\<close> A method is a function from the state of its receiver to a result and a new
  state; a mutex makes it one step. Segment metadata is shared by pointers, so it lives in a store
  of cells (\<open>Metadata\<close>). \<^verbatim>\<open>GetMmapData\<close> is several critical sections, and \<open>Segment_File\<close> also has the
  step relation that interleaves any number of its callers with appends. What comes from outside
  (outcomes of system calls, the clock, new identifiers, map order, sort order) is an argument. An
  iteration of a loop of the command takes one element of a stream of inputs, which holds the
  random draws, the outcomes, and the background compactions that came before the iteration. An
  error is an \<open>Inl\<close> or a \<open>Some\<close>; a panic is an outer \<open>None\<close>. The slice expressions of the reader are
  \<open>go_slice\<close>, which panics out of range, in \<open>get_body\<close> and \<open>scan_method\<close>; that the checks before them
  exclude the panic is proved, for any metadata.

  \<^bold>\<open>What the lemmas show.\<close> The functional behaviour of each component against an abstract one: the
  memtable is a map, the log is the list of operations and replays to the memtable, the index
  finds the greatest sampled key not above the target, a written segment reads back as the run,
  the tracker lists what was registered and not retired, a compaction replaces its inputs by the
  merge of their live values. Invariants: the sorted run of the memtable, the mapping of the file
  under any interleaving, the tracker's map and slice, the log covering the memtable. The
  controller: its trend lies in the unit interval, its decisions are robust to rounding, its
  switches are two seconds apart. Other properties show where the code does not do what its
  comments say: old values and deleted keys come back, a torn log is lost as a whole, a failed
  flush loses data, a merge of nothing live crashes, and a mapping can be removed under a reader.

  For the command, with all components together: whatever the order of puts, flushes, reads and
  compactions, and whichever writes, truncations and mappings of reads fail, a key reads as one of
  the values put under it, and after a workload all its keys read, as long as the background could
  map the file to scan what it compacts. Under the same condition a put panics exactly when the
  append of its flush fails, a read never, and a tick not while its scans can map the file; when
  none of them can, a tick with a plan panics. The byte counters agree with the tracker; the last
  keys never leave the memtable; and a run that gets to its end saves its results, with the logical
  bytes of the puts. With goroutines interleaved access by access, and every mapping successful, one
  compaction never hides a key from a lookup made at any moment, since its output is registered
  before its inputs are retired, and no step panics but the write of a flush that fails. A lookup
  that spans a compaction misses the key, and two executions of one plan can lose it or crash.

  \<^bold>\<open>Bounds.\<close> Recursion is structural or has a measure (the number of bytes left for the parsers,
  the number of keys left for the index, the width of the interval for the search), so no fuel is
  needed. Lengths are written as 32-bit fields: \<open>frame_fits\<close> says that they fit. File sizes are
  assumed to fit an \<^verbatim>\<open>int64\<close> where that is stated. For the command, \<open>plausible\<close> says of the final
  state that the identifiers drawn were distinct, that the file is below \<open>2 ^ 57\<close> bytes and that no
  segment is above the 500 MiB the reader accepts; \<open>calm\<close> and \<open>calm_world\<close> say that the mappings of
  background scans succeed (a compaction drops a segment it cannot scan, and retires it) and that
  keys are at most 1 MiB long. \<open>conc_reach\<close> is reachability by steps whose mappings succeed and that
  stay within the bounds \<open>roomy\<close>, the same as \<open>plausible\<close>. Values above 10 MiB are excluded, since the reader rejects them.

  \<^bold>\<open>Not modelled.\<close> Of the command: printing, the text of the JSON result file (what it holds and its
  failure to be saved are, as \<open>save_results\<close>) and the share of hot keys (only printed);
  in the workloads as a whole a tick of the background goroutine (\<open>bg_tick\<close>, main.go:155) is one step
  between two iterations, and none is still running when a workload executes its last compaction
  (\<open>last_compaction\<close>, main.go:857), although the program has nothing that prevents either; the finer
  interleavings of executions, flushes and lookups are those of \<open>Concurrent_Compaction\<close>, two
  executions of one plan among them. The outcomes of the mapping calls of one execution are the same
  for all its inputs in \<open>Execute\<close> and \<open>bg_tick\<close>, and differ from step to step in
  \<open>Execution_Steps\<close>. \<^verbatim>\<open>math.Pow\<close> is an argument.
  Logging and the text of errors; data races inside a method that its locks do not exclude, apart
  from the mapping of the file; the fused multiply and add that the Go
  compiler may use on some machines. The identifiers of \<^verbatim>\<open>github.com/google/uuid\<close> are arguments, and
  where it matters that they are new this is assumed.
\<close>

end
